(* ===== verification/GPS_Prelude.thy ===== *)
theory GPS_Prelude
  imports Main "HOL-Library.Word"
begin

text \<open>
  What every component shares: the faults that stand for undefined behaviour and aborts of
  the C++ code, the result type of fallible operations and its sequencing, a generic
  locale for state machines with an invariant, and facts on lists and words that the
  component proofs use through the simplifier and the collections declared here.
\<close>

named_theorems safe_intros \<open>introduction rules for fault-free runs\<close>
named_theorems unfold_ops \<open>definitions of operations, for case analysis on a whole handler\<close>

section \<open>Faults and results\<close>

text \<open>
  A fault is a point where the C++ program has left its defined behaviour or has stopped:
  an access outside an array, a null pointer, a \<open>memcpy\<close> between overlapping regions, a
  failed \<open>assert\<close>, an object used after \<open>delete\<close>, an iterator used after \<open>erase\<close>, an
  indeterminate (never written) value that is read, a format string whose directives have
  no argument, a wait on the network that does not end, and a C++ exception with its message.
\<close>

datatype fault =
    OutOfBounds
  | NullDeref
  | Overlap
  | AssertFail
  | UseAfterFree
  | IterInvalid
  | Indeterminate
  | FormatArgs
  | Blocked
  | Thrown string

type_synonym 'a res = "fault + 'a"

fun rbind :: "'a res \<Rightarrow> ('a \<Rightarrow> 'b res) \<Rightarrow> 'b res" where
  "rbind (Inl e) f = Inl e"
| "rbind (Inr x) f = f x"

definition guard :: "bool \<Rightarrow> fault \<Rightarrow> unit res" where
  "guard b e = (if b then Inr () else Inl e)"

definition no_fault :: "'a res \<Rightarrow> bool" where
  "no_fault r \<longleftrightarrow> (\<exists>x. r = Inr x)"

lemma rbind_eq_Inr [simp]: "rbind m f = Inr y \<longleftrightarrow> (\<exists>x. m = Inr x \<and> f x = Inr y)"
  by (cases m) auto

lemma rbind_eq_Inl: "rbind m f = Inl e \<longleftrightarrow> m = Inl e \<or> (\<exists>x. m = Inr x \<and> f x = Inl e)"
  by (cases m) auto

lemma rbind_assoc: "rbind (rbind m f) g = rbind m (\<lambda>x. rbind (f x) g)"
  by (cases m) auto

lemma guard_True [simp]: "guard True e = Inr ()"
  by (simp add: guard_def)

lemma guard_False [simp]: "guard False e = Inl e"
  by (simp add: guard_def)

lemma guard_eq_Inr [simp]: "guard b e = Inr u \<longleftrightarrow> b"
  by (simp add: guard_def)

lemma no_fault_Inr [simp, safe_intros]: "no_fault (Inr x)"
  by (simp add: no_fault_def)

lemma no_fault_Inl [simp]: "\<not> no_fault (Inl e)"
  by (simp add: no_fault_def)

lemma no_fault_rbind [safe_intros]:
  "no_fault m \<Longrightarrow> (\<And>x. m = Inr x \<Longrightarrow> no_fault (f x)) \<Longrightarrow> no_fault (rbind m f)"
  by (cases m) (auto simp: no_fault_def)

section \<open>State machines with an invariant\<close>

text \<open>
  A component that reacts to events is a partial step (a fault stops it). The locale takes
  a step and an invariant it keeps, and lifts the invariant to whole runs.
\<close>

fun run_steps :: "('s \<Rightarrow> 'e \<Rightarrow> 's res) \<Rightarrow> 's \<Rightarrow> 'e list \<Rightarrow> 's res" where
  "run_steps step s [] = Inr s"
| "run_steps step s (e # es) = rbind (step s e) (\<lambda>s'. run_steps step s' es)"

lemma run_steps_append:
  "run_steps step s (es @ fs) = rbind (run_steps step s es) (\<lambda>s'. run_steps step s' fs)"
  by (induction es arbitrary: s) (auto simp: rbind_assoc)

locale invariant_machine =
  fixes step :: "'s \<Rightarrow> 'e \<Rightarrow> 's res"
    and inv :: "'s \<Rightarrow> bool"
  assumes step_inv: "inv s \<Longrightarrow> step s e = Inr s' \<Longrightarrow> inv s'"
begin

lemma run_inv: "inv s \<Longrightarrow> run_steps step s es = Inr s' \<Longrightarrow> inv s'"
  by (induction es arbitrary: s) (auto dest: step_inv)

end

text \<open>
  Where the invariant also excludes every fault, no sequence of events stops the machine.
\<close>

locale total_machine = invariant_machine +
  assumes step_safe: "inv s \<Longrightarrow> no_fault (step s e)"
begin

lemma run_safe: "inv s \<Longrightarrow> no_fault (run_steps step s es)"
proof (induction es arbitrary: s)
  case Nil
  then show ?case by simp
next
  case (Cons e es)
  then show ?case
    using step_safe [OF Cons.prems, of e] step_inv [OF Cons.prems, of e]
    by (auto intro!: no_fault_rbind)
qed

end

section \<open>Lists and maps\<close>

lemma takeWhile_all: "(\<And>x. x \<in> set xs \<Longrightarrow> P x) \<Longrightarrow> takeWhile P xs = xs"
  by simp

lemma map_upt_append_single: "map f [0..<Suc n] = map f [0..<n] @ [f n]"
  by simp

lemma map_upt_cong: "(\<And>i. i < n \<Longrightarrow> f i = g i) \<Longrightarrow> map f [0..<n] = map g [0..<n]"
  by simp

section \<open>Ordered maps\<close>

text \<open>
  \<open>std::map\<close> as its in-order list of pairs; \<open>insert\<close> puts a new key at its place and keeps
  the value of a key that is already there.
\<close>

fun ins_new :: "'k::linorder \<Rightarrow> 'v \<Rightarrow> ('k \<times> 'v) list \<Rightarrow> ('k \<times> 'v) list" where
  "ins_new k v [] = [(k, v)]"
| "ins_new k v ((k', v') # r) =
     (if k < k' then (k, v) # (k', v') # r else if k = k' then (k', v') # r else (k', v') # ins_new k v r)"

lemma ins_new_split:
  "(\<forall>e\<in>set u. fst e < k) \<Longrightarrow> (\<forall>e\<in>set w. k < fst e) \<Longrightarrow> ins_new k v (u @ w) = u @ (k, v) # w"
proof (induction u)
  case Nil
  then show ?case by (cases w) auto
next
  case (Cons e u)
  then show ?case by (cases e) auto
qed

lemma ins_new_present:
  "sorted_wrt (<) (map fst es) \<Longrightarrow> k \<in> fst ` set es \<Longrightarrow> ins_new k v es = es"
proof (induction es)
  case Nil
  then show ?case by simp
next
  case (Cons e es)
  then show ?case by (cases e) auto
qed

lemma map_of_ins_new:
  "sorted_wrt (<) (map fst es) \<Longrightarrow> k \<notin> fst ` set es \<Longrightarrow> map_of (ins_new k v es) = (map_of es)(k \<mapsto> v)"
proof (induction es)
  case Nil
  then show ?case by simp
next
  case (Cons e es)
  then show ?case by (cases e) (auto simp: fun_upd_twist)
qed

lemma sorted_ins_new:
  "sorted_wrt (<) (map fst es) \<Longrightarrow> sorted_wrt (<) (map fst (ins_new k v es))"
proof -
  have set_ins: "fst ` set (ins_new k v es) \<subseteq> insert k (fst ` set es)" for es :: "('a \<times> 'b) list"
    by (induction es) (force split: if_splits)+
  show "sorted_wrt (<) (map fst es) \<Longrightarrow> sorted_wrt (<) (map fst (ins_new k v es))"
  proof (induction es)
    case Nil
    then show ?case by simp
  next
    case (Cons e es)
    have "fst ` set (ins_new k v es) \<subseteq> insert k (fst ` set es)" by (rule set_ins)
    with Cons show ?case by (cases e) (fastforce split: if_splits)
  qed
qed

lemma map_of_ins_new_all:
  "sorted_wrt (<) (map fst es) \<Longrightarrow>
   map_of (ins_new k v es) = (if k \<in> fst ` set es then map_of es else (map_of es)(k \<mapsto> v))"
  using ins_new_present [of es k v] map_of_ins_new [of es k v] by simp

lemma set_ins_new: "set (ins_new k v es) \<subseteq> insert (k, v) (set es)"
proof (induction es)
  case Nil
  then show ?case by simp
next
  case (Cons e es)
  then show ?case by (cases e) auto
qed

lemma ins_new_place:
  "sorted_wrt (<) (map fst es) \<Longrightarrow> k \<notin> fst ` set es \<Longrightarrow>
   \<exists>u w. es = u @ w \<and> ins_new k v es = u @ (k, v) # w \<and> (\<forall>e\<in>set u. fst e < k) \<and> (\<forall>e\<in>set w. k < fst e)"
proof (induction es)
  case Nil
  then show ?case by simp
next
  case (Cons e es)
  obtain k' v' where e: "e = (k', v')" by (cases e)
  show ?case
  proof (cases "k < k'")
    case True
    then have "\<forall>f\<in>set (e # es). k < fst f" using Cons.prems(1) e by auto
    with True e show ?thesis by (intro exI [of _ "[]"] exI [of _ "e # es"]) simp
  next
    case False
    then have "k' < k" using Cons.prems(2) e by auto
    moreover obtain u w where "es = u @ w" "ins_new k v es = u @ (k, v) # w" "\<forall>f\<in>set u. fst f < k" "\<forall>f\<in>set w. k < fst f"
      using Cons by auto
    ultimately show ?thesis using e by (intro exI [of _ "e # u"] exI [of _ w]) auto
  qed
qed

lemma ins_new_greatest:
  "(\<forall>e\<in>set es. fst e < k) \<Longrightarrow> ins_new k v es = es @ [(k, v)]"
  using ins_new_split [of es k "[]" v] by simp

text \<open>Restricting an association list to some keys.\<close>

lemma map_of_filter_keys:
  "map_of (filter (\<lambda>kv. fst kv \<in> K) kvs) key = (if key \<in> K then map_of kvs key else None)"
  by (induction kvs) auto

end
