(* ===== verification/CLib.thy ===== *)
theory CLib
  imports GPS_Prelude "HOL-Library.Sublist"
begin

text \<open>
  The part of the C language and library the sources use: character classes, fixed-size
  arrays with checked accesses, block copies inside one array, string search, decimal
  printing and the integer scanners \<open>strtol\<close>, \<open>strtoul\<close> and \<open>atoi\<close>.
  A fixed-size array is a function from indices together with its capacity, which every
  access checks. The data model is ILP32, that of the 32-bit connector the program is
  linked with: \<open>int\<close>, \<open>long\<close> and \<open>size_t\<close> have 32 bits.
\<close>

section \<open>Characters\<close>

abbreviation NUL :: char where
  "NUL \<equiv> CHR 0x00"

definition isspace :: "char \<Rightarrow> bool" where
  "isspace c \<longleftrightarrow> c = CHR '' '' \<or> c = CHR 0x09 \<or> c = CHR 0x0A \<or> c = CHR 0x0B
     \<or> c = CHR 0x0C \<or> c = CHR 0x0D"

definition is_digit :: "char \<Rightarrow> bool" where
  "is_digit c \<longleftrightarrow> 48 \<le> (of_char c :: nat) \<and> (of_char c :: nat) \<le> 57"

definition digit_val :: "char \<Rightarrow> nat" where
  "digit_val c = of_char c - 48"

definition digit_char :: "nat \<Rightarrow> char" where
  "digit_char n = char_of (48 + n)"

text \<open>A C string is what stands before the first NUL.\<close>

definition cstr :: "string \<Rightarrow> string" where
  "cstr s = takeWhile (\<lambda>c. c \<noteq> NUL) s"

lemma cstr_no_nul [simp]: "NUL \<notin> set s \<Longrightarrow> cstr s = s"
  unfolding cstr_def by (subst takeWhile_eq_all_conv) auto

lemma cstr_Nil [simp]: "cstr [] = []"
  by (simp add: cstr_def)

lemma cstr_Cons: "cstr (c # s) = (if c = NUL then [] else c # cstr s)"
  by (simp add: cstr_def)

lemma nul_notin_cstr [simp]: "NUL \<notin> set (cstr s)"
  by (auto simp: cstr_def dest: set_takeWhileD)

lemma length_cstr_le: "length (cstr s) \<le> length s"
  by (simp add: cstr_def length_takeWhile_le)

lemma of_digit_char [simp]: "n < 10 \<Longrightarrow> (of_char (digit_char n) :: nat) = 48 + n"
  by (simp add: digit_char_def)

lemma digit_val_char [simp]: "n < 10 \<Longrightarrow> digit_val (digit_char n) = n"
  by (simp add: digit_val_def)

lemma is_digit_char [simp]: "n < 10 \<Longrightarrow> is_digit (digit_char n)"
  by (simp add: is_digit_def)

lemma digit_not_space [simp]: "is_digit c \<Longrightarrow> \<not> isspace c"
  by (auto simp: is_digit_def isspace_def)

lemma digit_not_nul [simp]: "is_digit c \<Longrightarrow> c \<noteq> NUL"
  by (auto simp: is_digit_def)

lemma digit_not_sign [simp]: "is_digit c \<Longrightarrow> c \<noteq> CHR ''-'' \<and> c \<noteq> CHR ''+'' \<and> c \<noteq> CHR ''.''"
  by (auto simp: is_digit_def)

lemma digit_val_less [simp]: "is_digit c \<Longrightarrow> digit_val c < 10"
  by (auto simp: is_digit_def digit_val_def)

section \<open>Fixed-size arrays\<close>

definition rd :: "nat \<Rightarrow> (nat \<Rightarrow> 'a) \<Rightarrow> nat \<Rightarrow> 'a res" where
  "rd cap a i = (if i < cap then Inr (a i) else Inl OutOfBounds)"

definition wr :: "nat \<Rightarrow> (nat \<Rightarrow> 'a) \<Rightarrow> nat \<Rightarrow> 'a \<Rightarrow> (nat \<Rightarrow> 'a) res" where
  "wr cap a i v = (if i < cap then Inr (a(i := v)) else Inl OutOfBounds)"

text \<open>The bytes \<open>a[s], ..., a[s+n-1]\<close>.\<close>

definition slice :: "(nat \<Rightarrow> 'a) \<Rightarrow> nat \<Rightarrow> nat \<Rightarrow> 'a list" where
  "slice a s n = map (\<lambda>k. a (s + k)) [0..<n]"

text \<open>Storing a list at an offset, as \<open>recv\<close> and \<open>memcpy\<close> from another object do.\<close>

definition store :: "(nat \<Rightarrow> 'a) \<Rightarrow> nat \<Rightarrow> 'a list \<Rightarrow> nat \<Rightarrow> 'a" where
  "store a s xs = (\<lambda>k. if s \<le> k \<and> k < s + length xs then xs ! (k - s) else a k)"

lemma rd_ok [simp]: "i < cap \<Longrightarrow> rd cap a i = Inr (a i)"
  by (simp add: rd_def)

lemma rd_eq_Inr [simp]: "rd cap a i = Inr v \<longleftrightarrow> i < cap \<and> a i = v"
  by (auto simp: rd_def)

lemma wr_ok [simp]: "i < cap \<Longrightarrow> wr cap a i v = Inr (a(i := v))"
  by (simp add: wr_def)

lemma wr_eq_Inr [simp]: "wr cap a i v = Inr b \<longleftrightarrow> i < cap \<and> b = a(i := v)"
  by (auto simp: wr_def)

lemma length_slice [simp]: "length (slice a s n) = n"
  by (simp add: slice_def)

lemma nth_slice [simp]: "k < n \<Longrightarrow> slice a s n ! k = a (s + k)"
  by (simp add: slice_def)

lemma slice_0 [simp]: "slice a s 0 = []"
  by (simp add: slice_def)

lemma slice_Suc: "slice a s (Suc n) = a s # slice a (Suc s) n"
  by (rule nth_equalityI) (auto simp: nth_Cons split: nat.splits)

lemma slice_snoc: "slice a s (Suc n) = slice a s n @ [a (s + n)]"
  by (simp add: slice_def)

lemma slice_store: "slice (store a s xs) s (length xs) = xs"
  by (rule nth_equalityI) (auto simp: store_def)

lemma store_out [simp]: "k < s \<or> s + length xs \<le> k \<Longrightarrow> store a s xs k = a k"
  by (auto simp: store_def)

lemma store_in [simp]: "s \<le> k \<Longrightarrow> k < s + length xs \<Longrightarrow> store a s xs k = xs ! (k - s)"
  by (simp add: store_def)

section \<open>Block copies inside one array\<close>

text \<open>
  The C standard leaves \<open>memcpy\<close> undefined on overlapping regions. The mode says what the
  platform at hand does then: trap (the standard's reading), copy element by element
  upwards, or copy downwards.
\<close>

datatype copy_sem = CopyStrict | CopyForward | CopyBackward

definition moved :: "(nat \<Rightarrow> 'a) \<Rightarrow> nat \<Rightarrow> nat \<Rightarrow> nat \<Rightarrow> nat \<Rightarrow> 'a" where
  "moved a d s n = (\<lambda>k. if d \<le> k \<and> k < d + n then a (s + (k - d)) else a k)"

fun copy_up :: "(nat \<Rightarrow> 'a) \<Rightarrow> nat \<Rightarrow> nat \<Rightarrow> nat \<Rightarrow> nat \<Rightarrow> 'a" where
  "copy_up a d s 0 = a"
| "copy_up a d s (Suc n) = copy_up (a(d := a s)) (Suc d) (Suc s) n"

fun copy_down :: "(nat \<Rightarrow> 'a) \<Rightarrow> nat \<Rightarrow> nat \<Rightarrow> nat \<Rightarrow> nat \<Rightarrow> 'a" where
  "copy_down a d s 0 = a"
| "copy_down a d s (Suc n) = copy_down (a(d + n := a (s + n))) d s n"

definition overlap :: "nat \<Rightarrow> nat \<Rightarrow> nat \<Rightarrow> bool" where
  "overlap d s n \<longleftrightarrow> 0 < n \<and> d < s + n \<and> s < d + n"

definition memcpy :: "copy_sem \<Rightarrow> nat \<Rightarrow> (nat \<Rightarrow> 'a) \<Rightarrow> nat \<Rightarrow> nat \<Rightarrow> nat \<Rightarrow> (nat \<Rightarrow> 'a) res" where
  "memcpy mode cap a d s n =
     (if cap < d + n \<or> cap < s + n then Inl OutOfBounds
      else case mode of
        CopyStrict \<Rightarrow> if overlap d s n then Inl Overlap else Inr (moved a d s n)
      | CopyForward \<Rightarrow> Inr (copy_up a d s n)
      | CopyBackward \<Rightarrow> Inr (copy_down a d s n))"

lemma copy_up_moved: "d \<le> s \<or> s + n \<le> d \<Longrightarrow> copy_up a d s n = moved a d s n"
proof (induction n arbitrary: a d s)
  case 0
  then show ?case by (auto simp: moved_def fun_eq_iff)
next
  case (Suc n)
  have "copy_up a d s (Suc n) = copy_up (a(d := a s)) (Suc d) (Suc s) n" by simp
  also have "\<dots> = moved (a(d := a s)) (Suc d) (Suc s) n"
    by (rule Suc.IH) (use Suc.prems in auto)
  also have "\<dots> = moved a d s (Suc n)"
    using Suc.prems by (auto simp: moved_def fun_eq_iff Suc_diff_Suc le_Suc_eq not_less_eq_eq)
  finally show ?case .
qed

lemma copy_down_moved: "s \<le> d \<or> d + n \<le> s \<Longrightarrow> copy_down a d s n = moved a d s n"
proof (induction n arbitrary: a)
  case 0
  then show ?case by (auto simp: moved_def fun_eq_iff)
next
  case (Suc n)
  have "copy_down a d s (Suc n) = copy_down (a(d + n := a (s + n))) d s n" by simp
  also have "\<dots> = moved (a(d + n := a (s + n))) d s n"
    by (rule Suc.IH) (use Suc.prems in auto)
  also have "\<dots> = moved a d s (Suc n)"
    using Suc.prems by (auto simp: moved_def fun_eq_iff)
  finally show ?case .
qed

lemma moved_0 [simp]: "moved a d s 0 = a"
  by (auto simp: moved_def fun_eq_iff)

lemma memcpy_0 [simp]: "d \<le> cap \<Longrightarrow> s \<le> cap \<Longrightarrow> memcpy mode cap a d s 0 = Inr a"
  by (cases mode) (auto simp: memcpy_def overlap_def)

lemma memcpy_disjoint:
  "d + n \<le> cap \<Longrightarrow> s + n \<le> cap \<Longrightarrow> \<not> overlap d s n \<Longrightarrow> memcpy mode cap a d s n = Inr (moved a d s n)"
  by (cases "n = 0"; cases mode)
    (auto simp: memcpy_def overlap_def copy_up_moved copy_down_moved)

lemma memcpy_forward_down:
  "d \<le> s \<Longrightarrow> s + n \<le> cap \<Longrightarrow> memcpy CopyForward cap a d s n = Inr (moved a d s n)"
  by (auto simp: memcpy_def copy_up_moved)

lemma memcpy_backward_up:
  "s \<le> d \<Longrightarrow> d + n \<le> cap \<Longrightarrow> memcpy CopyBackward cap a d s n = Inr (moved a d s n)"
  by (auto simp: memcpy_def copy_down_moved)

lemma memcpy_strict_overlap:
  "overlap d s n \<Longrightarrow> d + n \<le> cap \<Longrightarrow> s + n \<le> cap \<Longrightarrow> memcpy CopyStrict cap a d s n = Inl Overlap"
  by (auto simp: memcpy_def)

text \<open>Copying upwards onto the next slot repeats the first element over the whole block.\<close>

lemma copy_up_smear: "copy_up a (Suc s) s n = (\<lambda>k. if s < k \<and> k \<le> s + n then a s else a k)"
proof (induction n arbitrary: a s)
  case 0
  then show ?case by (auto simp: fun_eq_iff)
next
  case (Suc n)
  then show ?case by (auto simp: fun_eq_iff)
qed

lemma copy_up_outside: "k < d \<or> d + n \<le> k \<Longrightarrow> copy_up a d s n k = a k"
  by (induction n arbitrary: a d s) auto

lemma copy_down_outside: "k < d \<or> d + n \<le> k \<Longrightarrow> copy_down a d s n k = a k"
  by (induction n arbitrary: a) auto

text \<open>In every mode a copy changes nothing outside its destination.\<close>

lemma memcpy_outside:
  "memcpy mode cap a d s n = Inr b \<Longrightarrow> k < d \<or> d + n \<le> k \<Longrightarrow> b k = a k"
  by (cases mode) (auto simp: memcpy_def moved_def copy_up_outside copy_down_outside split: if_splits)

section \<open>Searching strings\<close>

fun strchr :: "string \<Rightarrow> char \<Rightarrow> nat option" where
  "strchr [] c = None"
| "strchr (x # xs) c = (if x = c then Some 0 else map_option Suc (strchr xs c))"

fun strstr :: "string \<Rightarrow> string \<Rightarrow> bool" where
  "strstr [] needle = (needle = [])"
| "strstr (x # xs) needle = (prefix needle (x # xs) \<or> strstr xs needle)"

lemma strchr_None [simp]: "strchr s c = None \<longleftrightarrow> c \<notin> set s"
  by (induction s) auto

lemma strchr_Some: "strchr s c = Some k \<Longrightarrow> k < length s \<and> s ! k = c \<and> c \<notin> set (take k s)"
  by (induction s arbitrary: k) (auto split: if_splits)

lemma strchr_SomeD: "strchr s c = Some k \<Longrightarrow> c \<in> set s"
  by (metis option.distinct(1) strchr_None)

lemma strchr_append: "c \<notin> set s \<Longrightarrow> strchr (s @ c # t) c = Some (length s)"
  by (induction s) auto

lemma strstr_iff: "strstr s needle \<longleftrightarrow> (\<exists>u v. s = u @ needle @ v)"
proof (induction s)
  case Nil
  then show ?case by auto
next
  case (Cons x xs)
  have "(\<exists>u v. x # xs = u @ needle @ v)
      \<longleftrightarrow> prefix needle (x # xs) \<or> (\<exists>u v. xs = u @ needle @ v)"
    by (metis (no_types, opaque_lifting) append_Cons append_Nil list.sel(3) neq_Nil_conv
        prefix_def tl_append2)
  with Cons show ?case by simp
qed

section \<open>Decimal integers\<close>

fun dec :: "nat \<Rightarrow> string" where
  "dec n = (if n < 10 then [digit_char n] else dec (n div 10) @ [digit_char (n mod 10)])"

declare dec.simps [simp del]

definition print_int :: "int \<Rightarrow> string" where
  "print_int i = (if i < 0 then CHR ''-'' # dec (nat (- i)) else dec (nat i))"

fun dec_val :: "nat \<Rightarrow> string \<Rightarrow> nat" where
  "dec_val acc [] = acc"
| "dec_val acc (c # cs) = dec_val (10 * acc + digit_val c) cs"

lemma dec_val_append: "dec_val acc (s @ t) = dec_val (dec_val acc s) t"
  by (induction s arbitrary: acc) auto

lemma dec_val_shift: "dec_val acc s = acc * 10 ^ length s + dec_val 0 s"
proof (induction s arbitrary: acc)
  case Nil
  then show ?case by simp
next
  case (Cons c cs)
  have "dec_val acc (c # cs) = (10 * acc + digit_val c) * 10 ^ length cs + dec_val 0 cs"
    using Cons.IH [of "10 * acc + digit_val c"] by simp
  moreover have "dec_val 0 (c # cs) = digit_val c * 10 ^ length cs + dec_val 0 cs"
    using Cons.IH [of "digit_val c"] by simp
  ultimately show ?case by (simp add: algebra_simps)
qed

lemma dec_digits: "c \<in> set (dec n) \<Longrightarrow> is_digit c"
  by (induction n rule: dec.induct) (subst (asm) (2) dec.simps, auto split: if_splits)

lemma dec_nonempty [simp]: "dec n \<noteq> []"
  by (subst dec.simps) simp

lemma dec_val_dec [simp]: "dec_val 0 (dec n) = n"
proof (induction n rule: dec.induct)
  case (1 n)
  then show ?case by (subst dec.simps) (auto simp: dec_val_append)
qed

lemma dec_val_bound: "(\<forall>c\<in>set s. is_digit c) \<Longrightarrow> dec_val 0 s < 10 ^ length s"
proof (induction s rule: rev_induct)
  case Nil
  then show ?case by simp
next
  case (snoc c s)
  then have "dec_val 0 s < 10 ^ length s" and "digit_val c < 10" by auto
  then show ?case by (simp add: dec_val_append)
qed

lemma length_dec_gt: "10 ^ k \<le> n \<Longrightarrow> k < length (dec n)"
proof (induction k arbitrary: n)
  case 0
  then show ?case by (subst dec.simps) simp
next
  case (Suc k)
  then have "10 ^ k \<le> n div 10" by (simp add: less_eq_div_iff_mult_less_eq mult.commute)
  then have "k < length (dec (n div 10))" by (rule Suc.IH)
  moreover have "(10 :: nat) \<le> 10 ^ Suc k" by simp
  then have "\<not> n < 10" using Suc.prems by linarith
  ultimately show ?case by (subst dec.simps) simp
qed

lemma length_dec_le: "0 < k \<Longrightarrow> n < 10 ^ k \<Longrightarrow> length (dec n) \<le> k"
proof (induction n arbitrary: k rule: dec.induct)
  case (1 n)
  show ?case
  proof (cases "n < 10")
    case True
    then show ?thesis using "1.prems" by (subst dec.simps) simp
  next
    case False
    then obtain m where k: "k = Suc m" and m: "0 < m"
      using "1.prems" by (cases k; cases "k - 1") auto
    have "n div 10 < 10 ^ m" using "1.prems"(2) k by (simp add: less_mult_imp_div_less mult.commute)
    then have "length (dec (n div 10)) \<le> m" using "1.IH" [OF False m] by simp
    with False k show ?thesis by (subst dec.simps) simp
  qed
qed

section \<open>Integer scanners\<close>

text \<open>
  The common part of \<open>strtol\<close> and \<open>strtoul\<close> in base 10: white space, a sign, digits. The
  result is the mathematical value and the rest of the string, or \<open>None\<close> without digits.
\<close>

definition scan_sign :: "string \<Rightarrow> bool \<times> string" where
  "scan_sign s = (case s of
      [] \<Rightarrow> (False, s)
    | c # cs \<Rightarrow> if c = CHR ''-'' then (True, cs) else if c = CHR ''+'' then (False, cs) else (False, s))"

definition scan_int :: "string \<Rightarrow> (int \<times> string) option" where
  "scan_int s =
     (let (neg, t) = scan_sign (dropWhile isspace s); ds = takeWhile is_digit t
      in if ds = [] then None
         else Some (if neg then - int (dec_val 0 ds) else int (dec_val 0 ds), dropWhile is_digit t))"

definition clamp_signed :: "nat \<Rightarrow> int \<Rightarrow> int" where
  "clamp_signed w v = max (- (2 ^ (w - 1))) (min (2 ^ (w - 1) - 1) v)"

text \<open>\<open>strtol\<close>: the clamped value and the rest at \<open>*endptr\<close>.\<close>

definition strtol :: "nat \<Rightarrow> string \<Rightarrow> int \<times> string" where
  "strtol w s = (case scan_int s of None \<Rightarrow> (0, s) | Some (v, t) \<Rightarrow> (clamp_signed w v, t))"

text \<open>\<open>strtoul\<close>: out of range gives the maximum; a minus sign negates modulo \<open>2 ^ w\<close>.\<close>

definition strtoul :: "nat \<Rightarrow> string \<Rightarrow> int \<times> string" where
  "strtoul w s = (case scan_int s of None \<Rightarrow> (0, s)
     | Some (v, t) \<Rightarrow> (if 2 ^ w \<le> \<bar>v\<bar> then 2 ^ w - 1 else v mod 2 ^ w, t))"

text \<open>\<open>atoi\<close>, as the C library has it: the low 32 bits of \<open>strtol\<close>.\<close>

definition atoi :: "string \<Rightarrow> 32 word" where
  "atoi s = word_of_int (fst (strtol 32 s))"

lemma scan_int_digits:
  assumes "ds \<noteq> []" and "\<forall>c\<in>set ds. is_digit c" and "t = [] \<or> \<not> is_digit (hd t)"
  shows "scan_int (ds @ t) = Some (int (dec_val 0 ds), t)"
proof -
  obtain d ds' where ds: "ds = d # ds'" using assms(1) by (cases ds) auto
  with assms(2) have d: "is_digit d" by simp
  have "dropWhile isspace (ds @ t) = ds @ t" using ds d by simp
  moreover have "scan_sign (ds @ t) = (False, ds @ t)" using ds d by (simp add: scan_sign_def)
  moreover have "takeWhile is_digit (ds @ t) = ds" and "dropWhile is_digit (ds @ t) = t"
    using assms(2,3) by (cases t; auto simp: takeWhile_append2 dropWhile_append2)+
  ultimately show ?thesis using assms(1) by (simp add: scan_int_def)
qed

lemma scan_int_print [simp]: "scan_int (print_int i) = Some (i, [])"
proof (cases "i < 0")
  case True
  have ws: "dropWhile isspace (CHR ''-'' # dec (nat (- i))) = CHR ''-'' # dec (nat (- i))"
    by (simp add: isspace_def)
  have "\<forall>c\<in>set (dec (nat (- i))). is_digit c" by (auto intro: dec_digits)
  then have ds: "takeWhile is_digit (dec (nat (- i))) = dec (nat (- i))"
    "dropWhile is_digit (dec (nat (- i))) = []"
    by (simp_all only: takeWhile_eq_all_conv dropWhile_eq_Nil_conv)
  have "scan_sign (CHR ''-'' # dec (nat (- i))) = (True, dec (nat (- i)))"
    by (simp add: scan_sign_def)
  with True show ?thesis
    by (simp only: print_int_def scan_int_def Let_def ws ds if_True prod.case dec_val_dec) simp
next
  case False
  then show ?thesis
    using scan_int_digits [of "dec (nat i)" "[]"] dec_digits by (auto simp: print_int_def)
qed

lemma atoi_digits:
  assumes "ds \<noteq> []" and "\<forall>c\<in>set ds. is_digit c" and "length ds \<le> 9" and "t = [] \<or> \<not> is_digit (hd t)"
  shows "atoi (ds @ t) = of_nat (dec_val 0 ds)"
proof -
  have "dec_val 0 ds < 10 ^ length ds" using assms(2) by (rule dec_val_bound)
  also have "\<dots> \<le> 10 ^ 9" using assms(3) by (intro power_increasing) auto
  finally have "int (dec_val 0 ds) < 2 ^ 31 - 1" by simp
  then have "clamp_signed 32 (int (dec_val 0 ds)) = int (dec_val 0 ds)"
    by (simp add: clamp_signed_def)
  then show ?thesis
    using scan_int_digits [OF assms(1,2,4)] by (simp add: atoi_def strtol_def)
qed

lemma atoi_Nil [simp]: "atoi [] = 0"
  by (simp add: atoi_def strtol_def scan_int_def scan_sign_def)

section \<open>Double precision values\<close>

text \<open>
  The program does three things with a \<open>double\<close>: it reads one with \<open>atof\<close>, subtracts
  one from another and prints one with \<open>%.8f\<close>; \<open>memset\<close> makes some of them zero. The
  record holds these operations, so that what is proved holds for every arithmetic, that
  of IEEE 754 included.
\<close>

record 'd fpops =
  fp_zero :: 'd
  fp_atof :: "string \<Rightarrow> 'd"
  fp_sub :: "'d \<Rightarrow> 'd \<Rightarrow> 'd"
  fp_fmt8 :: "'d \<Rightarrow> string"

text \<open>An instance on integers, for evaluating the operations on concrete inputs.\<close>

definition int_fp :: "int fpops" where
  "int_fp = \<lparr>fp_zero = 0, fp_atof = (\<lambda>s. fst (strtol 32 s)), fp_sub = (-), fp_fmt8 = print_int\<rparr>"

lemma int_fp_simps [simp]:
  "fp_zero int_fp = 0" "fp_atof int_fp = (\<lambda>s. fst (strtol 32 s))" "fp_sub int_fp = (-)"
  "fp_fmt8 int_fp = print_int"
  by (simp_all add: int_fp_def)

end
