(* ===== verification/OffsetArray.thy ===== *)
theory OffsetArray
  imports CLib
begin

text \<open>
  The correction table of one latitude (\<open>CXArray.h\<close>, \<open>CXArray.cpp\<close>): an array of
  \<open>ARRAY_COUNT\<close> entries, each a longitude key with its two offsets, filled by \<open>append\<close>
  and read by \<open>getGpsxy\<close>. The lemmas relate it to a sorted association list.
\<close>

section \<open>Data\<close>

abbreviation ARRAY_COUNT :: nat where
  "ARRAY_COUNT \<equiv> 6600"

record 'd CPOI =
  poi_dx :: 'd
  poi_dy :: 'd

record 'd Coffsetdata =
  off_x :: "32 word"
  off_dx :: 'd
  off_dy :: 'd

record 'd CXArray =
  arraylng :: "nat \<Rightarrow> 'd Coffsetdata"
  index :: nat

definition zero_entry :: "'d fpops \<Rightarrow> 'd Coffsetdata" where
  "zero_entry fp = \<lparr>off_x = 0, off_dx = fp_zero fp, off_dy = fp_zero fp\<rparr>"

definition new_CXArray :: "'d fpops \<Rightarrow> 'd CXArray" where
  "new_CXArray fp = \<lparr>arraylng = (\<lambda>_. zero_entry fp), index = 0\<rparr>"

definition getcount :: "'d CXArray \<Rightarrow> nat" where
  "getcount a = index a"

section \<open>Insertion\<close>

text \<open>The loop that walks back from the last entry while it is greater than \<open>x\<close>.\<close>

fun scan_back :: "(nat \<Rightarrow> 'd Coffsetdata) \<Rightarrow> 32 word \<Rightarrow> nat \<Rightarrow> nat res" where
  "scan_back arr x 0 = rbind (rd ARRAY_COUNT arr 0) (\<lambda>e. Inr 0)"
| "scan_back arr x (Suc t) =
     rbind (rd ARRAY_COUNT arr (Suc t)) (\<lambda>e. if x < off_x e then scan_back arr x t else Inr (Suc t))"

definition put_entry :: "'d CXArray \<Rightarrow> (nat \<Rightarrow> 'd Coffsetdata) \<Rightarrow> nat \<Rightarrow> 'd Coffsetdata \<Rightarrow> 'd CXArray" where
  "put_entry a arr t e = a\<lparr>arraylng := arr(t := e), index := Suc (index a)\<rparr>"

definition append_entry :: "copy_sem \<Rightarrow> 'd CXArray \<Rightarrow> 32 word \<Rightarrow> 'd \<Rightarrow> 'd \<Rightarrow> 'd CXArray res" where
  "append_entry mode a x dx dy =
     (let e = \<lparr>off_x = x, off_dx = dx, off_dy = dy\<rparr>; arr = arraylng a; n = index a in
      if n = 0 then Inr (put_entry a arr 0 e)
      else rbind (scan_back arr x (n - 1)) (\<lambda>t.
        if t = 0 \<and> x < off_x (arr 0) then
          rbind (memcpy mode ARRAY_COUNT arr 1 0 (n - 1)) (\<lambda>arr'. Inr (put_entry a arr' 0 e))
        else if t \<noteq> n - 1 \<and> off_x (arr t) = x then Inr a
        else rbind (if t \<noteq> n - 1 then memcpy mode ARRAY_COUNT arr (t + 2) (t + 1) (n - t - 1) else Inr arr)
          (\<lambda>arr'. if t < ARRAY_COUNT - 1 then Inr (put_entry a arr' (t + 1) e)
                  else Inr (a\<lparr>arraylng := arr'\<rparr>))))"

section \<open>Lookup\<close>

function scan_fwd :: "(nat \<Rightarrow> 'd Coffsetdata) \<Rightarrow> 32 word \<Rightarrow> nat \<Rightarrow> nat option" where
  "scan_fwd arr key i =
     (if i < ARRAY_COUNT then (if key = off_x (arr i) then Some i else scan_fwd arr key (Suc i))
      else None)"
  by pat_completeness auto
termination
  by (relation "measure (\<lambda>(arr, key, i). ARRAY_COUNT - i)") auto

declare scan_fwd.simps [simp del]

definition apply_offset :: "'d fpops \<Rightarrow> 'd CPOI \<Rightarrow> 'd Coffsetdata \<Rightarrow> 'd CPOI" where
  "apply_offset fp p e = \<lparr>poi_dx = fp_sub fp (poi_dx p) (off_dx e), poi_dy = fp_sub fp (poi_dy p) (off_dy e)\<rparr>"

text \<open>
  The first probe is at the distance of the key from the first entry, an unsigned
  difference. Without a match the local result is returned as it was created, with
  indeterminate members: \<open>None\<close>.
\<close>

definition getGpsxy :: "'d fpops \<Rightarrow> 'd CXArray \<Rightarrow> 'd CPOI \<Rightarrow> 32 word \<Rightarrow> 'd CPOI option res" where
  "getGpsxy fp a baiduxy key =
     (let i = unat (key - off_x (arraylng a 0)) in
      rbind (rd ARRAY_COUNT (arraylng a) i) (\<lambda>e.
        if key = off_x e then Inr (Some (apply_offset fp baiduxy e))
        else Inr (map_option (\<lambda>i. apply_offset fp baiduxy (arraylng a i)) (scan_fwd (arraylng a) key 0))))"

section \<open>Abstraction\<close>

definition ent :: "'d Coffsetdata \<Rightarrow> 32 word \<times> 'd \<times> 'd" where
  "ent e = (off_x e, off_dx e, off_dy e)"

definition entries :: "'d CXArray \<Rightarrow> (32 word \<times> 'd \<times> 'd) list" where
  "entries a = map (\<lambda>i. ent (arraylng a i)) [0..<index a]"

definition arr_keys :: "'d CXArray \<Rightarrow> 32 word list" where
  "arr_keys a = map (\<lambda>i. off_x (arraylng a i)) [0..<index a]"

text \<open>Well-formed: within capacity, strictly increasing keys, zeroed slots after the last entry.\<close>

definition arr_wf :: "'d fpops \<Rightarrow> 'd CXArray \<Rightarrow> bool" where
  "arr_wf fp a \<longleftrightarrow> index a \<le> ARRAY_COUNT \<and> sorted_wrt (<) (arr_keys a)
     \<and> (\<forall>i. index a \<le> i \<longrightarrow> arraylng a i = zero_entry fp)"

section \<open>Basic lemmas\<close>

lemma length_entries [simp]: "length (entries a) = index a"
  by (simp add: entries_def)

lemma length_arr_keys [simp]: "length (arr_keys a) = index a"
  by (simp add: arr_keys_def)

lemma arr_keys_entries: "arr_keys a = map fst (entries a)"
  by (simp add: arr_keys_def entries_def ent_def)

lemma nth_arr_keys [simp]: "i < index a \<Longrightarrow> arr_keys a ! i = off_x (arraylng a i)"
  by (simp add: arr_keys_def)

lemma nth_entries [simp]: "i < index a \<Longrightarrow> entries a ! i = ent (arraylng a i)"
  by (simp add: entries_def)

lemma arr_keys_less:
  "sorted_wrt (<) (arr_keys a) \<Longrightarrow> i < j \<Longrightarrow> j < index a \<Longrightarrow> off_x (arraylng a i) < off_x (arraylng a j)"
  using sorted_wrt_nth_less [of "(<)" "arr_keys a" i j] by simp

lemma arr_wf_new [simp]: "arr_wf fp (new_CXArray fp)"
  by (simp add: arr_wf_def new_CXArray_def arr_keys_def)

lemma entries_new [simp]: "entries (new_CXArray fp) = []"
  by (simp add: entries_def new_CXArray_def)

lemma index_new [simp]: "index (new_CXArray fp) = 0"
  by (simp add: new_CXArray_def)

lemma entries_arr_cong:
  "(\<And>i. i < n \<Longrightarrow> arr i = arr' i) \<Longrightarrow>
   entries (a\<lparr>arraylng := arr, index := n\<rparr>) = entries (a\<lparr>arraylng := arr', index := n\<rparr>)"
  by (simp add: entries_def)

lemma scan_back_spec:
  assumes "t0 < ARRAY_COUNT"
  shows "\<exists>t\<le>t0. scan_back arr x t0 = Inr t \<and> (\<forall>i. t < i \<and> i \<le> t0 \<longrightarrow> x < off_x (arr i))
           \<and> (t = 0 \<or> off_x (arr t) \<le> x)"
  using assms
proof (induction t0)
  case 0
  then show ?case by simp
next
  case (Suc t0)
  then obtain t where t: "t \<le> t0" "scan_back arr x t0 = Inr t"
    "\<forall>i. t < i \<and> i \<le> t0 \<longrightarrow> x < off_x (arr i)" "t = 0 \<or> off_x (arr t) \<le> x"
    by auto
  show ?case
  proof (cases "x < off_x (arr (Suc t0))")
    case True
    with t Suc.prems show ?thesis by (intro exI [of _ t]) (auto simp: le_Suc_eq)
  next
    case False
    with Suc.prems show ?thesis by (intro exI [of _ "Suc t0"]) auto
  qed
qed

section \<open>What append does\<close>

lemma append_first:
  "index a = 0 \<Longrightarrow> append_entry mode a x dx dy =
     Inr (put_entry a (arraylng a) 0 \<lparr>off_x = x, off_dx = dx, off_dy = dy\<rparr>)"
  by (simp add: append_entry_def)

lemma entries_put_end:
  "entries (put_entry a (arraylng a) (index a) e) = entries a @ [ent e]"
  by (simp add: entries_def put_entry_def)

text \<open>In key order nothing moves: the entry goes to the end, whatever \<open>memcpy\<close> does on overlap.\<close>

lemma append_in_order:
  assumes "index a < ARRAY_COUNT" and "\<forall>k\<in>set (arr_keys a). k \<le> x"
  shows "append_entry mode a x dx dy =
     Inr (put_entry a (arraylng a) (index a) \<lparr>off_x = x, off_dx = dx, off_dy = dy\<rparr>)"
proof (cases "index a")
  case 0
  then show ?thesis by (simp add: append_first)
next
  case (Suc n)
  have le: "off_x (arraylng a i) \<le> x" if "i \<le> n" for i
    using assms(2) that Suc by (auto simp: arr_keys_def)
  have "scan_back (arraylng a) x n = Inr n"
    using le [of n] assms(1) Suc by (cases n) auto
  moreover have "\<not> x < off_x (arraylng a 0)" using le [of 0] by (simp add: not_less)
  ultimately show ?thesis using Suc assms(1) by (simp add: append_entry_def Let_def)
qed

text \<open>Between two entries: with a copy that moves the block, the list insertion.\<close>

lemma entries_insert_at:
  assumes "t < index a" and "index a < ARRAY_COUNT"
  shows "entries (put_entry a (moved (arraylng a) (t + 2) (t + 1) (index a - t - 1)) (t + 1) e)
     = take (t + 1) (entries a) @ ent e # drop (t + 1) (entries a)"
  (is "entries ?b = ?r")
proof (rule nth_equalityI)
  show "length (entries ?b) = length ?r" using assms by (simp add: put_entry_def)
  fix i
  assume "i < length (entries ?b)"
  then have i: "i < Suc (index a)" by (simp add: put_entry_def)
  have rhs: "?r ! i = (if i < t + 1 then ent (arraylng a i) else if i = t + 1 then ent e
      else ent (arraylng a (i - 1)))"
    using assms i
    by (auto simp: nth_append nth_Cons' intro!: arg_cong [where f = "\<lambda>i. ent (arraylng a i)"])
  show "entries ?b ! i = ?r ! i"
    unfolding rhs using i assms
    by (auto simp: entries_def put_entry_def moved_def nth_append less_Suc_eq
        intro!: arg_cong [where f = "\<lambda>i. ent (arraylng a i)"])
qed

lemma scan_back_position:
  assumes n: "index a \<le> ARRAY_COUNT" and t: "t < index a" and le: "off_x (arraylng a t) \<le> x"
    and above: "\<And>i. t < i \<Longrightarrow> i < index a \<Longrightarrow> x < off_x (arraylng a i)"
  shows "scan_back (arraylng a) x (index a - 1) = Inr t"
proof -
  have "index a - 1 < ARRAY_COUNT" using n t by simp
  from scan_back_spec [OF this] obtain t' where t': "t' \<le> index a - 1"
    "scan_back (arraylng a) x (index a - 1) = Inr t'"
    "\<forall>i. t' < i \<and> i \<le> index a - 1 \<longrightarrow> x < off_x (arraylng a i)"
    "t' = 0 \<or> off_x (arraylng a t') \<le> x"
    by blast
  have "t' = t"
  proof (rule antisym)
    show "t' \<le> t" using t'(1,4) above [of t'] t by (cases "t' \<le> t") (auto simp: not_less [symmetric])
    have "t \<le> index a - 1" using t by simp
    then show "t \<le> t'" using t'(3) le by (metis not_less)
  qed
  with t'(2) show ?thesis by simp
qed

text \<open>The copy for an insertion in the middle moves its block when it copies downwards, or when the block is a single entry.\<close>

lemma memcpy_middle:
  assumes "n < ARRAY_COUNT" and "t + 1 < n" and "mode = CopyBackward \<or> n \<le> t + 2"
  shows "memcpy mode ARRAY_COUNT arr (t + 2) (t + 1) (n - t - 1) = Inr (moved arr (t + 2) (t + 1) (n - t - 1))"
proof (cases "mode = CopyBackward")
  case True
  then show ?thesis using assms by (simp add: memcpy_backward_up)
next
  case False
  then have "n - t - 1 = 1" using assms by simp
  then show ?thesis using assms(1,2)
    by (cases mode) (auto simp: memcpy_def overlap_def copy_up_moved copy_down_moved simp del: copy_up.simps copy_down.simps)
qed

lemma append_between:
  assumes wf: "sorted_wrt (<) (arr_keys a)" and n: "index a < ARRAY_COUNT"
    and t: "t + 1 < index a" and lo: "off_x (arraylng a t) < x" and hi: "x < off_x (arraylng a (t + 1))"
  shows "append_entry mode a x dx dy =
     rbind (memcpy mode ARRAY_COUNT (arraylng a) (t + 2) (t + 1) (index a - t - 1))
       (\<lambda>arr'. Inr (put_entry a arr' (t + 1) \<lparr>off_x = x, off_dx = dx, off_dy = dy\<rparr>))"
proof -
  have above: "x < off_x (arraylng a i)" if "t < i" "i < index a" for i
    using arr_keys_less [OF wf, of "t + 1" i] hi that by (cases "i = t + 1") auto
  have below: "off_x (arraylng a i) < x" if "i \<le> t" for i
    using arr_keys_less [OF wf, of i t] lo that t by (cases "i = t") auto
  have "scan_back (arraylng a) x (index a - 1) = Inr t"
    by (rule scan_back_position) (use n t lo above in \<open>auto intro: less_imp_le\<close>)
  moreover have "\<not> x < off_x (arraylng a 0)" using below [of 0] by (auto dest: less_asym)
  moreover have "off_x (arraylng a t) \<noteq> x" using lo by auto
  ultimately show ?thesis using t n by (simp add: append_entry_def Let_def)
qed

lemma append_present:
  assumes wf: "sorted_wrt (<) (arr_keys a)" and n: "index a \<le> ARRAY_COUNT"
    and t: "t + 1 < index a" and x: "off_x (arraylng a t) = x"
  shows "append_entry mode a x dx dy = Inr a"
proof -
  have above: "x < off_x (arraylng a i)" if "t < i" "i < index a" for i
    using arr_keys_less [OF wf, of t i] x that by auto
  have "scan_back (arraylng a) x (index a - 1) = Inr t"
    by (rule scan_back_position) (use n t x above in auto)
  moreover have "\<not> (t = 0 \<and> x < off_x (arraylng a 0))" using x by auto
  ultimately show ?thesis using t n x by (auto simp: append_entry_def Let_def)
qed

lemma arr_wf_put:
  assumes "arr_wf fp a" and "entries b = ins_new x v (entries a)" and "index b = Suc (index a)"
    and "index a < ARRAY_COUNT" and "\<And>i. index a < i \<Longrightarrow> arraylng b i = arraylng a i"
  shows "arr_wf fp b"
proof -
  have "sorted_wrt (<) (map fst (entries a))" using assms(1) by (simp add: arr_wf_def arr_keys_entries)
  then have "sorted_wrt (<) (arr_keys b)" using sorted_ins_new assms(2) by (metis arr_keys_entries)
  with assms show ?thesis by (auto simp: arr_wf_def)
qed

lemma sorted_key_position:
  assumes "sorted_wrt (<) (arr_keys a)" and "index a \<noteq> 0" and "off_x (arraylng a 0) \<le> x"
  shows "\<exists>t<index a. off_x (arraylng a t) \<le> x \<and> (\<forall>i. t < i \<and> i < index a \<longrightarrow> x < off_x (arraylng a i))"
proof -
  define P where "P = (\<lambda>t. t < index a \<and> off_x (arraylng a t) \<le> x)"
  define t where "t = (GREATEST t. P t)"
  have bound: "u \<le> index a" if "P u" for u using that by (simp add: P_def)
  have "P 0" using assms by (simp add: P_def)
  then have "P t" unfolding t_def by (rule GreatestI_nat) (rule bound)
  moreover have "u \<le> t" if "P u" for u
    unfolding t_def using that by (rule Greatest_le_nat) (rule bound)
  ultimately show ?thesis by (auto simp: P_def not_less [symmetric])
qed

text \<open>The place found, the entry is inserted there, at the end or between two entries.\<close>

lemma append_at_position:
  assumes wf: "arr_wf fp a" and room: "index a < ARRAY_COUNT" and t: "t < index a"
    and lt: "off_x (arraylng a t) < x" and above: "\<forall>i. t < i \<and> i < index a \<longrightarrow> x < off_x (arraylng a i)"
    and mode: "mode = CopyBackward \<or> index a \<le> t + 2"
  shows "\<exists>a'. append_entry mode a x dx dy = Inr a'
           \<and> entries a' = ins_new x (dx, dy) (entries a) \<and> arr_wf fp a'"
proof -
  let ?e = "\<lparr>off_x = x, off_dx = dx, off_dy = dy\<rparr>"
  let ?b = "put_entry a (moved (arraylng a) (t + 2) (t + 1) (index a - t - 1)) (t + 1) ?e"
  have sorted: "sorted_wrt (<) (arr_keys a)" using wf by (simp add: arr_wf_def)
  have below: "off_x (arraylng a i) < x" if "i \<le> t" for i
    using arr_keys_less [OF sorted, of i t] t lt that by (cases "i = t") auto
  have app: "append_entry mode a x dx dy = Inr ?b"
  proof (cases "t + 1 < index a")
    case True
    then have "x < off_x (arraylng a (t + 1))" using above by simp
    then show ?thesis by (simp only: append_between [OF sorted room True lt] memcpy_middle [OF room True mode] rbind.simps)
  next
    case False
    then have n: "index a = t + 1" using t by simp
    then have "\<forall>k\<in>set (arr_keys a). k \<le> x"
      using below by (auto simp: arr_keys_def less_Suc_eq_le intro: less_imp_le)
    with n show ?thesis using append_in_order [OF room, of x mode dx dy] by simp
  qed
  have split: "ins_new x (dx, dy) (take (t + 1) (entries a) @ drop (t + 1) (entries a))
      = take (t + 1) (entries a) @ (x, dx, dy) # drop (t + 1) (entries a)"
  proof (rule ins_new_split)
    show "\<forall>e\<in>set (take (t + 1) (entries a)). fst e < x"
      using below t by (auto simp: entries_def ent_def take_map less_Suc_eq_le)
    show "\<forall>e\<in>set (drop (t + 1) (entries a)). x < fst e"
      using above by (auto simp: entries_def ent_def drop_map)
  qed
  have e: "entries ?b = ins_new x (dx, dy) (entries a)"
    using entries_insert_at [OF t room, of ?e] split by (simp add: ent_def)
  have "arr_wf fp ?b"
    by (rule arr_wf_put [OF wf e]) (use t room in \<open>auto simp: put_entry_def moved_def\<close>)
  with app e show ?thesis by blast
qed

lemma append_empty:
  assumes "arr_wf fp a" and "index a = 0"
  shows "\<exists>a'. append_entry mode a x dx dy = Inr a' \<and> entries a' = ins_new x (dx, dy) (entries a) \<and> arr_wf fp a'"
proof -
  let ?b = "put_entry a (arraylng a) 0 \<lparr>off_x = x, off_dx = dx, off_dy = dy\<rparr>"
  have e: "entries ?b = ins_new x (dx, dy) (entries a)"
    using assms(2) by (simp add: entries_def put_entry_def ent_def)
  have "arr_wf fp ?b"
    by (rule arr_wf_put [OF assms(1) e]) (use assms(2) in \<open>auto simp: put_entry_def\<close>)
  with e assms(2) show ?thesis by (auto simp: append_first)
qed

lemma keys_above:
  assumes "t < index a" and "off_x (arraylng a t) \<le> x" and "\<forall>i. t < i \<and> i < index a \<longrightarrow> x < off_x (arraylng a i)"
    and sorted: "sorted_wrt (<) (arr_keys a)"
  shows "length (filter (\<lambda>k. x < k) (arr_keys a)) = index a - t - 1"
proof -
  have "off_x (arraylng a i) \<le> x" if "i \<le> t" for i
    using arr_keys_less [OF sorted, of i t] assms(1,2) that by (cases "i = t") (auto intro: less_imp_le order_trans)
  then have "filter (\<lambda>k. x < k) (take (t + 1) (arr_keys a)) = []"
    by (auto simp: filter_empty_conv in_set_conv_nth not_less less_Suc_eq_le)
  moreover have "filter (\<lambda>k. x < k) (drop (t + 1) (arr_keys a)) = drop (t + 1) (arr_keys a)"
    using assms(3) by (auto simp: filter_id_conv in_set_conv_nth)
  ultimately have "filter (\<lambda>k. x < k) (take (t + 1) (arr_keys a) @ drop (t + 1) (arr_keys a)) = drop (t + 1) (arr_keys a)"
    by (simp only: filter_append append_Nil)
  then show ?thesis by simp
qed

text \<open>
  C3. Insertion against the sorted association list: in a well-formed table with room, a key that is not below the first one and
  not equal to the last one is inserted at its place with its offsets, or the table is left alone when the key is there, and the
  table stays well-formed. This needs nothing of \<open>memcpy\<close> when the key is stored already or at most one stored key is above it, as
  when rows come in order. With two or more keys above it the block moved overlaps its new place: by the standard the
  behaviour is undefined, and the insertion is right on a platform whose \<open>memcpy\<close> copies downwards, which none documents.
\<close>

theorem append_refines_insert:
  assumes wf: "arr_wf fp a" and room: "index a < ARRAY_COUNT"
    and first: "arr_keys a \<noteq> [] \<longrightarrow> hd (arr_keys a) \<le> x \<and> x \<noteq> last (arr_keys a)"
  shows "(mode = CopyBackward \<or> x \<in> set (arr_keys a) \<or> length (filter (\<lambda>k. x < k) (arr_keys a)) \<le> 1 \<longrightarrow>
       (\<exists>a'. append_entry mode a x dx dy = Inr a' \<and> entries a' = ins_new x (dx, dy) (entries a) \<and> arr_wf fp a'))
     \<and> (mode = CopyStrict \<and> x \<notin> set (arr_keys a) \<and> 2 \<le> length (filter (\<lambda>k. x < k) (arr_keys a)) \<longrightarrow>
       append_entry mode a x dx dy = Inl Overlap)"
proof (cases "index a = 0")
  case True
  then have "arr_keys a = []" by (simp flip: length_0_conv)
  then show ?thesis using append_empty [OF wf True] by simp
next
  case False
  have sorted: "sorted_wrt (<) (arr_keys a)" using wf by (simp add: arr_wf_def)
  have ne: "arr_keys a \<noteq> []" using False by (simp flip: length_0_conv)
  have hd: "off_x (arraylng a 0) \<le> x" and last: "x \<noteq> off_x (arraylng a (index a - 1))"
    using first ne False by (auto simp: hd_conv_nth last_conv_nth)
  obtain t where t: "t < index a" "off_x (arraylng a t) \<le> x"
    "\<forall>i. t < i \<and> i < index a \<longrightarrow> x < off_x (arraylng a i)"
    using sorted_key_position [OF sorted False hd] by blast
  have above: "length (filter (\<lambda>k. x < k) (arr_keys a)) = index a - t - 1" by (rule keys_above [OF t sorted])
  show ?thesis
  proof (cases "off_x (arraylng a t) = x")
    case True
    then have "t \<noteq> index a - 1" using last by auto
    then have "append_entry mode a x dx dy = Inr a"
      using append_present [OF sorted _ _ True] room t(1) by simp
    moreover have "ins_new x (dx, dy) (entries a) = entries a"
      by (rule ins_new_present) (use sorted t(1) True in
        \<open>auto simp: arr_keys_entries entries_def ent_def image_iff\<close>)
    moreover have "x \<in> set (arr_keys a)" using t(1) True by (auto simp: arr_keys_def)
    ultimately show ?thesis using wf by simp
  next
    case False
    with t(2) have lt: "off_x (arraylng a t) < x" by simp
    have "x \<notin> set (arr_keys a)"
    proof
      assume "x \<in> set (arr_keys a)"
      then obtain i where i: "i < index a" "off_x (arraylng a i) = x" by (auto simp: arr_keys_def)
      then have "i < t" using t(3) False by (metis less_irrefl linorder_neqE_nat)
      then show False using arr_keys_less [OF sorted, of i t] t(1) i lt by auto
    qed
    moreover have "append_entry mode a x dx dy = Inl Overlap" if "mode = CopyStrict" "2 \<le> index a - t - 1"
      using append_between [OF sorted room _ lt, of mode dx dy] that t(3) room
      by (simp add: memcpy_def overlap_def)
    moreover have "index a - t - 1 \<le> 1 \<longleftrightarrow> index a \<le> t + 2" by arith
    ultimately show ?thesis using append_at_position [OF wf room t(1) lt t(3), of mode dx dy] unfolding above by blast
  qed
qed

definition sample_array :: "int CXArray" where
  "sample_array = \<lparr>arraylng = (\<lambda>i. if i = 0 then \<lparr>off_x = 10, off_dx = 1, off_dy = 2\<rparr>
     else if i = 1 then \<lparr>off_x = 30, off_dx = 3, off_dy = 4\<rparr> else zero_entry int_fp), index = 2\<rparr>"

lemma sample_array_wf: "arr_wf int_fp sample_array"
  by (simp add: arr_wf_def sample_array_def arr_keys_def upt_rec)

lemma sample_array_facts [simp]:
  "index sample_array = 2" "arr_keys sample_array = [10, 30]"
  "entries sample_array = [(10, 1, 2), (30, 3, 4)]"
  by (simp_all add: sample_array_def arr_keys_def entries_def ent_def upt_rec)

theorem append_refines_insert_witness:
  "\<exists>a'. append_entry CopyStrict sample_array 20 5 6 = Inr a'
     \<and> entries a' = [(10, 1, 2), (20, 5, 6), (30, 3, 4)] \<and> arr_wf int_fp a'"
  using append_refines_insert [OF sample_array_wf, of 20 CopyStrict 5 6] by simp



text \<open>
  A full table: a key not below the last one is dropped and nothing else changes, but a
  new key between two entries is written outside the array.
\<close>

theorem append_full:
  assumes sorted: "sorted_wrt (<) (arr_keys a)" and n: "index a = ARRAY_COUNT"
  shows "(last (arr_keys a) \<le> x \<longrightarrow> append_entry mode a x dx dy = Inr a)
    \<and> (hd (arr_keys a) \<le> x \<and> x < last (arr_keys a) \<and> x \<notin> set (arr_keys a)
        \<longrightarrow> append_entry mode a x dx dy = Inl OutOfBounds)"
proof (intro conjI impI)
  have ends: "hd (arr_keys a) = off_x (arraylng a 0)" "last (arr_keys a) = off_x (arraylng a 6599)"
    using n length_arr_keys [of a]
    by (simp_all add: hd_conv_nth last_conv_nth flip: length_greater_0_conv del: length_arr_keys)
  {
    assume "last (arr_keys a) \<le> x"
    then have x: "off_x (arraylng a 6599) \<le> x" using ends by simp
    have "scan_back (arraylng a) x (index a - 1) = Inr (6599 :: nat)"
      by (rule scan_back_position) (use n x in auto)
    then show "append_entry mode a x dx dy = Inr a" using n by (simp add: append_entry_def Let_def)
  next
    assume "hd (arr_keys a) \<le> x \<and> x < last (arr_keys a) \<and> x \<notin> set (arr_keys a)"
    then have hd: "off_x (arraylng a 0) \<le> x" and last: "x < off_x (arraylng a 6599)"
      and new: "\<And>i. i < 6600 \<Longrightarrow> off_x (arraylng a i) \<noteq> x"
      using ends n by (auto simp: arr_keys_def)
    obtain t where t: "t < index a" "off_x (arraylng a t) \<le> x"
      "\<forall>i. t < i \<and> i < index a \<longrightarrow> x < off_x (arraylng a i)"
      using sorted_key_position [OF sorted _ hd] n by auto
    have "scan_back (arraylng a) x (index a - 1) = Inr t"
      by (rule scan_back_position) (use n t in auto)
    moreover have "t \<noteq> 6599" using t(2) last by auto
    moreover have "\<not> x < off_x (arraylng a 0)" using hd by (simp add: not_less)
    moreover have "memcpy mode ARRAY_COUNT (arraylng a) (t + 2) (t + 1) (6600 - t - 1) = Inl OutOfBounds"
      using t(1) n by (simp add: memcpy_def)
    ultimately show "append_entry mode a x dx dy = Inl OutOfBounds"
      using n t(1) new [of t] by (simp add: append_entry_def Let_def)
  }
qed

text \<open>A full table with the even keys, for evaluation.\<close>

definition full_array :: "int CXArray" where
  "full_array = \<lparr>arraylng = (\<lambda>i. \<lparr>off_x = of_nat (2 * i), off_dx = 1, off_dy = 2\<rparr>), index = 6600\<rparr>"

lemma unat_even_key: "i < 6600 \<Longrightarrow> unat (of_nat (2 * i) :: 32 word) = 2 * i"
  by (simp only: unat_of_nat) simp

lemma full_array_key_less:
  "i < j \<Longrightarrow> j < 6600 \<Longrightarrow> (of_nat (2 * i) :: 32 word) < of_nat (2 * j)"
  by (simp only: word_less_nat_alt unat_even_key)

lemma full_array_sorted: "sorted_wrt (<) (arr_keys full_array)"
  unfolding sorted_wrt_iff_nth_less
  using full_array_key_less by (simp add: full_array_def arr_keys_def)

lemma full_array_ends:
  "hd (arr_keys full_array) = 0" "last (arr_keys full_array) = 13198" "13 \<notin> set (arr_keys full_array)"
proof -
  have n: "length (arr_keys full_array) = 6600" by (simp add: full_array_def)
  then have "arr_keys full_array \<noteq> []" by (metis list.size(3) zero_neq_numeral)
  with n show "hd (arr_keys full_array) = 0" "last (arr_keys full_array) = 13198"
    by (simp_all add: hd_conv_nth last_conv_nth full_array_def)
  show "13 \<notin> set (arr_keys full_array)"
  proof
    assume "13 \<in> set (arr_keys full_array)"
    then obtain i where "i < 6600" "(13 :: 32 word) = of_nat (2 * i)"
      by (auto simp: full_array_def arr_keys_def)
    then have "unat (13 :: 32 word) = 2 * i" by (simp only: unat_even_key)
    then show False by simp presburger
  qed
qed

theorem append_full_witness:
  "append_entry CopyBackward full_array 20000 5 6 = Inr full_array
   \<and> append_entry CopyBackward full_array 13 5 6 = Inl OutOfBounds"
proof -
  have "index full_array = ARRAY_COUNT" by (simp add: full_array_def)
  note f = append_full [OF full_array_sorted this]
  show ?thesis
    using f [of 20000 CopyBackward 5 6] f [of 13 CopyBackward 5 6] full_array_ends by simp
qed

section \<open>What getGpsxy does\<close>

lemma scan_fwd_Some:
  "scan_fwd arr key i = Some k \<Longrightarrow> i \<le> k \<and> k < ARRAY_COUNT \<and> key = off_x (arr k)"
proof (induction arr key i rule: scan_fwd.induct)
  case (1 arr key i)
  then show ?case by (subst (asm) (2) scan_fwd.simps) (auto split: if_splits)
qed

lemma scan_fwd_None:
  "scan_fwd arr key i = None \<longleftrightarrow> (\<forall>k. i \<le> k \<and> k < ARRAY_COUNT \<longrightarrow> key \<noteq> off_x (arr k))"
proof (induction arr key i rule: scan_fwd.induct)
  case (1 arr key i)
  show ?case
  proof (cases "i < ARRAY_COUNT \<and> key \<noteq> off_x (arr i)")
    case True
    have "scan_fwd arr key i = None \<longleftrightarrow> (\<forall>k. Suc i \<le> k \<and> k < ARRAY_COUNT \<longrightarrow> key \<noteq> off_x (arr k))"
      using True "1.IH" by (subst scan_fwd.simps) simp
    also have "\<dots> \<longleftrightarrow> (\<forall>k. i \<le> k \<and> k < ARRAY_COUNT \<longrightarrow> key \<noteq> off_x (arr k))"
      using True by (metis Suc_leD Suc_leI le_neq_implies_less)
    finally show ?thesis .
  next
    case False
    then show ?thesis by (subst scan_fwd.simps) (metis less_le_trans not_less option.distinct(1) order_refl)
  qed
qed

lemma map_of_entries:
  assumes "sorted_wrt (<) (arr_keys a)" and "i < index a" and "off_x (arraylng a i) = key"
  shows "map_of (entries a) key = Some (off_dx (arraylng a i), off_dy (arraylng a i))"
proof -
  have "distinct (map fst (entries a))"
    using assms(1) by (simp add: arr_keys_entries strict_sorted_iff)
  moreover have "(key, off_dx (arraylng a i), off_dy (arraylng a i)) \<in> set (entries a)"
    using assms(2,3) by (auto simp: entries_def ent_def)
  ultimately show ?thesis by simp
qed

lemma map_of_entries_None: "key \<notin> set (arr_keys a) \<Longrightarrow> map_of (entries a) key = None"
  by (simp add: map_of_eq_None_iff arr_keys_entries)

text \<open>A slot that holds a key other than zero is one of the counted entries.\<close>

lemma key_slot_counted:
  assumes "arr_wf fp a" and "off_x (arraylng a k) = key" and "key \<noteq> 0"
  shows "k < index a"
proof (rule ccontr)
  assume "\<not> k < index a"
  then have "arraylng a k = zero_entry fp" using assms(1) by (simp add: arr_wf_def)
  with assms(2,3) show False by (simp add: zero_entry_def)
qed

lemma getGpsxy_lookup:
  assumes wf: "arr_wf fp a" and ne: "arr_keys a \<noteq> []"
    and near: "unat (key - hd (arr_keys a)) < ARRAY_COUNT"
    and key: "key \<noteq> 0 \<or> key \<in> set (arr_keys a)"
  shows "getGpsxy fp a p key = Inr (map_option
           (\<lambda>(dx, dy). \<lparr>poi_dx = fp_sub fp (poi_dx p) dx, poi_dy = fp_sub fp (poi_dy p) dy\<rparr>)
           (map_of (entries a) key))"
proof -
  let ?arr = "arraylng a" and ?i = "unat (key - off_x (arraylng a 0))"
  have n: "0 < index a" using ne by (metis length_arr_keys length_greater_0_conv)
  have i: "?i < ARRAY_COUNT" using near n ne by (simp add: hd_conv_nth)
  have sorted: "sorted_wrt (<) (arr_keys a)" using wf by (simp add: arr_wf_def)
  have hit: "map_of (entries a) key = Some (off_dx (?arr k), off_dy (?arr k))"
    if "off_x (?arr k) = key" "k < ARRAY_COUNT" "key \<noteq> 0 \<or> k < index a" for k
    using map_of_entries [OF sorted _ that(1)] key_slot_counted [OF wf that(1)] that(3) by blast
  have zero: "off_x (?arr 0) = 0" if "key = 0"
  proof -
    from key that obtain k where "k < index a" "off_x (?arr k) = 0" by (auto simp: arr_keys_def)
    then show ?thesis using arr_keys_less [OF sorted, of 0 k] by (cases "k = 0") auto
  qed
  consider (probe) "key = off_x (?arr ?i)" | (found) k where "key \<noteq> off_x (?arr ?i)" "scan_fwd ?arr key 0 = Some k"
    | (missing) "key \<noteq> off_x (?arr ?i)" "scan_fwd ?arr key 0 = None"
    by fastforce
  then show ?thesis
  proof cases
    case probe
    then have "map_of (entries a) key = Some (off_dx (?arr ?i), off_dy (?arr ?i))"
      using hit [of ?i] i n zero by fastforce
    with probe i show ?thesis by (simp add: getGpsxy_def Let_def apply_offset_def)
  next
    case found
    then have "key \<noteq> 0" using zero by auto
    with found hit [of k] scan_fwd_Some [OF found(2)] i show ?thesis
      by (simp add: getGpsxy_def Let_def apply_offset_def)
  next
    case missing
    have "index a \<le> ARRAY_COUNT" using wf by (simp add: arr_wf_def)
    then have "\<forall>k<index a. key \<noteq> off_x (?arr k)" using missing(2) by (simp add: scan_fwd_None)
    then have "key \<notin> set (arr_keys a)" by (simp add: arr_keys_def image_iff)
    with missing i show ?thesis by (simp add: getGpsxy_def Let_def map_of_entries_None)
  qed
qed

text \<open>
  C7. In a table that is not empty, for a key that is not below the first key and less than \<open>ARRAY_COUNT\<close> above it, and that is
  stored or not zero, the lookup, with its probe at the distance from the first key and its linear search
  after a miss, returns the point corrected by the stored offsets of exactly that key, and
  an indeterminate point when the key is not stored.
\<close>

theorem getGpsxy_reference:
  assumes wf: "arr_wf fp a" and ne: "arr_keys a \<noteq> []"
    and near: "unat (key - hd (arr_keys a)) < ARRAY_COUNT"
    and key: "key \<noteq> 0 \<or> key \<in> set (arr_keys a)"
  shows "getGpsxy fp a p key = Inr (map_option
           (\<lambda>(dx, dy). \<lparr>poi_dx = fp_sub fp (poi_dx p) dx, poi_dy = fp_sub fp (poi_dy p) dy\<rparr>)
           (map_of (entries a) key))"
  using assms by (rule getGpsxy_lookup)

theorem getGpsxy_reference_witness:
  "getGpsxy int_fp sample_array \<lparr>poi_dx = 100, poi_dy = 200\<rparr> 30 = Inr (Some \<lparr>poi_dx = 97, poi_dy = 196\<rparr>)
   \<and> getGpsxy int_fp sample_array \<lparr>poi_dx = 100, poi_dy = 200\<rparr> 11 = Inr None"
  using getGpsxy_reference [OF sample_array_wf, of 30 "\<lparr>poi_dx = 100, poi_dy = 200\<rparr>"]
    getGpsxy_reference [OF sample_array_wf, of 11 "\<lparr>poi_dx = 100, poi_dy = 200\<rparr>"]
  by simp

text \<open>
  C28. The probe is not checked against the array: a key below the first one, or at least
  \<open>ARRAY_COUNT\<close> above it, is read outside the array.
\<close>

theorem getGpsxy_probe_out_of_bounds:
  assumes ne: "arr_keys a \<noteq> []" and small: "unat (hd (arr_keys a)) < 2 ^ 31"
    and far: "key < hd (arr_keys a) \<or> unat (hd (arr_keys a)) + ARRAY_COUNT \<le> unat key"
  shows "getGpsxy fp a p key = Inl OutOfBounds"
proof -
  let ?x = "off_x (arraylng a 0)"
  have n: "0 < index a" using ne by (metis length_arr_keys length_greater_0_conv)
  then have hd: "hd (arr_keys a) = ?x" using ne by (simp add: hd_conv_nth)
  have "ARRAY_COUNT \<le> unat (key - ?x)"
  proof (cases "key < ?x")
    case True
    then have "unat (key - ?x) = 2 ^ 32 + unat key - unat ?x"
      by (simp add: unat_sub_if' word_less_nat_alt)
    with small hd show ?thesis by simp
  next
    case False
    then have "?x \<le> key" by simp
    then have "unat (key - ?x) = unat key - unat ?x" by (simp add: unat_sub word_le_nat_alt)
    with far hd False show ?thesis by simp
  qed
  then show ?thesis by (simp add: getGpsxy_def Let_def rd_def)
qed

theorem getGpsxy_probe_out_of_bounds_witness:
  "getGpsxy int_fp sample_array \<lparr>poi_dx = 100, poi_dy = 200\<rparr> 9 = Inl OutOfBounds"
  using getGpsxy_probe_out_of_bounds [of sample_array 9 int_fp "\<lparr>poi_dx = 100, poi_dy = 200\<rparr>"] by simp

section \<open>The interface the loader and the correction use\<close>

text \<open>
  What the database loader relies on: keys that arrive in increasing order are added
  without a fault while there is room, and afterwards each is found with its value.
\<close>

locale offset_store =
  fixes empty :: 's
    and add :: "'s \<Rightarrow> 32 word \<Rightarrow> 'v \<Rightarrow> 's res"
    and find :: "'s \<Rightarrow> 32 word \<Rightarrow> 'v option"
    and count :: "'s \<Rightarrow> nat"
    and keys_below :: "'s \<Rightarrow> 32 word \<Rightarrow> bool"
    and invar :: "'s \<Rightarrow> bool"
  assumes invar_empty: "invar empty"
    and find_empty: "find empty = (\<lambda>_. None)"
    and count_empty: "count empty = 0"
    and below_empty: "keys_below empty k"
    and add_in_order: "invar s \<Longrightarrow> count s < ARRAY_COUNT \<Longrightarrow> keys_below s k \<Longrightarrow>
      \<exists>s'. add s k v = Inr s' \<and> invar s' \<and> find s' = (find s)(k \<mapsto> v) \<and> count s' = Suc (count s)
        \<and> (\<forall>k'. k < k' \<longrightarrow> keys_below s' k')"
begin

lemma add_sorted:
  assumes "invar s" and "count s + length kvs \<le> ARRAY_COUNT" and "sorted_wrt (<) (map fst kvs)"
    and "\<forall>kv\<in>set kvs. keys_below s (fst kv)"
  shows "\<exists>s'. run_steps (\<lambda>s kv. add s (fst kv) (snd kv)) s kvs = Inr s' \<and> invar s'
           \<and> find s' = find s ++ map_of kvs \<and> count s' = count s + length kvs"
  using assms
proof (induction kvs arbitrary: s)
  case Nil
  then show ?case by simp
next
  case (Cons kv kvs)
  have room: "count s < ARRAY_COUNT" using Cons.prems(2) by simp
  from Cons.prems have below: "keys_below s (fst kv)" by simp
  from add_in_order [OF Cons.prems(1) room below, of "snd kv"] obtain s1 where s1:
    "add s (fst kv) (snd kv) = Inr s1" "invar s1" "find s1 = (find s)(fst kv \<mapsto> snd kv)"
    "count s1 = Suc (count s)" "\<forall>k'. fst kv < k' \<longrightarrow> keys_below s1 k'"
    by blast
  have "\<exists>s'. run_steps (\<lambda>s kv. add s (fst kv) (snd kv)) s1 kvs = Inr s' \<and> invar s'
      \<and> find s' = find s1 ++ map_of kvs \<and> count s' = count s1 + length kvs"
    by (rule Cons.IH) (use s1(2,4,5) Cons.prems in auto)
  then obtain s' where s': "run_steps (\<lambda>s kv. add s (fst kv) (snd kv)) s1 kvs = Inr s'" "invar s'"
    "find s' = find s1 ++ map_of kvs" "count s' = count s1 + length kvs"
    by blast
  have "fst kv \<notin> dom (map_of kvs)" using Cons.prems(3) by (auto simp: dom_map_of_conv_image_fst)
  then have "find s ++ map_of (kv # kvs) = find s1 ++ map_of kvs"
    using s1(3) by (cases kv) (auto simp: map_add_def fun_eq_iff split: option.splits)
  then have "find s' = find s ++ map_of (kv # kvs)" using s'(3) by (simp only:)
  moreover have "run_steps (\<lambda>s kv. add s (fst kv) (snd kv)) s (kv # kvs) = Inr s'"
    using s1(1) s'(1) by simp
  moreover have "count s' = count s + length (kv # kvs)" using s1(4) s'(4) by simp
  ultimately show ?case using s'(2) by blast
qed

lemma load_sorted:
  assumes "length kvs \<le> ARRAY_COUNT" and "sorted_wrt (<) (map fst kvs)"
  shows "\<exists>s'. run_steps (\<lambda>s kv. add s (fst kv) (snd kv)) empty kvs = Inr s' \<and> invar s' \<and> find s' = map_of kvs"
  using add_sorted [OF invar_empty _ assms(2)] assms(1)
  by (fastforce simp: count_empty below_empty find_empty map_add_def split: option.splits)

end

definition lookup_offset :: "'d CXArray \<Rightarrow> 32 word \<Rightarrow> ('d \<times> 'd) option" where
  "lookup_offset a = map_of (entries a)"

definition all_below :: "'d CXArray \<Rightarrow> 32 word \<Rightarrow> bool" where
  "all_below a k \<longleftrightarrow> (\<forall>k'\<in>set (arr_keys a). k' < k)"

lemma append_in_order_store:
  assumes wf: "arr_wf fp a" and room: "index a < ARRAY_COUNT" and below: "all_below a k"
  shows "\<exists>a'. append_entry mode a k dx dy = Inr a' \<and> arr_wf fp a'
           \<and> entries a' = entries a @ [(k, dx, dy)] \<and> index a' = Suc (index a)"
proof -
  let ?b = "put_entry a (arraylng a) (index a) \<lparr>off_x = k, off_dx = dx, off_dy = dy\<rparr>"
  have le: "\<forall>k'\<in>set (arr_keys a). k' \<le> k"
    using below unfolding all_below_def by (blast intro: less_imp_le)
  have e: "entries ?b = entries a @ [(k, dx, dy)]" by (simp add: entries_put_end ent_def)
  have lt: "\<forall>e\<in>set (entries a). fst e < k" using below by (auto simp: all_below_def arr_keys_entries)
  then have "entries ?b = ins_new k (dx, dy) (entries a)"
    using ins_new_split [of "entries a" k "[]" "(dx, dy)"] e by simp
  then have "arr_wf fp ?b"
    by (rule arr_wf_put [OF wf]) (use room in \<open>auto simp: put_entry_def\<close>)
  with append_in_order [OF room le] e show ?thesis by (simp add: put_entry_def)
qed

interpretation xarray: offset_store "new_CXArray fp" "\<lambda>a k v. append_entry mode a k (fst v) (snd v)"
  lookup_offset index all_below "arr_wf fp" for fp :: "'d fpops" and mode :: copy_sem
proof unfold_locales
  fix a :: "'d CXArray" and k and v :: "'d \<times> 'd"
  assume a: "arr_wf fp a" "index a < ARRAY_COUNT" "all_below a k"
  from append_in_order_store [OF this] obtain a' where a': "append_entry mode a k (fst v) (snd v) = Inr a'"
    "arr_wf fp a'" "entries a' = entries a @ [(k, v)]" "index a' = Suc (index a)"
    by fastforce
  have "k \<notin> set (arr_keys a)" using a(3) by (auto simp: all_below_def)
  then have "lookup_offset a' = (lookup_offset a)(k \<mapsto> v)"
    by (auto simp: lookup_offset_def a'(3) map_of_entries_None map_add_def fun_eq_iff split: option.splits)
  moreover have "\<forall>k'. k < k' \<longrightarrow> all_below a' k'"
    using a(3) by (auto simp: all_below_def arr_keys_entries a'(3) intro: less_trans)
  ultimately show "\<exists>s'. append_entry mode a k (fst v) (snd v) = Inr s' \<and> arr_wf fp s'
      \<and> lookup_offset s' = (lookup_offset a)(k \<mapsto> v) \<and> index s' = Suc (index a)
      \<and> (\<forall>k'. k < k' \<longrightarrow> all_below s' k')"
    using a' by blast
qed (simp_all add: lookup_offset_def all_below_def arr_keys_entries)

text \<open>
  Loading a table in key order, the order the table is kept in, never faults, whatever
  \<open>memcpy\<close> does on overlapping blocks, and afterwards a lookup returns the loaded
  offsets: the array refines a finite map.
\<close>

theorem load_in_order:
  assumes "length kvs \<le> ARRAY_COUNT" and "sorted_wrt (<) (map fst kvs)"
  shows "\<exists>a. run_steps (\<lambda>a kv. append_entry mode a (fst kv) (fst (snd kv)) (snd (snd kv))) (new_CXArray fp) kvs = Inr a
           \<and> arr_wf fp a \<and> map_of (entries a) = map_of kvs"
  using xarray.load_sorted [OF assms] by (simp add: lookup_offset_def)

theorem load_in_order_witness:
  "\<exists>a. run_steps (\<lambda>a kv. append_entry CopyStrict a (fst kv) (fst (snd kv)) (snd (snd kv))) (new_CXArray int_fp)
       [(7200, 1, 2), (7201, 3, 4), (7203, 5, 6)] = Inr a
     \<and> arr_wf int_fp a \<and> map_of (entries a) = map_of [(7200, 1, 2), (7201, 3, 4), (7203, 5, 6)]"
  by (rule load_in_order) simp_all

end
