(* ===== verification/Tools.thy ===== *)
theory Tools
  imports CLib "HOL-Library.List_Lexorder" "HOL-Library.Char_ord"
begin

text \<open>
  The helpers of \<open>tools.cpp\<close> on strings: trimming, the key/value configuration file (read,
  look up, rewrite), the time stamp, the executable's directory, and \<open>chang2uint\<close>, which
  turns a decimal coordinate into the integer key of the correction table.
  A C string is the list of its characters before the terminating NUL.
\<close>

section \<open>Trimming\<close>

text \<open>
  The loop tests \<open>pstr[i]\<close> before \<open>i >= 0\<close>, so on a blank string it reads the byte in
  front of the buffer; that byte is the argument \<open>below\<close>. Erased characters become NUL.
\<close>

function strtrimr_loop :: "char \<Rightarrow> string \<Rightarrow> int \<Rightarrow> string" where
  "strtrimr_loop below pstr i =
     (let c = (if i < 0 then below else pstr ! nat i) in
      if (isspace c \<or> c = CHR 0x0A) \<and> 0 \<le> i then strtrimr_loop below (pstr[nat i := NUL]) (i - 1)
      else pstr)"
  by pat_completeness auto
termination
  by (relation "measure (\<lambda>(b, s, i). nat (i + 1))") auto

declare strtrimr_loop.simps [simp del]

definition strtrimr :: "char \<Rightarrow> string \<Rightarrow> string" where
  "strtrimr below pstr = cstr (strtrimr_loop below pstr (int (length pstr) - 1))"

text \<open>
  \<open>strcpy(pstr, &pstr[i])\<close> copies onto an overlapping place, which C leaves undefined; it is taken to copy its bytes in
  order, which moves the text to the front, as the code expects.
\<close>

function strtriml_loop :: "string \<Rightarrow> nat \<Rightarrow> nat" where
  "strtriml_loop pstr i =
     (if i < length pstr \<and> isspace (pstr ! i) then strtriml_loop pstr (Suc i) else i)"
  by pat_completeness auto
termination
  by (relation "measure (\<lambda>(s, i). length s - i)") auto

declare strtriml_loop.simps [simp del]

definition strtriml :: "string \<Rightarrow> string" where
  "strtriml pstr = (let i = strtriml_loop pstr 0 in if 0 < i then drop i pstr else pstr)"

definition strtrim :: "char \<Rightarrow> string \<Rightarrow> string" where
  "strtrim below pstr = strtriml (strtrimr below pstr)"

section \<open>Configuration files\<close>

type_synonym kvmap = "(string \<times> string) list"

definition get_item_from_line :: "char \<Rightarrow> string \<Rightarrow> kvmap \<Rightarrow> (int \<times> kvmap) res" where
  "get_item_from_line below line kvm =
     (let p = strtrim below line in
      if length p \<le> 0 then Inr (1, kvm)
      else if p ! 0 = CHR ''#'' then Inr (2, kvm)
      else case strchr p (CHR ''='') of
          None \<Rightarrow> Inl NullDeref
        | Some v \<Rightarrow> Inr (0, ins_new (take v p) (drop (Suc v) p) kvm))"

abbreviation LINE_MAX_LEN :: nat where
  "LINE_MAX_LEN \<equiv> 400"

text \<open>\<open>fgets(line, n, fp)\<close>: at most \<open>n - 1\<close> characters, up to and including a newline.\<close>

fun fgets :: "nat \<Rightarrow> string \<Rightarrow> string \<times> string" where
  "fgets (Suc (Suc n)) (c # cs) =
     (if c = CHR 0x0A then ([c], cs) else (let (l, r) = fgets (Suc n) cs in (c # l, r)))"
| "fgets _ cs = ([], cs)"

lemma fgets_shrinks: "fgets n cs = (l, r) \<Longrightarrow> length l + length r = length cs"
  by (induction n cs arbitrary: l r rule: fgets.induct) (auto split: if_splits prod.splits)

lemma fgets_progress: "fgets (Suc (Suc n)) (c # cs) = (l, r) \<Longrightarrow> length r < length (c # cs)"
  using fgets_shrinks [of "Suc n" cs] by (auto split: if_splits prod.splits)

text \<open>The loop of \<open>file_to_items\<close> over what is left of the file; the item's own result is ignored.\<close>

function items_loop :: "char \<Rightarrow> string \<Rightarrow> kvmap \<Rightarrow> kvmap res" where
  "items_loop below content kvm =
     (if content = [] then Inr kvm
      else rbind (get_item_from_line below (cstr (fst (fgets (LINE_MAX_LEN - 1) content))) kvm)
        (\<lambda>r. items_loop below (snd (fgets (LINE_MAX_LEN - 1) content)) (snd r)))"
  by pat_completeness auto
termination
proof (relation "measure (\<lambda>(b, content, kvm). length content)", simp)
  fix below :: char and content :: string and kvm :: kvmap and r :: "int \<times> kvmap"
  assume "content \<noteq> []"
  then obtain c cs where content: "content = c # cs" by (cases content) auto
  obtain l t where lt: "fgets (Suc (Suc 397)) (c # cs) = (l, t)" by (cases "fgets (Suc (Suc 397)) (c # cs)")
  from fgets_progress [OF this] lt
  show "((below, snd (fgets (LINE_MAX_LEN - 1) content), snd r), below, content, kvm)
      \<in> measure (\<lambda>(b, content, kvm). length content)"
    by (simp add: content eval_nat_numeral)
qed

declare items_loop.simps [simp del]

text \<open>A file is its content, or \<open>None\<close> when it cannot be opened.\<close>

definition file_to_items :: "char \<Rightarrow> string option \<Rightarrow> kvmap \<Rightarrow> (int \<times> kvmap) res" where
  "file_to_items below file kvm = (case file of
      None \<Rightarrow> Inr (1, kvm)
    | Some content \<Rightarrow> rbind (items_loop below content kvm) (\<lambda>kvm'. Inr (0, kvm')))"

definition read_conf_value ::
  "char \<Rightarrow> string \<Rightarrow> string \<Rightarrow> string option \<Rightarrow> kvmap \<Rightarrow> (int \<times> string \<times> kvmap) res" where
  "read_conf_value below key val file kvm =
     rbind (file_to_items below file kvm) (\<lambda>r.
       Inr (0, case map_of (snd r) key of Some v \<Rightarrow> v | None \<Rightarrow> val, []))"

fun set_value :: "string \<Rightarrow> string \<Rightarrow> kvmap \<Rightarrow> kvmap" where
  "set_value key val [] = []"
| "set_value key val ((k, v) # r) = (if k = key then (k, val) # r else (k, v) # set_value key val r)"

definition print_items :: "kvmap \<Rightarrow> string" where
  "print_items kvm = concat (map (\<lambda>kv. fst kv @ CHR ''='' # snd kv @ [CHR 0x0A]) kvm)"

text \<open>The result code, the file afterwards and the map; \<open>writable\<close> says whether it can be opened for writing.\<close>

definition write_conf_value ::
  "char \<Rightarrow> string \<Rightarrow> string \<Rightarrow> bool \<Rightarrow> string option \<Rightarrow> kvmap \<Rightarrow> (int \<times> string option \<times> kvmap) res" where
  "write_conf_value below key val writable file kvm =
     rbind (file_to_items below file kvm) (\<lambda>r.
       let kvm' = set_value key val (snd r) in
       if \<not> writable then Inr (1, file, kvm')
       else Inr (0, Some (print_items kvm'), []))"

section \<open>Directory of the executable\<close>

text \<open>
  The argument is what \<open>readlink\<close> gave (\<open>None\<close> on failure). The path is cut at its last slash;
  \<open>rfind\<close> without a slash gives \<open>npos\<close>, converted to \<open>-1\<close>, and \<open>erase(-1, ..)\<close> throws.
\<close>

definition rfind :: "string \<Rightarrow> char \<Rightarrow> nat option" where
  "rfind s c = (case strchr (rev s) c of None \<Rightarrow> None | Some k \<Rightarrow> Some (length s - 1 - k))"

definition getexedir :: "string option \<Rightarrow> string option res" where
  "getexedir link = (case link of
      None \<Rightarrow> Inr None
    | Some buff \<Rightarrow>
        let path = cstr (take 499 buff) in
        case rfind path (CHR ''/'') of
          None \<Rightarrow> Inl (Thrown ''out_of_range'')
        | Some nLen \<Rightarrow> Inr (Some (take nLen path)))"

section \<open>Time stamp\<close>

record tm =
  tm_year :: int
  tm_mon :: int
  tm_mday :: int
  tm_hour :: int
  tm_min :: int
  tm_sec :: int

text \<open>\<open>%0wd\<close>.\<close>

definition pad0 :: "nat \<Rightarrow> int \<Rightarrow> string" where
  "pad0 w i = (if i < 0 then CHR ''-'' # replicate (w - 1 - length (dec (nat (- i)))) (CHR ''0'') @ dec (nat (- i))
     else replicate (w - length (dec (nat i))) (CHR ''0'') @ dec (nat i))"

definition getnowdate :: "tm \<Rightarrow> string res" where
  "getnowdate ltm =
     (let s = pad0 4 (tm_year ltm + 1900) @ ''-'' @ pad0 2 (tm_mon ltm + 1) @ ''-'' @ pad0 2 (tm_mday ltm)
          @ '' '' @ pad0 2 (tm_hour ltm) @ '':'' @ pad0 2 (tm_min ltm) @ '':'' @ pad0 2 (tm_sec ltm)
      in if length s < 20 then Inr s else Inl OutOfBounds)"

section \<open>Fraction and integer part\<close>

text \<open>
  \<open>getMB\<close> prints the fraction with \<open>%.2f\<close> into four bytes; the arguments are the integer
  part and what \<open>%.2f\<close> prints for the fraction.
\<close>

definition getMB :: "int \<Rightarrow> string \<Rightarrow> (int \<times> 32 word) res" where
  "getMB ipart printed =
     (if length printed < 4 then Inr (ipart, atoi (drop 2 printed)) else Inl OutOfBounds)"

section \<open>Coordinate keys\<close>

fun chang2uint_loop :: "string \<Rightarrow> (nat \<Rightarrow> char) \<Rightarrow> nat \<Rightarrow> bool \<Rightarrow> nat \<Rightarrow> (nat \<Rightarrow> char) res" where
  "chang2uint_loop [] ui i dot j = Inr ui"
| "chang2uint_loop (c # str) ui i dot j =
     (if \<not> j < 3 then Inr ui
      else if c \<noteq> CHR ''.'' then
        rbind (wr 10 ui i c) (\<lambda>ui'. chang2uint_loop str ui' (Suc i) dot (if dot then Suc j else j))
      else chang2uint_loop str ui i True 1)"

text \<open>\<open>atoi\<close> on a buffer: without a NUL in the buffer the scan may run past its end.\<close>

definition scan_rest :: "string \<Rightarrow> string" where
  "scan_rest s = dropWhile is_digit (snd (scan_sign (dropWhile isspace s)))"

definition atoi_buf :: "nat \<Rightarrow> (nat \<Rightarrow> char) \<Rightarrow> 32 word res" where
  "atoi_buf cap ui =
     (let s = cstr (slice ui 0 cap) in
      if length s = cap \<and> scan_rest s = [] then Inl OutOfBounds else Inr (atoi s))"

definition chang2uint :: "string \<Rightarrow> 32 word res" where
  "chang2uint str = rbind (chang2uint_loop str (\<lambda>_. NUL) 0 False 0) (atoi_buf 10)"

section \<open>Trimming removes white space at both ends\<close>

definition rtrim :: "string \<Rightarrow> string" where
  "rtrim s = rev (dropWhile isspace (rev s))"

lemma rtrim_Nil [simp]: "rtrim [] = []"
  by (simp add: rtrim_def)

lemma rtrim_snoc: "rtrim (s @ [c]) = (if isspace c then rtrim s else s @ [c])"
  by (simp add: rtrim_def)

lemma rtrim_prefix: "\<exists>t. s = rtrim s @ t"
  by (metis rtrim_def rev_append rev_rev_ident takeWhile_dropWhile_id)

lemma set_rtrim: "set (rtrim s) \<subseteq> set s"
  by (metis rtrim_prefix Un_upper1 set_append)

lemma strtrimr_loop_spec:
  "n \<le> length s \<Longrightarrow> strtrimr_loop below s (int n - 1) =
     rtrim (take n s) @ replicate (n - length (rtrim (take n s))) NUL @ drop n s"
proof (induction n arbitrary: s)
  case 0
  then show ?case by (subst strtrimr_loop.simps) simp
next
  case (Suc n)
  then have n: "n < length s" by simp
  have take: "take (Suc n) s = take n s @ [s ! n]" using n by (simp add: take_Suc_conv_app_nth)
  show ?case
  proof (cases "isspace (s ! n)")
    case True
    have "strtrimr_loop below s (int (Suc n) - 1) = strtrimr_loop below (s[n := NUL]) (int n - 1)"
      using True by (subst strtrimr_loop.simps) simp
    also have "\<dots> = rtrim (take n s) @ replicate (n - length (rtrim (take n s))) NUL @ NUL # drop (Suc n) s"
      using Suc.IH [of "s[n := NUL]"] n
      by (simp add: drop_update_swap take_update_cancel Cons_nth_drop_Suc [symmetric])
    also have "\<dots> = rtrim (take (Suc n) s) @ replicate (Suc n - length (rtrim (take (Suc n) s))) NUL @ drop (Suc n) s"
    proof -
      have "length (rtrim (take n s)) \<le> n"
        by (metis rtrim_prefix append_eq_conv_conj length_take min.bounded_iff min.cobounded2 nat_le_linear)
      then show ?thesis using True
        by (simp add: take rtrim_snoc Suc_diff_le replicate_append_same [symmetric] del: replicate_Suc)
          (simp add: replicate_app_Cons_same)
    qed
    finally show ?thesis .
  next
    case False
    then have "s ! n \<noteq> CHR 0x0A" by (auto simp: isspace_def)
    with False n show ?thesis
      by (subst strtrimr_loop.simps) (simp add: take rtrim_snoc append_take_drop_id id_take_nth_drop [symmetric])
  qed
qed

lemma strtrimr_spec [simp]: "NUL \<notin> set s \<Longrightarrow> strtrimr below s = rtrim s"
  using strtrimr_loop_spec [of "length s" s below] set_rtrim [of s]
  by (auto simp: strtrimr_def cstr_def takeWhile_append)

lemma strtriml_loop_spec:
  "i \<le> length s \<Longrightarrow> drop (strtriml_loop s i) s = dropWhile isspace (drop i s) \<and> i \<le> strtriml_loop s i"
proof (induction s i rule: strtriml_loop.induct)
  case (1 s i)
  show ?case
  proof (cases "i < length s \<and> isspace (s ! i)")
    case True
    with "1.IH" have "drop (strtriml_loop s (Suc i)) s = dropWhile isspace (drop (Suc i) s)"
      "Suc i \<le> strtriml_loop s (Suc i)" by auto
    with True show ?thesis
      by (simp add: strtriml_loop.simps [of s i] Cons_nth_drop_Suc [symmetric])
  next
    case False
    then have "dropWhile isspace (drop i s) = drop i s"
      by (cases "i < length s") (auto simp: Cons_nth_drop_Suc [symmetric])
    moreover have "strtriml_loop s i = i" using False by (subst strtriml_loop.simps) auto
    ultimately show ?thesis by simp
  qed
qed

lemma strtriml_spec [simp]: "strtriml s = dropWhile isspace s"
  using strtriml_loop_spec [of 0 s] by (auto simp: strtriml_def Let_def)

text \<open>
  Trimming a C string removes exactly the white space at its two ends. In particular the
  byte in front of the buffer, which the code reads on a blank string, has no influence.
\<close>

theorem strtrim_spec:
  assumes "NUL \<notin> set s"
  shows "strtrim below s = dropWhile isspace (rev (dropWhile isspace (rev s)))"
  using assms by (simp add: strtrim_def rtrim_def)

theorem strtrim_spec_witness: "strtrim (CHR ''x'') ''  db_port=3306 '' = ''db_port=3306''"
  using strtrim_spec [of "''  db_port=3306 ''" "CHR ''x''"] by (simp add: isspace_def)

section \<open>The configuration file\<close>

text \<open>
  One line of the file: blank lines and comments are skipped, a line with an equals sign
  adds its key unless the key is there already, and any other line makes the program
  dereference a null pointer.
\<close>

theorem get_item_from_line_cases:
  assumes "NUL \<notin> set line"
  shows "get_item_from_line below line kvm =
    (let p = strtrim NUL line in
     if p = [] then Inr (1, kvm)
     else if hd p = CHR ''#'' then Inr (2, kvm)
     else if CHR ''='' \<notin> set p then Inl NullDeref
     else Inr (0, ins_new (takeWhile (\<lambda>c. c \<noteq> CHR ''='') p) (tl (dropWhile (\<lambda>c. c \<noteq> CHR ''='') p)) kvm))"
proof -
  have below: "strtrim below line = strtrim NUL line" using assms by (simp add: strtrim_def)
  have split: "take v p = takeWhile (\<lambda>c. c \<noteq> CHR ''='') p \<and> drop (Suc v) p = tl (dropWhile (\<lambda>c. c \<noteq> CHR ''='') p)"
    if "strchr p (CHR ''='') = Some v" for p v
    using that by (induction p arbitrary: v) (auto split: if_splits)
  show ?thesis
    using split [of "strtrim NUL line"]
    by (auto simp: get_item_from_line_def below Let_def hd_conv_nth split: option.split dest: strchr_SomeD)
qed

theorem get_item_from_line_cases_witness:
  "get_item_from_line NUL ''WORKERS'' [] = Inl NullDeref
   \<and> get_item_from_line NUL '' LOCAL_PORT=8080 '' [] = Inr (0, [(''LOCAL_PORT'', ''8080'')])"
  using get_item_from_line_cases [of "''WORKERS''" NUL "[]"]
    get_item_from_line_cases [of "'' LOCAL_PORT=8080 ''" NUL "[]"]
  by (simp add: strtrim_def rtrim_def isspace_def)

definition line_ok :: "string \<Rightarrow> string \<Rightarrow> bool" where
  "line_ok k v \<longleftrightarrow> (let l = k @ CHR ''='' # v in
     CHR ''='' \<notin> set k \<and> \<not> isspace (hd l) \<and> hd l \<noteq> CHR ''#'' \<and> \<not> isspace (last l)
     \<and> NUL \<notin> set l \<and> CHR 0x0A \<notin> set l \<and> length l \<le> LINE_MAX_LEN - 3)"

lemma fgets_line:
  "CHR 0x0A \<notin> set l \<Longrightarrow> length l + 2 \<le> n \<Longrightarrow> fgets n (l @ CHR 0x0A # rest) = (l @ [CHR 0x0A], rest)"
proof (induction l arbitrary: n)
  case Nil
  then obtain m where "n = Suc (Suc m)" by (metis add_2_eq_Suc le_Suc_ex list.size(3) plus_nat.add_0)
  then show ?case by simp
next
  case (Cons c l)
  then obtain m where n: "n = Suc (Suc m)" by (metis add_2_eq_Suc' le_Suc_ex add_Suc)
  with Cons show ?case by auto
qed

lemma rtrim_line:
  assumes "l \<noteq> []" and "\<not> isspace (last l)"
  shows "rtrim (l @ [CHR 0x0A]) = l"
proof -
  have "rtrim l = l" using rtrim_snoc [of "butlast l" "last l"] assms by simp
  then show ?thesis by (simp add: rtrim_snoc isspace_def)
qed

lemma get_item_line_ok:
  assumes "line_ok k v"
  shows "get_item_from_line below (k @ CHR ''='' # v @ [CHR 0x0A]) kvm = Inr (0, ins_new k v kvm)"
proof -
  let ?l = "k @ CHR ''='' # v"
  have l: "?l \<noteq> []" "CHR ''='' \<notin> set k" "\<not> isspace (hd ?l)" "hd ?l \<noteq> CHR ''#''" "\<not> isspace (last ?l)"
    "NUL \<notin> set ?l" using assms by (auto simp: line_ok_def Let_def)
  have "strtrim below (?l @ [CHR 0x0A]) = dropWhile isspace ?l"
    using rtrim_line [OF l(1,5)] l(6) by (simp add: strtrim_def)
  also have "\<dots> = ?l" using l(1,3) by (cases ?l) auto
  finally have t: "strtrim below (?l @ [CHR 0x0A]) = ?l" .
  have "?l ! 0 \<noteq> CHR ''#''" using l(1,4) by (simp add: hd_conv_nth)
  with t l show ?thesis
    by (simp add: get_item_from_line_def strchr_append)
qed

lemma items_loop_line:
  assumes "line_ok k v"
  shows "items_loop below (k @ CHR ''='' # v @ CHR 0x0A # rest) kvm = items_loop below rest (ins_new k v kvm)"
proof -
  have ok: "CHR 0x0A \<notin> set (k @ CHR ''='' # v)" "length (k @ CHR ''='' # v) + 2 \<le> 399"
    "NUL \<notin> set (k @ CHR ''='' # v @ [CHR 0x0A])"
    using assms by (auto simp: line_ok_def Let_def)
  have "fgets 399 (k @ CHR ''='' # v @ CHR 0x0A # rest) = (k @ CHR ''='' # v @ [CHR 0x0A], rest)"
    using fgets_line [OF ok(1,2), of rest] by simp
  then show ?thesis
    using get_item_line_ok [OF assms, of below kvm] cstr_no_nul [OF ok(3)]
    by (subst items_loop.simps) simp
qed

lemma items_loop_print:
  "sorted_wrt (<) (map fst (acc @ kvs)) \<Longrightarrow> \<forall>kv\<in>set kvs. line_ok (fst kv) (snd kv) \<Longrightarrow>
   items_loop below (print_items kvs) acc = Inr (acc @ kvs)"
proof (induction kvs arbitrary: acc)
  case Nil
  then show ?case by (subst items_loop.simps) (simp add: print_items_def)
next
  case (Cons kv kvs)
  have "ins_new (fst kv) (snd kv) acc = acc @ [kv]"
    using ins_new_greatest [of acc "fst kv" "snd kv"] Cons.prems(1) by (auto simp: sorted_wrt_append)
  with Cons show ?case
    using items_loop_line [of "fst kv" "snd kv" below "print_items kvs" acc]
    by (simp add: print_items_def)
qed

text \<open>
  C25. Writing a configuration and reading it back: when every line is well-formed and
  short enough for the line buffer, \<open>file_to_items\<close> recovers exactly the map that was written.
\<close>

theorem conf_roundtrip:
  assumes "sorted_wrt (<) (map fst kvs)" and "\<forall>kv\<in>set kvs. line_ok (fst kv) (snd kv)"
  shows "file_to_items below (Some (print_items kvs)) [] = Inr (0, kvs)"
  using items_loop_print [of "[]" kvs below] assms by (simp add: file_to_items_def)

theorem conf_roundtrip_witness:
  "file_to_items NUL (Some (print_items [(''LINK_TIMEOUT'', ''5''), (''db_name'', ''baidumap'')])) []
   = Inr (0, [(''LINK_TIMEOUT'', ''5''), (''db_name'', ''baidumap'')])"
  by (rule conf_roundtrip) (simp_all add: line_ok_def isspace_def less_char_def)

lemma get_item_sorted:
  "get_item_from_line below line kvm = Inr (r, kvm') \<Longrightarrow> sorted_wrt (<) (map fst kvm) \<Longrightarrow> sorted_wrt (<) (map fst kvm')"
  by (auto simp: get_item_from_line_def Let_def intro: sorted_ins_new split: if_splits option.splits)

lemma items_loop_sorted:
  "items_loop below content kvm = Inr kvm' \<Longrightarrow> sorted_wrt (<) (map fst kvm) \<Longrightarrow> sorted_wrt (<) (map fst kvm')"
proof (induction below content kvm arbitrary: kvm' rule: items_loop.induct)
  case (1 below content kvm)
  show ?case
  proof (cases "content = []")
    case True
    with "1.prems" show ?thesis by (simp add: items_loop.simps)
  next
    case False
    with "1.prems"(1) obtain r where
      "get_item_from_line below (cstr (fst (fgets 399 content))) kvm = Inr r"
      "items_loop below (snd (fgets 399 content)) (snd r) = Inr kvm'"
      by (subst (asm) items_loop.simps) auto
    with False "1.IH" [OF False, of r] "1.prems"(2) get_item_sorted [of below _ kvm "fst r" "snd r"]
    show ?thesis by simp
  qed
qed

lemma file_to_items_sorted:
  "file_to_items below file [] = Inr (r, kvs) \<Longrightarrow> sorted_wrt (<) (map fst kvs)"
  by (auto simp: file_to_items_def items_loop_sorted split: option.splits)

lemma map_fst_set_value [simp]: "map fst (set_value key val kvs) = map fst kvs"
  by (induction key val kvs rule: set_value.induct) auto

lemma set_set_value: "set (set_value key val kvs) \<subseteq> insert (key, val) (set kvs)"
  by (induction key val kvs rule: set_value.induct) auto

lemma map_of_set_value:
  "key \<in> fst ` set kvs \<Longrightarrow> map_of (set_value key val kvs) = (map_of kvs)(key \<mapsto> val)"
proof (induction key val kvs rule: set_value.induct)
  case (2 key val k v r)
  then show ?case by (cases "k = key") (auto simp: fun_eq_iff)
qed simp

text \<open>
  Updating one key of a configuration file keeps all others: a later read of the
  updated key returns the new value and a read of another key returns what the file had.
\<close>

theorem write_then_read:
  assumes items: "file_to_items below file [] = Inr (0, kvs)" and mem: "key \<in> fst ` set kvs"
    and ok: "\<forall>kv\<in>set kvs. line_ok (fst kv) (snd kv)" and new: "line_ok key val"
  shows "\<exists>file'. write_conf_value below key val True file [] = Inr (0, file', [])
     \<and> read_conf_value below key old file' [] = Inr (0, val, [])
     \<and> (\<forall>k. k \<noteq> key \<longrightarrow> read_conf_value below k old file' [] = read_conf_value below k old file [])"
proof -
  let ?kvs = "set_value key val kvs"
  have "sorted_wrt (<) (map fst ?kvs)" using file_to_items_sorted [OF items] by simp
  moreover have "\<forall>kv\<in>set ?kvs. line_ok (fst kv) (snd kv)"
    using set_set_value [of key val kvs] ok new by auto
  ultimately have reread: "file_to_items below (Some (print_items ?kvs)) [] = Inr (0, ?kvs)"
    using items_loop_print [of "[]" ?kvs below] by (simp add: file_to_items_def)
  show ?thesis
    using items reread map_of_set_value [OF mem]
    by (simp add: write_conf_value_def read_conf_value_def Let_def)
qed

theorem write_then_read_witness:
  "\<exists>file'. write_conf_value NUL ''b'' ''9'' True (Some (print_items [(''a'', ''1''), (''b'', ''2'')])) [] = Inr (0, file', [])
     \<and> read_conf_value NUL ''b'' ''none'' file' [] = Inr (0, ''9'', [])
     \<and> (\<forall>k. k \<noteq> ''b'' \<longrightarrow> read_conf_value NUL k ''none'' file' []
           = read_conf_value NUL k ''none'' (Some (print_items [(''a'', ''1''), (''b'', ''2'')])) [])"
proof (rule write_then_read)
  show "file_to_items NUL (Some (print_items [(''a'', ''1''), (''b'', ''2'')])) []
      = Inr (0, [(''a'', ''1''), (''b'', ''2'')])"
    using items_loop_print [of "[]" "[(''a'', ''1''), (''b'', ''2'')]" NUL]
    by (simp add: file_to_items_def line_ok_def isspace_def less_char_def)
qed (simp_all add: line_ok_def isspace_def)

section \<open>Coordinate keys\<close>

text \<open>The characters the loop of \<open>chang2uint\<close> stores.\<close>

fun kept :: "string \<Rightarrow> bool \<Rightarrow> nat \<Rightarrow> string" where
  "kept [] dot j = []"
| "kept (c # str) dot j =
     (if \<not> j < 3 then []
      else if c \<noteq> CHR ''.'' then c # kept str dot (if dot then Suc j else j)
      else kept str True 1)"

lemma store_Cons: "store a s (x # xs) = store (a(s := x)) (Suc s) xs"
proof (rule ext)
  fix k
  show "store a s (x # xs) k = store (a(s := x)) (Suc s) xs k"
    by (cases "k = s"; cases "k < s") (auto simp: store_def nth_Cons')
qed

lemma store_Nil [simp]: "store a s [] = a"
  by (rule ext) (auto simp: store_def)

lemma chang2uint_loop_kept:
  "i \<le> 10 \<Longrightarrow> chang2uint_loop str ui i dot j =
     (if i + length (kept str dot j) \<le> 10 then Inr (store ui i (kept str dot j)) else Inl OutOfBounds)"
proof (induction str ui i dot j rule: chang2uint_loop.induct)
  case (1 ui i dot j)
  then show ?case by simp
next
  case (2 c str ui i dot j)
  then show ?case by (cases "i < 10") (auto simp: store_Cons wr_def)
qed

lemma cstr_slice_store:
  assumes "NUL \<notin> set s" and "length s \<le> cap"
  shows "cstr (slice (store (\<lambda>_. NUL) 0 s) 0 cap) = s"
proof -
  have "slice (store (\<lambda>_. NUL) 0 s) 0 cap = s @ replicate (cap - length s) NUL"
    using assms(2) by (intro nth_equalityI) (auto simp: nth_append)
  with assms(1) show ?thesis by (auto simp: cstr_def takeWhile_append)
qed

lemma chang2uint_kept:
  assumes "NUL \<notin> set str"
  shows "chang2uint str =
     (let k = kept str False 0 in
      if 10 < length k \<or> length k = 10 \<and> scan_rest k = [] then Inl OutOfBounds else Inr (atoi k))"
proof -
  have "set (kept s dot j) \<subseteq> set s" for s dot j
    by (induction s dot j rule: kept.induct) auto
  with assms have nul: "NUL \<notin> set (kept str False 0)" by blast
  then show ?thesis
    using cstr_slice_store [OF nul, of 10]
    by (auto simp: chang2uint_def chang2uint_loop_kept atoi_buf_def Let_def)
qed

lemma kept_prefix: "CHR ''.'' \<notin> set a \<Longrightarrow> kept (a @ s) False 0 = a @ kept s False 0"
  by (induction a) auto

lemma length_kept_le: "length (kept s dot j) \<le> length s"
  by (induction s dot j rule: kept.induct) auto

lemma length_kept_less: "CHR ''.'' \<in> set s \<Longrightarrow> length (kept s dot j) < length s"
proof (induction s dot j rule: kept.induct)
  case (2 c str dot j)
  then show ?case using length_kept_le [of str True 1] by auto
qed simp

lemma digits_no_nul: "\<forall>c\<in>set a. is_digit c \<Longrightarrow> NUL \<notin> set a"
  using digit_not_nul by blast

lemma digits_no_dot: "\<forall>c\<in>set a. is_digit c \<Longrightarrow> CHR ''.'' \<notin> set a"
  using digit_not_sign by blast

lemma chang2uint_digits:
  assumes "\<forall>c\<in>set k. is_digit c" and "k \<noteq> []" and "length k \<le> 9" and "NUL \<notin> set str"
    and "kept str False 0 = k"
  shows "chang2uint str = Inr (of_nat (dec_val 0 k))"
  using assms atoi_digits [of k "[]"] by (simp add: chang2uint_kept)

text \<open>
  C26. A coordinate with at least two decimals becomes the integer part of a hundred times its
  value: all digits before the point and the first two after it, whatever follows.
\<close>

theorem chang2uint_two_decimals:
  assumes "a \<noteq> []" and "length a \<le> 7" and "\<forall>c\<in>set (a @ [d1, d2]). is_digit c" and "NUL \<notin> set rest"
  shows "chang2uint (a @ CHR ''.'' # d1 # d2 # rest)
           = Inr (of_nat (100 * dec_val 0 a + 10 * digit_val d1 + digit_val d2))"
proof -
  have "kept (a @ CHR ''.'' # d1 # d2 # rest) False 0 = a @ [d1, d2]"
    using assms(3) digits_no_dot [of a] by (cases rest) (auto simp: kept_prefix)
  moreover have "NUL \<notin> set (a @ CHR ''.'' # d1 # d2 # rest)"
    using assms(3,4) digits_no_nul [of "a @ [d1, d2]"] by auto
  ultimately show ?thesis
    using chang2uint_digits [of "a @ [d1, d2]"] assms(1,2,3) by (simp add: dec_val_append algebra_simps)
qed

theorem chang2uint_two_decimals_witness: "chang2uint ''114.73427'' = Inr 11473"
  using chang2uint_two_decimals [of "''114''" "CHR ''7''" "CHR ''3''" "''427''"]
  by (simp add: is_digit_def digit_val_def)

text \<open>
  With a single decimal the key is ten times too small: the code drops the point without
  padding, so \<open>a.d\<close> and \<open>a.d0\<close>, the same coordinate, get different keys.
\<close>

theorem chang2uint_one_decimal:
  assumes "a \<noteq> []" and "length a \<le> 7" and "\<forall>c\<in>set (a @ [d]). is_digit c"
  shows "chang2uint (a @ CHR ''.'' # [d]) = Inr (of_nat (10 * dec_val 0 a + digit_val d))
       \<and> chang2uint (a @ CHR ''.'' # [d, CHR ''0'']) = Inr (of_nat (10 * (10 * dec_val 0 a + digit_val d)))"
proof -
  have nd: "CHR ''.'' \<notin> set a" "d \<noteq> CHR ''.''" "NUL \<notin> set a" "d \<noteq> NUL"
    using assms(3) digits_no_dot [of "a @ [d]"] digits_no_nul [of "a @ [d]"] by auto
  have "is_digit (CHR ''0'')" "digit_val (CHR ''0'') = 0" by (simp_all add: is_digit_def digit_val_def)
  then show ?thesis
    using chang2uint_digits [of "a @ [d]" "a @ CHR ''.'' # [d]"]
      chang2uint_digits [of "a @ [d, CHR ''0'']" "a @ CHR ''.'' # [d, CHR ''0'']"] assms nd
    by (simp add: kept_prefix dec_val_append algebra_simps)
qed

theorem chang2uint_one_decimal_witness:
  "chang2uint ''114.5'' = Inr 1145 \<and> chang2uint ''114.50'' = Inr 11450"
  using chang2uint_one_decimal [of "''114''" "CHR ''5''"] by (simp add: is_digit_def digit_val_def)

text \<open>
  The ten byte work buffer: every text of at most nine characters, and every text of ten
  with a point, is converted without leaving the buffer, but ten digits without a point
  leave no room for the terminator and the conversion reads past the buffer.
\<close>

theorem chang2uint_buffer:
  assumes "NUL \<notin> set str"
  shows "(length str \<le> 9 \<or> (length str = 10 \<and> CHR ''.'' \<in> set str) \<longrightarrow> no_fault (chang2uint str))
       \<and> (length str = 10 \<and> (\<forall>c\<in>set str. is_digit c) \<longrightarrow> chang2uint str = Inl OutOfBounds)"
proof (intro conjI impI)
  assume "length str \<le> 9 \<or> (length str = 10 \<and> CHR ''.'' \<in> set str)"
  then have "length (kept str False 0) < 10"
    using length_kept_le [of str False 0] length_kept_less [of str False 0] by auto
  then show "no_fault (chang2uint str)" using chang2uint_kept [OF assms] by (simp add: Let_def)
next
  assume a: "length str = 10 \<and> (\<forall>c\<in>set str. is_digit c)"
  then have k: "kept str False 0 = str" using kept_prefix [of str "[]"] digits_no_dot [of str] by simp
  obtain c cs where str: "str = c # cs" using a by (cases str) auto
  have "scan_rest str = []" using a str by (simp add: scan_rest_def scan_sign_def)
  with a k show "chang2uint str = Inl OutOfBounds" using chang2uint_kept [OF assms] by simp
qed

theorem chang2uint_buffer_witness:
  "no_fault (chang2uint ''114.734271'') \<and> chang2uint ''1147342712'' = Inl OutOfBounds"
  using chang2uint_buffer [of "''114.734271''"] chang2uint_buffer [of "''1147342712''"]
  by (simp add: is_digit_def)

section \<open>Time stamps\<close>

lemma length_pad0: "0 < w \<Longrightarrow> 0 \<le> i \<Longrightarrow> i < 10 ^ w \<Longrightarrow> length (pad0 w i) = w"
  using length_dec_le [of w "nat i"] by (simp add: pad0_def nat_less_iff)

text \<open>A calendar time up to the year 9999 prints as 19 characters, within the 20 byte buffer.\<close>

theorem getnowdate_fits:
  assumes "0 \<le> tm_year t + 1900" "tm_year t + 1900 \<le> 9999" "0 \<le> tm_mon t" "tm_mon t \<le> 11"
    "1 \<le> tm_mday t" "tm_mday t \<le> 31" "0 \<le> tm_hour t" "tm_hour t \<le> 23" "0 \<le> tm_min t" "tm_min t \<le> 59"
    "0 \<le> tm_sec t" "tm_sec t \<le> 60"
  shows "\<exists>s. getnowdate t = Inr s \<and> length s = 19"
  using assms by (simp add: getnowdate_def length_pad0)

theorem getnowdate_fits_witness:
  "\<exists>s. getnowdate \<lparr>tm_year = 113, tm_mon = 3, tm_mday = 8, tm_hour = 9, tm_min = 5, tm_sec = 0\<rparr> = Inr s
     \<and> length s = 19"
  by (rule getnowdate_fits) simp_all

section \<open>Socket addresses, accuracy\<close>

text \<open>
  \<open>get_in_addr\<close> returns a pointer into the address it is given: which member, by the address family. \<open>getAccuracy01\<close> multiplies by
  100 in \<open>double\<close> and truncates; both operations are arguments.
\<close>

datatype in_addr_member = Sin_addr | Sin6_addr

definition AF_INET :: int where
  "AF_INET = 2"

definition get_in_addr :: "int \<Rightarrow> in_addr_member" where
  "get_in_addr sa_family = (if sa_family = AF_INET then Sin_addr else Sin6_addr)"

definition getAccuracy01 :: "(int \<Rightarrow> 'd \<Rightarrow> 'd) \<Rightarrow> ('d \<Rightarrow> 32 word) \<Rightarrow> 'd \<Rightarrow> 32 word" where
  "getAccuracy01 mul trunc x = trunc (mul 100 x)"

text \<open>On a number counted in hundredths, with exact operations, it returns the number itself.\<close>

lemma getAccuracy01_exact: "getAccuracy01 (*) (\<lambda>h. word_of_int (h div 100)) h = (word_of_int h :: 32 word)"
  by (simp add: getAccuracy01_def)

end
