(* ===== verification/Syslog.thy ===== *)
theory Syslog
  imports CLib
begin

text \<open>
  The two loggers of \<open>log.cpp\<close>: \<open>log_msg\<close> and \<open>log_sys\<close>, which format into a stack buffer of
  \<open>BUFFSIZE\<close> bytes and hand it to \<open>syslog\<close>, and the log file of \<open>logOpen\<close>, \<open>logMessage\<close>
  and \<open>logClose\<close>. The formatter covers the directives the sources use (\<open>%s\<close>, \<open>%d\<close>,
  \<open>%%\<close>); a directive without a matching argument is a fault, as reading an argument
  that was not passed is undefined. Every other directive counts as one without its argument. That includes \<open>%m\<close>, which
  glibc defines and standard C does not: it reads no argument.
\<close>

section \<open>Formatting\<close>

datatype arg = AStr string | AInt int

definition pct :: char where
  "pct = CHR 0x25"

fun vsprintf :: "string \<Rightarrow> arg list \<Rightarrow> string res" where
  "vsprintf [] args = Inr []"
| "vsprintf [c] args = (if c = pct then Inl FormatArgs else Inr [c])"
| "vsprintf (c # d # fmt) args =
     (if c \<noteq> pct then rbind (vsprintf (d # fmt) args) (\<lambda>r. Inr (c # r))
      else if d = pct then rbind (vsprintf fmt args) (\<lambda>r. Inr (pct # r))
      else case args of
          AStr s # as \<Rightarrow> if d = CHR ''s'' then rbind (vsprintf fmt as) (\<lambda>r. Inr (cstr s @ r)) else Inl FormatArgs
        | AInt i # as \<Rightarrow> if d = CHR ''d'' then rbind (vsprintf fmt as) (\<lambda>r. Inr (print_int i @ r)) else Inl FormatArgs
        | [] \<Rightarrow> Inl FormatArgs)"

section \<open>The system log\<close>

abbreviation BUFFSIZE :: nat where
  "BUFFSIZE \<equiv> 4096"

abbreviation LOG_ERR :: nat where
  "LOG_ERR \<equiv> 3"

abbreviation LOG_INFO :: nat where
  "LOG_INFO \<equiv> 6"

text \<open>A C string fits the buffer with its terminator.\<close>

definition fits :: "nat \<Rightarrow> string \<Rightarrow> string res" where
  "fits cap s = (if length s < cap then Inr s else Inl OutOfBounds)"

text \<open>The result is what reaches \<open>syslog\<close>: the priority and the line. \<open>err\<close> is \<open>strerror(errno)\<close>.\<close>

definition log_doit :: "bool \<Rightarrow> nat \<Rightarrow> string \<Rightarrow> string \<Rightarrow> arg list \<Rightarrow> (nat \<times> string) res" where
  "log_doit errnoflag priority err fmt ap =
     rbind (vsprintf (cstr fmt) ap) (\<lambda>s.
     rbind (fits BUFFSIZE s) (\<lambda>buf.
     rbind (if errnoflag then fits BUFFSIZE (buf @ '':'' @ err) else Inr buf) (\<lambda>buf.
     rbind (fits BUFFSIZE (buf @ [CHR 0x0A])) (\<lambda>buf. Inr (priority, buf)))))"

definition log_msg :: "string \<Rightarrow> arg list \<Rightarrow> (nat \<times> string) res" where
  "log_msg fmt ap = log_doit False LOG_INFO [] fmt ap"

definition log_sys :: "string \<Rightarrow> string \<Rightarrow> arg list \<Rightarrow> (nat \<times> string) res" where
  "log_sys err fmt ap = log_doit True LOG_ERR err fmt ap"

section \<open>The log file\<close>

text \<open>
  The stream is the text written so far. \<open>clock\<close> is what \<open>strftime\<close> would print for the
  local time, \<open>None\<close> when \<open>localtime\<close> fails; it must fit 20 bytes with its terminator.
\<close>

abbreviation TS_BUF_SIZE :: nat where
  "TS_BUF_SIZE \<equiv> 20"

definition log_stamp :: "string option \<Rightarrow> string" where
  "log_stamp clock = (case clock of
      None \<Rightarrow> ''???Unknown time????: ''
    | Some t \<Rightarrow> if t = [] \<or> TS_BUF_SIZE \<le> length t then ''???Unknown time????: '' else t @ '': '')"

definition logMessage :: "string option \<Rightarrow> string \<Rightarrow> arg list \<Rightarrow> string \<Rightarrow> string res" where
  "logMessage clock format args logfp =
     rbind (vsprintf (cstr format) args) (\<lambda>s. Inr (logfp @ log_stamp clock @ s @ [CHR 0x0A]))"

text \<open>
  \<open>logOpen\<close>: the file is opened for appending; without it the failure is logged and the process
  exits with status 255 (\<open>_exit(-1)\<close>).
\<close>

datatype open_result = LogOpened string | LogExit "nat \<times> string"

definition logOpen :: "string option \<Rightarrow> string \<Rightarrow> string \<Rightarrow> string option \<Rightarrow> open_result res" where
  "logOpen clock err logFilename file = (case file of
      None \<Rightarrow> rbind (log_sys err (''[cksettling][logOpen <'' @ [pct] @ ''s> fail]'' @ [CHR 0x0A]) [AStr logFilename])
        (\<lambda>l. Inr (LogExit l))
    | Some text \<Rightarrow> rbind (logMessage clock ''Opened log file'' [] text) (\<lambda>fp. Inr (LogOpened fp)))"

definition logClose :: "string option \<Rightarrow> string \<Rightarrow> string res" where
  "logClose clock logfp = logMessage clock ''Closing log file'' [] logfp"

section \<open>Messages that cannot fail\<close>

lemma vsprintf_plain: "pct \<notin> set fmt \<Longrightarrow> vsprintf fmt args = Inr fmt"
  by (induction fmt args rule: vsprintf.induct) auto

lemma vsprintf_no_args_faults: "pct \<in> set fmt \<Longrightarrow> (\<nexists>u v. fmt = u @ pct # pct # v) \<Longrightarrow> vsprintf fmt [] = Inl FormatArgs"
proof (induction fmt "[] :: arg list" rule: vsprintf.induct)
  case 1
  then show ?case by simp
next
  case (2 c)
  then show ?case by simp
next
  case (3 c d fmt)
  have nd: "\<not> (c = pct \<and> d = pct)" using "3.prems"(2) by (metis append_Nil)
  show ?case
  proof (cases "c = pct")
    case True
    with nd show ?thesis by simp
  next
    case False
    then have "pct \<in> set (d # fmt)" using "3.prems"(1) by simp
    moreover have "\<nexists>u v. d # fmt = u @ pct # pct # v"
      using "3.prems"(2) by (metis append_Cons)
    ultimately have "vsprintf (d # fmt) [] = Inl FormatArgs" using "3.hyps"(1) [OF False] by simp
    with False show ?thesis by simp
  qed
qed

lemma log_msg_plain:
  "pct \<notin> set (cstr fmt) \<Longrightarrow> log_msg fmt args =
     (if length (cstr fmt) + 1 < BUFFSIZE then Inr (LOG_INFO, cstr fmt @ [CHR 0x0A]) else Inl OutOfBounds)"
  by (auto simp: log_msg_def log_doit_def vsprintf_plain fits_def)

lemma log_msg_out: "log_msg fmt args = Inr (p, l) \<Longrightarrow> p = LOG_INFO \<and> length l < BUFFSIZE"
  by (auto simp: log_msg_def log_doit_def fits_def split: if_splits)

text \<open>
  A message passed as its own format string, as the request log of a connection is: it
  reaches the log unchanged exactly when it has no percent sign and leaves room for the newline and
  the terminator in the 4096 bytes. A longer one overruns the buffer; a single percent sign reads
  an argument that is not there.
\<close>

theorem log_msg_data_as_format:
  assumes "NUL \<notin> set m" and "\<nexists>u v. m = u @ pct # pct # v"
  shows "log_msg m [] = (if pct \<in> set m then Inl FormatArgs
     else if length m < BUFFSIZE - 1 then Inr (LOG_INFO, m @ [CHR 0x0A]) else Inl OutOfBounds)"
proof (cases "pct \<in> set m")
  case True
  then show ?thesis using vsprintf_no_args_faults [OF True assms(2)] assms(1)
    by (simp add: log_msg_def log_doit_def)
next
  case False
  then show ?thesis using log_msg_plain [of m "[]"] assms(1) by auto
qed

theorem log_msg_data_as_format_witness:
  "log_msg ''GET /navto'' [] = Inr (LOG_INFO, ''GET /navto'' @ [CHR 0x0A])
   \<and> log_msg [pct, CHR ''n''] [] = Inl FormatArgs"
proof -
  have "\<nexists>u v. ''GET /navto'' = u @ pct # pct # v"
  proof (intro notI, elim exE)
    fix u v
    assume "''GET /navto'' = u @ pct # pct # v"
    then have "pct \<in> set ''GET /navto''" by (metis in_set_conv_decomp)
    then show False by (simp add: pct_def)
  qed
  moreover have "\<nexists>u v. [pct, CHR ''n''] = u @ pct # pct # v"
    by (auto simp: Cons_eq_append_conv pct_def)
  ultimately show ?thesis
    using log_msg_data_as_format [of "''GET /navto''"] log_msg_data_as_format [of "[pct, CHR ''n'']"]
    by (simp add: pct_def)
qed

text \<open>
  A message to the log file is one line: the time stamp, the text, a newline, after what was
  there; opening and closing a log file adds one line each.
\<close>

theorem log_file_session:
  assumes "logOpen clock err name (Some text) = Inr (LogOpened fp)"
    and "pct \<notin> set m" and "NUL \<notin> set m"
  shows "rbind (logMessage clock m [] fp) (logClose clock) = Inr (text @
    log_stamp clock @ ''Opened log file'' @ [CHR 0x0A] @
    log_stamp clock @ m @ [CHR 0x0A] @
    log_stamp clock @ ''Closing log file'' @ [CHR 0x0A])"
proof -
  have o: "vsprintf (cstr ''Opened log file'') [] = Inr ''Opened log file''"
    "vsprintf (cstr ''Closing log file'') [] = Inr ''Closing log file''"
    by (simp_all add: vsprintf_plain pct_def)
  then have "fp = text @ log_stamp clock @ ''Opened log file'' @ [CHR 0x0A]"
    using assms(1) by (simp add: logOpen_def logMessage_def)
  moreover have "vsprintf (cstr m) [] = Inr m" using assms(2,3) by (simp add: vsprintf_plain)
  ultimately show ?thesis using o by (simp add: logMessage_def logClose_def)
qed

theorem log_file_session_witness:
  "rbind (logMessage (Some ''2013-04-08 10:00:00'') ''start'' [] (''2013-04-08 10:00:00: Opened log file'' @ [CHR 0x0A]))
     (logClose (Some ''2013-04-08 10:00:00''))
   = Inr (''2013-04-08 10:00:00: Opened log file'' @ [CHR 0x0A] @ ''2013-04-08 10:00:00: start'' @ [CHR 0x0A]
      @ ''2013-04-08 10:00:00: Closing log file'' @ [CHR 0x0A])"
proof -
  have "logOpen (Some ''2013-04-08 10:00:00'') [] ''f'' (Some []) =
      Inr (LogOpened (''2013-04-08 10:00:00: Opened log file'' @ [CHR 0x0A]))"
    by (simp add: logOpen_def logMessage_def vsprintf_plain pct_def log_stamp_def)
  from log_file_session [OF this, of "''start''"] show ?thesis by (simp add: log_stamp_def pct_def)
qed

end
