(* ===== verification/Client.thy ===== *)
theory Client
  imports Tools Syslog
begin

text \<open>
  One connection (\<open>CClient.h\<close>, \<open>CClient.cpp\<close>): its buffer, the fields taken from a request, and
  the operations that receive bytes, look for a request in the buffer and extract its
  fields. What an operation does outside the object is returned as a list of effects, in
  order: log lines, a close, a send, and the calls of the manager. The release build is
  modelled (no \<open>_DEBUG\<close>, \<open>LOGLOG\<close> defined).
\<close>

section \<open>Data\<close>

abbreviation MAXBUF :: nat where
  "MAXBUF \<equiv> 4096"

abbreviation IOBUF_SIZE :: nat where
  "IOBUF_SIZE \<equiv> 4097"

abbreviation IN_DATA_LEN :: nat where
  "IN_DATA_LEN \<equiv> 87"

abbreviation SERIAL_LEN :: nat where
  "SERIAL_LEN \<equiv> 15"

abbreviation MD5_LEN :: nat where
  "MD5_LEN \<equiv> 32"

abbreviation GPS_LEN :: nat where
  "GPS_LEN \<equiv> 11"

abbreviation INVALID_SOCKET :: int where
  "INVALID_SOCKET \<equiv> -1"

text \<open>
  The character arrays of the fields are kept as the bytes in front of the terminator the code
  writes; \<open>None\<close> is an array or a number that was never written.
\<close>

record 'd CClient =
  cfd :: int
  offset :: nat
  iobuf :: "nat \<Rightarrow> char"
  serial :: string
  md5 :: "string option"
  xbaidu :: "string option"
  ybaidu :: "string option"
  xgps :: "'d option"
  ygps :: "'d option"
  status :: nat
  delay_time :: int

datatype effect =
    ELog "nat \<times> string"
  | EPerror string
  | EStderr string
  | EClose int
  | ESend int string
  | EKill int
  | ENotify int

text \<open>A log message that is a constant of the program.\<close>

definition say :: "string \<Rightarrow> effect" where
  "say m = ELog (LOG_INFO, m @ [CHR 0x0A])"

lemma say_log_msg:
  "pct \<notin> set m \<Longrightarrow> NUL \<notin> set m \<Longrightarrow> length m < BUFFSIZE - 1 \<Longrightarrow> map_sum id ELog (log_msg m []) = Inr (say m)"
  by (simp add: log_msg_plain say_def)

section \<open>Creation, reuse, closing\<close>

text \<open>\<open>m_sinaddr\<close> is written and never read; the result of \<open>fcntl\<close> has no effect in the release build.\<close>

definition ini :: "int \<Rightarrow> 'd CClient \<Rightarrow> int \<Rightarrow> 'd CClient" where
  "ini now client fd = client\<lparr>status := 0, delay_time := now, serial := [], iobuf := (\<lambda>_. NUL), offset := 0, cfd := fd\<rparr>"

definition new_CClient :: "int \<Rightarrow> int \<Rightarrow> 'd CClient" where
  "new_CClient now fd = ini now \<lparr>cfd = fd, offset = 0, iobuf = (\<lambda>_. NUL), serial = [], md5 = None, xbaidu = None,
     ybaidu = None, xgps = None, ygps = None, status = 0, delay_time = now\<rparr> fd"

definition ReInit :: "int \<Rightarrow> 'd CClient \<Rightarrow> int \<Rightarrow> 'd CClient" where
  "ReInit now c fd = ini now c fd"

definition Close :: "'d CClient \<Rightarrow> 'd CClient \<times> effect list" where
  "Close c = (let c' = c\<lparr>status := 0\<rparr> in
     if cfd c' \<noteq> INVALID_SOCKET then (c'\<lparr>cfd := INVALID_SOCKET\<rparr>, [EClose (cfd c')]) else (c', []))"

definition resetbuf :: "'d CClient \<Rightarrow> 'd CClient" where
  "resetbuf c = c\<lparr>offset := 0\<rparr>"

section \<open>Keywords\<close>

text \<open>A keyword is a list of alternatives, one pair of characters per position.\<close>

type_synonym keyword = "(char \<times> char) list"

definition kw_navto :: keyword where
  "kw_navto = [(CHR ''N'', CHR ''n''), (CHR ''a'', CHR ''A''), (CHR ''V'', CHR ''v''), (CHR ''T'', CHR ''t''), (CHR ''O'', CHR ''o'')]"

definition kw_serial :: keyword where
  "kw_serial = [(CHR ''S'', CHR ''s''), (CHR ''e'', CHR ''E''), (CHR ''R'', CHR ''r''), (CHR ''I'', CHR ''i''),
     (CHR ''A'', CHR ''a''), (CHR ''L'', CHR ''l'')]"

definition kw_md5 :: keyword where
  "kw_md5 = [(CHR ''M'', CHR ''m''), (CHR ''d'', CHR ''D''), (CHR ''5'', CHR ''5'')]"

definition kw_xbaidu :: keyword where
  "kw_xbaidu = [(CHR ''X'', CHR ''x''), (CHR ''B'', CHR ''b''), (CHR ''a'', CHR ''A''), (CHR ''I'', CHR ''i''),
     (CHR ''D'', CHR ''d''), (CHR ''U'', CHR ''u'')]"

definition kw_ybaidu :: keyword where
  "kw_ybaidu = [(CHR ''Y'', CHR ''y''), (CHR ''B'', CHR ''b''), (CHR ''a'', CHR ''A''), (CHR ''I'', CHR ''i''),
     (CHR ''D'', CHR ''d''), (CHR ''U'', CHR ''u'')]"

text \<open>The chain of \<open>&&\<close> stops at the first position that differs; every read is checked.\<close>

fun match_at :: "(nat \<Rightarrow> char) \<Rightarrow> nat \<Rightarrow> keyword \<Rightarrow> bool res" where
  "match_at p i [] = Inr True"
| "match_at p i ((a, b) # kw) =
     rbind (rd IOBUF_SIZE p i) (\<lambda>c. if c = a \<or> c = b then match_at p (Suc i) kw else Inr False)"

text \<open>The loops that look for a keyword below \<open>len\<close>; the result is \<open>len\<close> when there is none.\<close>

function find_kw :: "(nat \<Rightarrow> char) \<Rightarrow> keyword \<Rightarrow> nat \<Rightarrow> nat \<Rightarrow> nat res" where
  "find_kw p kw x len =
     (if x < len then rbind (match_at p x kw) (\<lambda>m. if m then Inr x else find_kw p kw (Suc x) len) else Inr x)"
  by pat_completeness auto
termination
  by (relation "measure (\<lambda>(p, kw, x, len). len - x)") auto

declare find_kw.simps [simp del]

section \<open>Parsing\<close>

definition copy_out :: "(nat \<Rightarrow> char) \<Rightarrow> nat \<Rightarrow> nat \<Rightarrow> string res" where
  "copy_out p s n = (if s + n \<le> IOBUF_SIZE then Inr (slice p s n) else Inl OutOfBounds)"

function dot_scan :: "(nat \<Rightarrow> char) \<Rightarrow> nat \<Rightarrow> nat \<Rightarrow> nat res" where
  "dot_scan p dot lim =
     rbind (rd IOBUF_SIZE p dot) (\<lambda>c.
       if c \<noteq> CHR '' '' \<and> c \<noteq> CHR ''&'' \<and> dot < lim then dot_scan p (Suc dot) lim else Inr dot)"
  by pat_completeness auto
termination
  by (relation "measure (\<lambda>(p, dot, lim). lim - dot)") auto

declare dot_scan.simps [simp del]

text \<open>The value after \<open>xbaidu=\<close> or \<open>ybaidu=\<close> at \<open>x\<close>; \<open>None\<close> when no delimiter comes within \<open>GPS_LEN\<close>.\<close>

definition get_coord :: "(nat \<Rightarrow> char) \<Rightarrow> nat \<Rightarrow> string option res" where
  "get_coord p x =
     rbind (dot_scan p (x + 7) (x + 7 + GPS_LEN)) (\<lambda>dot.
       if dot < x + 7 + GPS_LEN then rbind (copy_out p (x + 7) (dot - (x + 7))) (\<lambda>s. Inr (Some s))
       else Inr None)"

definition get_serial :: "nat \<Rightarrow> nat \<Rightarrow> 'd CClient \<Rightarrow> 'd CClient res" where
  "get_serial j len c =
     rbind (find_kw (iobuf c) kw_serial j len) (\<lambda>x.
     rbind (guard (x < len) AssertFail) (\<lambda>_.
     rbind (copy_out (iobuf c) (x + 7) SERIAL_LEN) (\<lambda>s. Inr (c\<lparr>serial := s\<rparr>))))"

definition get_md5 :: "nat \<Rightarrow> nat \<Rightarrow> 'd CClient \<Rightarrow> 'd CClient res" where
  "get_md5 j len c =
     rbind (find_kw (iobuf c) kw_md5 j len) (\<lambda>x.
     rbind (guard (x < len) AssertFail) (\<lambda>_.
     rbind (copy_out (iobuf c) (x + 4) MD5_LEN) (\<lambda>s. Inr (c\<lparr>md5 := Some s\<rparr>))))"

definition get_xbaidu :: "nat \<Rightarrow> nat \<Rightarrow> 'd CClient \<Rightarrow> ('d CClient \<times> effect list) res" where
  "get_xbaidu j len c =
     rbind (find_kw (iobuf c) kw_xbaidu j len) (\<lambda>x.
     rbind (guard (x < len) AssertFail) (\<lambda>_.
     rbind (get_coord (iobuf c) x) (\<lambda>v. Inr (case v of
         Some s \<Rightarrow> (c\<lparr>xbaidu := Some s\<rparr>, [])
       | None \<Rightarrow> (c, [say ''[log][CCLient]xbaidu  data error''])))))"

text \<open>The last field has no \<open>assert\<close>: without the keyword an error is printed and the request goes on.\<close>

definition get_ybaidu :: "nat \<Rightarrow> nat \<Rightarrow> 'd CClient \<Rightarrow> ('d CClient \<times> effect list) res" where
  "get_ybaidu j len c =
     rbind (find_kw (iobuf c) kw_ybaidu j len) (\<lambda>x.
     if x < len then
       rbind (get_coord (iobuf c) x) (\<lambda>v. Inr (case v of
           Some s \<Rightarrow> (c\<lparr>ybaidu := Some s\<rparr>, [])
         | None \<Rightarrow> (c, [say ''[log][CCLient]ybaidu data error''])))
     else Inr (c, [EPerror ''parse error'']))"

definition parse_fields :: "nat \<Rightarrow> nat \<Rightarrow> 'd CClient \<Rightarrow> ('d CClient \<times> effect list) res" where
  "parse_fields j len c =
     rbind (get_serial j len c) (\<lambda>c.
     rbind (get_md5 j len c) (\<lambda>c.
     rbind (get_xbaidu j len c) (\<lambda>(c, e1).
     rbind (get_ybaidu j len c) (\<lambda>(c, e2).
     Inr (c\<lparr>status := 1\<rparr>, e1 @ e2 @ [ENotify (cfd c)])))))"

text \<open>An incomplete request is moved to the front of the buffer.\<close>

definition keep_tail :: "copy_sem \<Rightarrow> nat \<Rightarrow> nat \<Rightarrow> 'd CClient \<Rightarrow> 'd CClient res" where
  "keep_tail mode i len c =
     (let off = len - i in
      rbind (memcpy mode IOBUF_SIZE (iobuf c) 0 i off) (\<lambda>p.
      rbind (wr IOBUF_SIZE p off NUL) (\<lambda>p. Inr (c\<lparr>offset := off, iobuf := p\<rparr>))))"

text \<open>The log line of a request holds the buffer up to its first NUL, and is its own format string.\<close>

definition buf_text :: "'d CClient \<Rightarrow> string res" where
  "buf_text c = (let s = slice (iobuf c) 0 IOBUF_SIZE in if NUL \<in> set s then Inr (cstr s) else Inl OutOfBounds)"

definition log_request :: "tm \<Rightarrow> 'd CClient \<Rightarrow> effect res" where
  "log_request ltm c =
     rbind (getnowdate ltm) (\<lambda>ndate.
     rbind (buf_text c) (\<lambda>t.
     rbind (log_msg (''[get]['' @ ndate @ ''][''  @ t @ ''].'') []) (\<lambda>l. Inr (ELog l))))"

definition parse :: "copy_sem \<Rightarrow> tm \<Rightarrow> 'd CClient \<Rightarrow> nat \<Rightarrow> ('d CClient \<times> effect list) res" where
  "parse mode ltm c ulen =
     rbind (log_request ltm c) (\<lambda>l.
     if 0 < ulen then
       let len = ulen + offset c in
       rbind (wr IOBUF_SIZE (iobuf c) len NUL) (\<lambda>p.
       let c = c\<lparr>iobuf := p\<rparr> in
       rbind (find_kw p kw_navto 0 len) (\<lambda>i.
       if i < len then
         let j = i + 6 in
         if j + IN_DATA_LEN > len then rbind (keep_tail mode i len c) (\<lambda>c. Inr (c, [l]))
         else rbind (parse_fields j len c) (\<lambda>(c, es). Inr (c, l # es))
       else Inr (c, [l])))
     else Inr (c, [l]))"

text \<open>
  \<open>avail\<close> is what the socket holds: \<open>None\<close> an error, otherwise the bytes that can be read, none
  of them when the peer has closed. \<open>recv\<close> takes at most \<open>MAXBUF - offset\<close> of them.
\<close>

definition receive :: "copy_sem \<Rightarrow> tm \<Rightarrow> 'd CClient \<Rightarrow> string option \<Rightarrow> ('d CClient \<times> effect list) res" where
  "receive mode ltm c avail = (case avail of
      None \<Rightarrow> Inr (c, [say ''CClient::receive'', say ''CClient::receive len=-1'', EKill (cfd c)])
    | Some bs \<Rightarrow>
        let got = take (MAXBUF - offset c) bs in
        if got = [] then Inr (c, [say ''CClient::receive'', say ''CClient::receive len=0'', EKill (cfd c)])
        else rbind (parse mode ltm (c\<lparr>iobuf := store (iobuf c) (offset c) got\<rparr>) (length got)) (\<lambda>(c, es).
          Inr (c, say ''CClient::receive'' # es)))"

section \<open>Towards the car server\<close>

definition SetSend2CarServer :: "'d CClient \<Rightarrow> 'd CClient" where
  "SetSend2CarServer c = c\<lparr>status := 2\<rparr>"

definition GetSend2CarServer :: "'d CClient \<Rightarrow> bool" where
  "GetSend2CarServer c \<longleftrightarrow> status c = 2"

definition sendback :: "'d CClient \<Rightarrow> string \<Rightarrow> effect list res" where
  "sendback c data =
     rbind (log_msg (''[log]to['' @ cstr (serial c) @ '']'' @ ''.'') []) (\<lambda>l. Inr [ESend (cfd c) data, ELog l])"

section \<open>Searching stays within the terminator\<close>

fun kw_match :: "(nat \<Rightarrow> char) \<Rightarrow> nat \<Rightarrow> keyword \<Rightarrow> bool" where
  "kw_match p i [] = True"
| "kw_match p i ((a, b) # kw) = ((p i = a \<or> p i = b) \<and> kw_match p (Suc i) kw)"

definition kw_ok :: "keyword \<Rightarrow> bool" where
  "kw_ok kw \<longleftrightarrow> kw \<noteq> [] \<and> (\<forall>ab\<in>set kw. fst ab \<noteq> NUL \<and> snd ab \<noteq> NUL)"

lemmas kw_defs = kw_navto_def kw_serial_def kw_md5_def kw_xbaidu_def kw_ybaidu_def

lemma kw_ok_all [simp]: "kw_ok kw_navto" "kw_ok kw_serial" "kw_ok kw_md5" "kw_ok kw_xbaidu" "kw_ok kw_ybaidu"
  by (simp_all add: kw_ok_def kw_defs)

lemma match_at_spec:
  assumes "len < IOBUF_SIZE" and "p len = NUL"
  shows "i \<le> len \<Longrightarrow> \<forall>ab\<in>set kw. fst ab \<noteq> NUL \<and> snd ab \<noteq> NUL \<Longrightarrow>
    match_at p i kw = Inr (kw_match p i kw) \<and> (kw_match p i kw \<longrightarrow> i + length kw \<le> len)"
proof (induction kw arbitrary: i)
  case Nil
  then show ?case by simp
next
  case (Cons ab kw)
  obtain a b where ab: "ab = (a, b)" by (cases ab)
  show ?case
  proof (cases "p i = a \<or> p i = b")
    case True
    then have "i \<noteq> len" using Cons.prems(2) assms(2) ab by auto
    then have "Suc i \<le> len" using Cons.prems(1) by simp
    then have "match_at p (Suc i) kw = Inr (kw_match p (Suc i) kw) \<and> (kw_match p (Suc i) kw \<longrightarrow> Suc i + length kw \<le> len)"
      using Cons.IH [of "Suc i"] Cons.prems(2) by simp
    with True ab assms(1) Cons.prems(1) show ?thesis by auto
  next
    case False
    with Cons.prems ab assms(1) show ?thesis by simp
  qed
qed

lemma find_kw_spec:
  assumes "len < IOBUF_SIZE" and "p len = NUL" and "kw_ok kw"
  shows "x \<le> len \<Longrightarrow> \<exists>x'. find_kw p kw x len = Inr x' \<and> x \<le> x' \<and> x' \<le> len
    \<and> (\<forall>y. x \<le> y \<and> y < x' \<longrightarrow> \<not> kw_match p y kw)
    \<and> (x' < len \<longrightarrow> kw_match p x' kw \<and> x' + length kw \<le> len)"
proof (induction "len - x" arbitrary: x)
  case 0
  then show ?case by (subst find_kw.simps) auto
next
  case (Suc n)
  then have x: "x < len" by simp
  have m: "match_at p x kw = Inr (kw_match p x kw)" "kw_match p x kw \<longrightarrow> x + length kw \<le> len"
    using match_at_spec [where p = p and len = len and i = x and kw = kw] assms(1,2) assms(3) x by (auto simp: kw_ok_def)
  show ?case
  proof (cases "kw_match p x kw")
    case True
    then have "find_kw p kw x len = Inr x" using x m by (subst find_kw.simps) simp
    with True m x show ?thesis by (intro exI [of _ x]) auto
  next
    case False
    have "find_kw p kw x len = find_kw p kw (Suc x) len" using False x m by (subst find_kw.simps) simp
    moreover obtain x' where "find_kw p kw (Suc x) len = Inr x'" "Suc x \<le> x'" "x' \<le> len"
      "\<forall>y. Suc x \<le> y \<and> y < x' \<longrightarrow> \<not> kw_match p y kw"
      "x' < len \<longrightarrow> kw_match p x' kw \<and> x' + length kw \<le> len"
    proof -
      have "n = len - Suc x" using Suc.hyps(2) x by linarith
      then show thesis using Suc.hyps(1) [of "Suc x"] x that by auto
    qed
    moreover have "\<not> kw_match p y kw" if "x \<le> y" "y < x'" for y
      using False calculation(5) that by (cases "y = x") auto
    ultimately show ?thesis by (intro exI [of _ x']) auto
  qed
qed

lemma find_kw_first:
  assumes "len < IOBUF_SIZE" and "p len = NUL" and "kw_ok kw" and "x \<le> x'" and "x' < len"
    and "kw_match p x' kw" and "\<And>y. x \<le> y \<Longrightarrow> y < x' \<Longrightarrow> \<not> kw_match p y kw"
  shows "find_kw p kw x len = Inr x'"
proof -
  obtain z where z: "find_kw p kw x len = Inr z" "x \<le> z" "z \<le> len"
    "\<forall>y. x \<le> y \<and> y < z \<longrightarrow> \<not> kw_match p y kw" "z < len \<longrightarrow> kw_match p z kw \<and> z + length kw \<le> len"
    using find_kw_spec [where p = p and len = len and kw = kw and x = x] assms(1-5) by auto
  have "z \<le> x'" using z(4) assms(4,6) by (metis not_le_imp_less)
  moreover have "\<not> z < x'" using z(2,5) assms(5,7) by auto
  ultimately show ?thesis using z(1) by simp
qed

text \<open>
  C22. The keyword searches of \<open>parse\<close> read within the received bytes and the terminator only, and
  find the first occurrence: the result is the least position from the start whose characters match
  the keyword, with the whole keyword in front of the terminator, or the length when there is none.
\<close>

theorem find_kw_correct:
  assumes "len < IOBUF_SIZE" and "p len = NUL" and "x \<le> len"
    and "kw \<in> {kw_navto, kw_serial, kw_md5, kw_xbaidu, kw_ybaidu}"
  shows "find_kw p kw x len = Inr x' \<longleftrightarrow>
     x \<le> x' \<and> (\<forall>y. x \<le> y \<and> y < x' \<longrightarrow> \<not> kw_match p y kw)
     \<and> (if x' < len then kw_match p x' kw \<and> x' + length kw \<le> len else x' = len)"
proof -
  have ok: "kw_ok kw" using assms(4) by auto
  obtain z where z: "find_kw p kw x len = Inr z" "x \<le> z" "z \<le> len"
    "\<forall>y. x \<le> y \<and> y < z \<longrightarrow> \<not> kw_match p y kw" "z < len \<longrightarrow> kw_match p z kw \<and> z + length kw \<le> len"
    using find_kw_spec [where p = p and len = len and kw = kw and x = x] assms(1-3) ok by auto
  have "z = x'" if h: "x \<le> x'" "\<forall>y. x \<le> y \<and> y < x' \<longrightarrow> \<not> kw_match p y kw"
      "if x' < len then kw_match p x' kw \<and> x' + length kw \<le> len else x' = len"
  proof (rule linorder_cases [of z x'])
    assume "z < x'"
    with h z(2,3,5) show ?thesis by (auto split: if_splits)
  next
    assume "x' < z"
    with h z(3,4) show ?thesis by (auto split: if_splits)
  qed
  then show ?thesis using z by (cases "z = x'") auto
qed

text \<open>A buffer with a string at its start, NUL after it.\<close>

definition buf_of :: "string \<Rightarrow> nat \<Rightarrow> char" where
  "buf_of s = store (\<lambda>_. NUL) 0 s"

theorem find_kw_correct_witness: "find_kw (buf_of ''GET /NavTo'') kw_navto 0 10 = Inr 5"
proof -
  have "\<not> kw_match (buf_of ''GET /NavTo'') y kw_navto" if "y < 5" for y
  proof -
    have "y \<in> {0, 1, 2, 3, 4}" using that by auto
    then show ?thesis by (auto simp: buf_of_def kw_navto_def store_def)
  qed
  moreover have "kw_match (buf_of ''GET /NavTo'') 5 kw_navto" "buf_of ''GET /NavTo'' 10 = NUL" "length kw_navto = 5"
    by (simp_all add: buf_of_def kw_navto_def store_def)
  ultimately show ?thesis using find_kw_correct [of 10 "buf_of ''GET /NavTo''" 0 kw_navto 5] by simp
qed

section \<open>Extracting the fields of a request\<close>

lemma slice_append: "slice p x (m + n) = slice p x m @ slice p (x + m) n"
  by (rule nth_equalityI) (auto simp: nth_append add.assoc)

lemma slice_split:
  "slice p x (length (u @ v)) = u @ v \<longleftrightarrow> slice p x (length u) = u \<and> slice p (x + length u) (length v) = v"
  by (simp add: slice_append)

lemma slice_nth: "slice p x n = s \<Longrightarrow> k < n \<Longrightarrow> p (x + k) = s ! k"
  by auto

lemma slice_cong: "(\<And>k. k < n \<Longrightarrow> p (x + k) = q (y + k)) \<Longrightarrow> slice p x n = slice q y n"
  by (rule nth_equalityI) auto

definition kw_word :: "keyword \<Rightarrow> string \<Rightarrow> bool" where
  "kw_word kw w \<longleftrightarrow> list_all2 (\<lambda>ab c. c = fst ab \<or> c = snd ab) kw w"

definition kw_start :: "keyword \<Rightarrow> char \<Rightarrow> bool" where
  "kw_start kw c \<longleftrightarrow> c = fst (hd kw) \<or> c = snd (hd kw)"

lemma kw_match_word: "slice p x (length w) = w \<Longrightarrow> kw_word kw w \<Longrightarrow> kw_match p x kw"
proof (induction kw arbitrary: x w)
  case Nil
  then show ?case by simp
next
  case (Cons ab kw)
  then obtain c w' where w: "w = c # w'" by (cases w) (auto simp: kw_word_def)
  with Cons.prems have "p x = c" "slice p (Suc x) (length w') = w'" by (auto simp: slice_Suc)
  with Cons w show ?case by (cases ab) (auto simp: kw_word_def)
qed

lemma kw_match_start: "kw_match p y kw \<Longrightarrow> kw_ok kw \<Longrightarrow> kw_start kw (p y)"
  by (cases kw) (auto simp: kw_ok_def kw_start_def)

lemma kw_match_cong: "(\<And>k. k < length kw \<Longrightarrow> p (y + k) = q (y + k)) \<Longrightarrow> kw_match p y kw = kw_match q y kw"
proof (induction kw arbitrary: y)
  case Nil
  then show ?case by simp
next
  case (Cons ab kw)
  have "p y = q y" using Cons.prems [of 0] by simp
  moreover have "kw_match p (Suc y) kw = kw_match q (Suc y) kw"
  proof (rule Cons.IH)
    fix k
    assume "k < length kw"
    then show "p (Suc y + k) = q (Suc y + k)" using Cons.prems [of "Suc k"] by simp
  qed
  ultimately show ?case by (cases ab) simp
qed

lemma find_kw_text:
  assumes len: "len < IOBUF_SIZE" "p len = NUL" and kw: "kw_ok kw" "kw_word kw w"
    and sl: "slice p x (length (u @ w)) = u @ w" "x + length u < len" and u: "\<forall>c\<in>set u. \<not> kw_start kw c"
  shows "find_kw p kw x len = Inr (x + length u)"
proof (rule find_kw_first [where p = p and len = len and kw = kw])
  have s: "slice p x (length u) = u" "slice p (x + length u) (length w) = w" using sl(1) slice_split by blast+
  show "kw_match p (x + length u) kw" using kw_match_word [OF s(2) kw(2)] .
  fix y
  assume "x \<le> y" "y < x + length u"
  then obtain k where k: "y = x + k" "k < length u" by (metis add_less_cancel_left le_Suc_ex)
  then have "p y = u ! k" using slice_nth [OF s(1)] by simp
  then have "\<not> kw_start kw (p y)" using u k(2) by simp
  then show "\<not> kw_match p y kw" using kw_match_start [OF _ kw(1)] by blast
qed (use sl(2) len kw in auto)

lemma dot_scan_text:
  assumes "slice p d (length v) = v" and "\<forall>c\<in>set v. c \<noteq> CHR '' '' \<and> c \<noteq> CHR ''&''"
    and "p (d + length v) = CHR '' '' \<or> p (d + length v) = CHR ''&''"
    and "d + length v < IOBUF_SIZE" and "d + length v \<le> lim"
  shows "dot_scan p d lim = Inr (d + length v)"
  using assms
proof (induction v arbitrary: d)
  case Nil
  then show ?case by (subst dot_scan.simps) auto
next
  case (Cons c v)
  have "p d = c" "slice p (Suc d) (length v) = v" using Cons.prems(1) by (auto simp: slice_Suc)
  then have "dot_scan p (Suc d) lim = Inr (Suc d + length v)"
    using Cons.IH [of "Suc d"] Cons.prems(2-5) by simp
  with \<open>p d = c\<close> Cons.prems(2,4,5) show ?case by (subst dot_scan.simps) auto
qed

lemma get_coord_text:
  assumes "slice p (x + 7) (length v) = v" and "\<forall>c\<in>set v. c \<noteq> CHR '' '' \<and> c \<noteq> CHR ''&''"
    and "p (x + 7 + length v) = CHR '' '' \<or> p (x + 7 + length v) = CHR ''&''"
    and "x + 7 + length v < IOBUF_SIZE" and "length v < GPS_LEN"
  shows "get_coord p x = Inr (Some v)"
proof -
  have "dot_scan p (x + 7) (x + 7 + 11) = Inr (x + 7 + length v)"
    by (rule dot_scan_text) (use assms in auto)
  then show ?thesis
    unfolding get_coord_def using assms(1,4,5) by (simp only: rbind.simps) (simp add: copy_out_def)
qed

text \<open>The characters of the values: hexadecimal digits and the decimal point.\<close>

definition field_char :: "char \<Rightarrow> bool" where
  "field_char c \<longleftrightarrow> is_digit c \<or> c = CHR ''.'' \<or> c \<in> set ''abcdefABCDEF''"

lemma field_char_not:
  assumes "field_char c"
  shows "c \<noteq> CHR '' ''" "c \<noteq> CHR ''&''" "c \<noteq> pct" "c \<noteq> NUL" "\<not> kw_start kw_serial c" "\<not> kw_start kw_md5 c"
    "\<not> kw_start kw_xbaidu c" "\<not> kw_start kw_ybaidu c" "\<not> kw_start kw_navto c"
  using assms by (auto simp: field_char_def is_digit_def kw_start_def kw_defs pct_def)

definition request_body :: "string \<Rightarrow> string \<Rightarrow> string \<Rightarrow> string \<Rightarrow> string" where
  "request_body s m x y = ''serial='' @ s @ ''&md5='' @ m @ ''&xbaidu='' @ x @ ''&ybaidu='' @ y @ '' ''"

definition fields_ok :: "string \<Rightarrow> string \<Rightarrow> string \<Rightarrow> string \<Rightarrow> bool" where
  "fields_ok s m x y \<longleftrightarrow> length s = SERIAL_LEN \<and> length m = MD5_LEN \<and> length x < GPS_LEN \<and> length y < GPS_LEN
     \<and> (\<forall>c\<in>set (s @ m @ x @ y). field_char c)"

lemma length_request_body:
  "fields_ok s m x y \<Longrightarrow> length (request_body s m x y) = 76 + length x + length y"
  by (simp add: request_body_def fields_ok_def)

lemma parse_fields_request:
  assumes ok: "fields_ok s m x y" and sl: "slice (iobuf c) j (length (request_body s m x y)) = request_body s m x y"
    and len: "j + length (request_body s m x y) \<le> len" "len < IOBUF_SIZE" "iobuf c len = NUL"
  shows "parse_fields j len c = Inr (c\<lparr>serial := s, md5 := Some m, xbaidu := Some x, ybaidu := Some y, status := 1\<rparr>,
     [ENotify (cfd c)])"
proof -
  let ?p = "iobuf c"
  have L: "length s = 15" "length m = 32" "length x < 11" "length y < 11" using ok by (auto simp: fields_ok_def)
  have l: "j + (76 + length x + length y) \<le> len" using len(1) length_request_body [OF ok] by simp
  have ch: "\<forall>c\<in>set s. field_char c" "\<forall>c\<in>set m. field_char c" "\<forall>c\<in>set x. field_char c" "\<forall>c\<in>set y. field_char c"
    using ok by (auto simp: fields_ok_def)
  have cut: "slice ?p (j + n) (length w) = w" if "request_body s m x y = u @ w @ v" "length u = n" for u v w n
    using sl that by (metis append_assoc slice_split)
  let ?us = "''serial='' @ s" and ?um = "''serial='' @ s @ ''&md5='' @ m"
    and ?ux = "''serial='' @ s @ ''&md5='' @ m @ ''&xbaidu='' @ x"
  have t1: "slice ?p j (length (''serial'')) = ''serial''"
    using cut [of "[]" "''serial''" _ 0] by (simp add: request_body_def)
  have t2: "slice ?p j (length ((?us @ ''&'') @ ''md5'')) = (?us @ ''&'') @ ''md5''"
    using cut [of "[]" "(?us @ ''&'') @ ''md5''" _ 0] by (simp add: request_body_def)
  have t3: "slice ?p j (length ((?um @ ''&'') @ ''xbaidu'')) = (?um @ ''&'') @ ''xbaidu''"
    using cut [of "[]" "(?um @ ''&'') @ ''xbaidu''" _ 0] by (simp add: request_body_def)
  have t4: "slice ?p j (length ((?ux @ ''&'') @ ''ybaidu'')) = (?ux @ ''&'') @ ''ybaidu''"
    using cut [of "[]" "(?ux @ ''&'') @ ''ybaidu''" _ 0] by (simp add: request_body_def)
  have v1: "slice ?p (j + 7) 15 = s" using cut [of "''serial=''" s _ 7] L by (simp add: request_body_def)
  have v2: "slice ?p (j + 27) 32 = m" using cut [of "?us @ ''&md5=''" m _ 27] L by (simp add: request_body_def)
  have v2': "slice ?p (27 + j) 32 = m" using v2 by (simp only: add.commute)
  have v3: "slice ?p (j + 67) (length x) = x" using cut [of "?um @ ''&xbaidu=''" x _ 67] L by (simp add: request_body_def)
  have v4: "slice ?p (j + (75 + length x)) (length y) = y"
    using cut [of "?ux @ ''&ybaidu=''" y _ "75 + length x"] L by (simp add: request_body_def add.assoc)
  have a3: "?p (j + 67 + length x) = CHR ''&''"
    using cut [of "?um @ ''&xbaidu='' @ x" "''&''" _ "67 + length x"] L by (simp add: request_body_def slice_Suc add.assoc)
  have a4: "?p (j + (75 + length x) + length y) = CHR '' ''"
    using cut [of "?ux @ ''&ybaidu='' @ y" "'' ''" _ "75 + length x + length y"] L by (simp add: request_body_def slice_Suc add.assoc)
  have find: "find_kw ?p kw j len = Inr (j + n)"
    if "slice ?p j (length (u @ w)) = u @ w" "kw_ok kw" "kw_word kw w" "length u = n" "j + n < len" "\<forall>c\<in>set u. \<not> kw_start kw c"
    for kw u w n
    using find_kw_text [of len ?p kw w j u] len(2,3) that by simp
  note words = kw_ok_def kw_word_def kw_start_def kw_defs
  have f1: "find_kw ?p kw_serial j len = Inr (j + 0)"
    by (rule find [of "[]" "''serial''"]) (use t1 l in \<open>simp_all add: words\<close>)
  have f2: "find_kw ?p kw_md5 j len = Inr (j + 23)"
    by (rule find [OF t2]) (use l L field_char_not(6) ch in \<open>auto simp: words\<close>)
  have f3: "find_kw ?p kw_xbaidu j len = Inr (j + 60)"
    by (rule find [OF t3]) (use l L field_char_not(7) ch in \<open>auto simp: words\<close>)
  have f4: "find_kw ?p kw_ybaidu j len = Inr (j + (68 + length x))"
    by (rule find [OF t4]) (use l L field_char_not(8) ch in \<open>auto simp: words\<close>)
  have g3: "get_coord ?p (j + 60) = Inr (Some x)"
    by (rule get_coord_text) (use v3 a3 l L len(2) ch field_char_not(1,2) in \<open>auto simp: add.assoc\<close>)
  have e: "j + (68 + length x) + 7 = j + (75 + length x)" by simp
  have g4: "get_coord ?p (j + (68 + length x)) = Inr (Some y)"
    by (rule get_coord_text; (unfold e)?) (use v4 a4 l L len(2) ch field_char_not(1,2) in auto)
  show ?thesis
    using l len(2) v1 v2' f1 f2 f3 f4 g3 g4
    by (simp add: parse_fields_def get_serial_def get_md5_def get_xbaidu_def get_ybaidu_def copy_out_def)
qed

section \<open>Requests in one and in two pieces\<close>

text \<open>A buffer whose text can be logged: no percent sign, and room for the decoration of the line.\<close>

definition loggable :: "(nat \<Rightarrow> char) \<Rightarrow> bool" where
  "loggable p \<longleftrightarrow> (\<forall>k. p k \<noteq> pct) \<and> (\<forall>k\<ge>4065. p k = NUL)"

lemma pad0_no_pct: "pct \<notin> set (pad0 w i)"
proof -
  have "pct \<notin> set (dec n)" for n using dec_digits [of pct n] by (auto simp: is_digit_def pct_def)
  then show ?thesis by (auto simp: pad0_def pct_def)
qed

lemma pad0_no_nul: "NUL \<notin> set (pad0 w i)"
proof -
  have "NUL \<notin> set (dec n)" for n using dec_digits [of NUL n] by (auto simp: is_digit_def)
  then show ?thesis by (auto simp: pad0_def)
qed

lemma getnowdate_chars: "getnowdate ltm = Inr d \<Longrightarrow> pct \<notin> set d \<and> NUL \<notin> set d \<and> length d < 20"
  using pad0_no_pct pad0_no_nul by (auto simp: getnowdate_def Let_def pct_def split: if_splits)

lemma buf_text_loggable:
  assumes "loggable (iobuf c)"
  shows "\<exists>t. buf_text c = Inr t \<and> pct \<notin> set t \<and> NUL \<notin> set t \<and> length t \<le> 4065"
proof -
  let ?s = "slice (iobuf c) 0 IOBUF_SIZE"
  have nul: "?s ! 4065 = NUL" using assms by (simp add: loggable_def)
  have "length (cstr ?s) \<le> 4065"
  proof (rule ccontr)
    assume "\<not> ?thesis"
    then have l: "4065 < length (takeWhile (\<lambda>c. c \<noteq> NUL) ?s)" by (simp add: cstr_def)
    then have "takeWhile (\<lambda>c. c \<noteq> NUL) ?s ! 4065 \<in> set (takeWhile (\<lambda>c. c \<noteq> NUL) ?s)" by (rule nth_mem)
    then show False using takeWhile_nth [OF l] nul set_takeWhileD by fastforce
  qed
  moreover have "NUL \<in> set ?s" using nth_mem [of 4065 ?s] nul by simp
  moreover have "pct \<notin> set ?s"
  proof
    assume "pct \<in> set ?s"
    then obtain k where "pct = iobuf c k" by (auto simp: slice_def)
    then show False using assms by (metis loggable_def)
  qed
  then have "pct \<notin> set (cstr ?s)" by (auto simp: cstr_def dest: set_takeWhileD)
  ultimately show ?thesis using nul_notin_cstr [of ?s] by (simp add: buf_text_def Let_def)
qed

lemma log_request_ok:
  assumes "loggable (iobuf c)" and "getnowdate ltm = Inr d"
  shows "\<exists>l. log_request ltm c = Inr (ELog l)"
proof -
  obtain t where t: "buf_text c = Inr t" "pct \<notin> set t" "NUL \<notin> set t" "length t \<le> 4065"
    using buf_text_loggable [OF assms(1)] by auto
  let ?m = "''[get]['' @ d @ ''][''  @ t @ ''].''"
  have d: "pct \<notin> set d" "NUL \<notin> set d" "length d < 20" using getnowdate_chars [OF assms(2)] by auto
  have "NUL \<notin> set ?m" "pct \<notin> set ?m" using d t by (auto simp: pct_def)
  then have "log_msg ?m [] = Inr (LOG_INFO, ?m @ [CHR 0x0A])" using log_msg_plain [of ?m "[]"] d t by simp
  then show ?thesis using assms(2) t(1) by (simp add: log_request_def)
qed

lemma loggable_store:
  "loggable p \<Longrightarrow> pct \<notin> set bs \<Longrightarrow> o' + length bs \<le> 4065 \<Longrightarrow> loggable (store p o' bs)"
  by (auto simp: loggable_def store_def) (metis nth_mem add.commute less_diff_conv2)

text \<open>What the buffer holds once \<open>bs\<close> has arrived.\<close>

definition arrived :: "'d CClient \<Rightarrow> string \<Rightarrow> string" where
  "arrived c bs = slice (iobuf c) 0 (offset c) @ bs"

definition first_navto :: "string \<Rightarrow> nat \<Rightarrow> bool" where
  "first_navto r i \<longleftrightarrow> (\<forall>y<i. \<not> kw_match (buf_of r) y kw_navto)"

lemma arrived_buffer:
  assumes "p = (store (iobuf c) (offset c) bs)(length (arrived c bs) := NUL)"
  shows "slice p 0 (length (arrived c bs)) = arrived c bs" "p (length (arrived c bs)) = NUL"
  using assms by (auto simp: arrived_def nth_append store_def intro!: nth_equalityI)

lemma find_navto:
  assumes "slice p 0 (length r) = r" and "p (length r) = NUL" and "length r < IOBUF_SIZE"
    and "r = pre @ ''navto'' @ t" and "first_navto r (length pre)"
  shows "find_kw p kw_navto 0 (length r) = Inr (length pre)"
proof (rule find_kw_first [where p = p and len = "length r" and kw = kw_navto])
  have eq: "p k = buf_of r k" if "k < length r" for k
    using slice_nth [OF assms(1) that] that by (simp add: buf_of_def)
  have w: "slice p (length pre) (length ''navto'') = ''navto''"
    using assms(1,4) by (metis add_0 slice_split append_assoc)
  show "kw_match p (length pre) kw_navto"
    by (rule kw_match_word [OF w]) (simp add: kw_word_def kw_navto_def)
  fix y
  assume y: "y < length pre"
  have "kw_match p y kw_navto = kw_match (buf_of r) y kw_navto"
  proof (rule kw_match_cong)
    fix k
    assume "k < length kw_navto"
    then have "y + k < length r" using y assms(4) by (simp add: kw_navto_def)
    then show "p (y + k) = buf_of r (y + k)" by (rule eq)
  qed
  then show "\<not> kw_match p y kw_navto" using assms(5) y by (simp add: first_navto_def)
qed (use assms in auto)

lemma receive_complete_buffer:
  assumes log: "loggable (iobuf c)" "getnowdate ltm = Inr d" "pct \<notin> set bs"
    and bs: "bs \<noteq> []" "length (arrived c bs) \<le> 4065"
    and req: "arrived c bs = pre @ ''navto?'' @ request_body s m x y @ rest" "first_navto (arrived c bs) (length pre)"
    and ok: "fields_ok s m x y" "IN_DATA_LEN \<le> length (request_body s m x y @ rest)"
  shows "\<exists>l p. receive mode ltm c (Some bs) = Inr (c\<lparr>iobuf := p, serial := s, md5 := Some m, xbaidu := Some x,
      ybaidu := Some y, status := 1\<rparr>, [say ''CClient::receive'', ELog l, ENotify (cfd c)]) \<and> loggable p"
proof -
  let ?q = "store (iobuf c) (offset c) bs" and ?r = "arrived c bs"
  let ?p = "?q(length ?r := NUL)"
  have len: "length ?r = length bs + offset c" by (simp add: arrived_def)
  have lq: "loggable ?q" using loggable_store [OF log(1,3), of "offset c"] bs(2) len by simp
  then have lp: "loggable ?p" by (auto simp: loggable_def pct_def)
  obtain l where l: "log_request ltm (c\<lparr>iobuf := ?q\<rparr>) = Inr (ELog l)"
    using log_request_ok [of "c\<lparr>iobuf := ?q\<rparr>" ltm d] lq log(2) by auto
  have buf: "slice ?p 0 (length ?r) = ?r" "?p (length ?r) = NUL" using arrived_buffer [of ?p c bs] by auto
  have i: "find_kw ?p kw_navto 0 (length ?r) = Inr (length pre)"
    by (rule find_navto [OF buf, of pre "''?'' @ request_body s m x y @ rest"]) (use bs req in auto)
  have sl: "slice ?p (length pre + 6) (length (request_body s m x y)) = request_body s m x y"
    using buf(1) req(1) slice_split [of ?p 0 "pre @ ''navto?''" "request_body s m x y @ rest"]
      slice_split [of ?p "length pre + 6" "request_body s m x y" rest] by (simp add: eval_nat_numeral)
  have rlen: "length pre + 6 + length (request_body s m x y @ rest) = length ?r" using req(1) by simp
  have f: "parse_fields (length pre + 6) (length ?r) (c\<lparr>iobuf := ?p\<rparr>) = Inr (c\<lparr>iobuf := ?p, serial := s, md5 := Some m,
      xbaidu := Some x, ybaidu := Some y, status := 1\<rparr>, [ENotify (cfd c)])"
    using parse_fields_request [OF ok(1), of "c\<lparr>iobuf := ?p\<rparr>" "length pre + 6" "length ?r"] sl rlen buf(2) bs(2)
    by simp
  have p: "parse mode ltm (c\<lparr>iobuf := ?q\<rparr>) (length bs) = Inr (c\<lparr>iobuf := ?p, serial := s, md5 := Some m,
      xbaidu := Some x, ybaidu := Some y, status := 1\<rparr>, [ELog l, ENotify (cfd c)])"
    using l i f bs rlen ok(2) len by (simp add: parse_def Let_def)
  have "take (MAXBUF - offset c) bs = bs" using len bs(2) by simp
  with bs p have "receive mode ltm c (Some bs) = Inr (c\<lparr>iobuf := ?p, serial := s, md5 := Some m, xbaidu := Some x,
      ybaidu := Some y, status := 1\<rparr>, [say ''CClient::receive'', ELog l, ENotify (cfd c)])" by (auto simp: receive_def Let_def)
  with lp show ?thesis by blast
qed

lemma receive_complete:
  assumes log: "loggable (iobuf c)" "getnowdate ltm = Inr d" "pct \<notin> set bs"
    and bs: "bs \<noteq> []" "length (arrived c bs) \<le> 4065"
    and req: "arrived c bs = pre @ ''navto?'' @ request_body s m x y @ rest" "first_navto (arrived c bs) (length pre)"
    and ok: "fields_ok s m x y" "IN_DATA_LEN \<le> length (request_body s m x y @ rest)"
  shows "\<exists>l p. receive mode ltm c (Some bs) = Inr (c\<lparr>iobuf := p, serial := s, md5 := Some m, xbaidu := Some x,
      ybaidu := Some y, status := 1\<rparr>, [say ''CClient::receive'', ELog l, ENotify (cfd c)])"
  using receive_complete_buffer [OF assms] by blast

lemma receive_partial:
  assumes log: "loggable (iobuf c)" "getnowdate ltm = Inr d" "pct \<notin> set bs"
    and bs: "bs \<noteq> []" "length (arrived c bs) \<le> 4065"
    and req: "arrived c bs = pre @ ''navto'' @ t" "first_navto (arrived c bs) (length pre)" "length t < 88"
    and mode: "mode = CopyForward \<or> length t + 5 \<le> length pre"
  shows "\<exists>l p. receive mode ltm c (Some bs) = Inr (c\<lparr>iobuf := p, offset := length t + 5\<rparr>, [say ''CClient::receive'', ELog l])
     \<and> slice p 0 (length t + 5) = ''navto'' @ t \<and> loggable p"
proof -
  let ?q = "store (iobuf c) (offset c) bs" and ?r = "arrived c bs" and ?n = "length t + 5"
  let ?p = "?q(length ?r := NUL)"
  let ?p' = "(moved ?p 0 (length pre) ?n)(?n := NUL)"
  have len: "length ?r = length bs + offset c" by (simp add: arrived_def)
  have lq: "loggable ?q" using loggable_store [OF log(1,3), of "offset c"] bs(2) len by simp
  obtain l where l: "log_request ltm (c\<lparr>iobuf := ?q\<rparr>) = Inr (ELog l)"
    using log_request_ok [of "c\<lparr>iobuf := ?q\<rparr>" ltm d] lq log(2) by auto
  have buf: "slice ?p 0 (length ?r) = ?r" "?p (length ?r) = NUL" using arrived_buffer [of ?p c bs] by auto
  have i: "find_kw ?p kw_navto 0 (length ?r) = Inr (length pre)"
    by (rule find_navto [OF buf _ req(1,2)]) (use bs in auto)
  have rlen: "length ?r = length pre + ?n" using req(1) by simp
  have "memcpy mode IOBUF_SIZE ?p 0 (length pre) ?n = Inr (moved ?p 0 (length pre) ?n)"
    using mode rlen bs(2) memcpy_forward_down [of 0 "length pre" ?n IOBUF_SIZE ?p]
      memcpy_disjoint [of 0 ?n IOBUF_SIZE "length pre" mode ?p] by (auto simp: overlap_def)
  then have k: "keep_tail mode (length pre) (length ?r) (c\<lparr>iobuf := ?p\<rparr>) = Inr (c\<lparr>iobuf := ?p', offset := ?n\<rparr>)"
    using rlen bs(2) by (simp add: keep_tail_def Let_def)
  have p: "parse mode ltm (c\<lparr>iobuf := ?q\<rparr>) (length bs) = Inr (c\<lparr>iobuf := ?p', offset := ?n\<rparr>, [ELog l])"
    using l i k bs rlen req(3) len by (simp add: parse_def Let_def)
  have "take (MAXBUF - offset c) bs = bs" using len bs(2) by simp
  with bs p have "receive mode ltm c (Some bs) = Inr (c\<lparr>iobuf := ?p', offset := ?n\<rparr>, [say ''CClient::receive'', ELog l])"
    by (auto simp: receive_def Let_def)
  moreover have "slice ?p' 0 ?n = ''navto'' @ t"
  proof -
    have "slice ?p' 0 ?n = slice ?p (length pre) ?n" by (rule slice_cong) (simp add: moved_def)
    also have "\<dots> = ''navto'' @ t"
      using buf(1) req(1) slice_split [of ?p 0 pre "''navto'' @ t"] by (simp add: eval_nat_numeral)
    finally show ?thesis .
  qed
  moreover have "loggable ?p'" using lq rlen bs(2) by (auto simp: loggable_def moved_def pct_def)
  ultimately show ?thesis by blast
qed

lemma new_client_simps [simp]:
  "offset (new_CClient now fd) = 0" "cfd (new_CClient now fd) = fd" "iobuf (new_CClient now fd) = (\<lambda>_. NUL)"
  "status (new_CClient now fd) = 0" "serial (new_CClient now fd) = []" "delay_time (new_CClient now fd) = now"
  by (simp_all add: new_CClient_def ini_def)

lemma loggable_new [simp]: "loggable (\<lambda>_. NUL)"
  by (simp add: loggable_def pct_def)

lemma arrived_new [simp]: "arrived (new_CClient now fd) bs = bs"
  by (simp add: arrived_def)

lemma first_navto_take:
  assumes "first_navto r i" and "i + 5 \<le> n" and "n \<le> length r"
  shows "first_navto (take n r) i"
  unfolding first_navto_def
proof (intro allI impI)
  fix y
  assume y: "y < i"
  have "kw_match (buf_of (take n r)) y kw_navto = kw_match (buf_of r) y kw_navto"
    by (rule kw_match_cong) (use y assms in \<open>auto simp: buf_of_def kw_navto_def store_def\<close>)
  then show "\<not> kw_match (buf_of (take n r)) y kw_navto" using assms(1) y by (simp add: first_navto_def)
qed

text \<open>
  C4. A well-formed request that arrives in one piece on a new connection: the four values are
  extracted exactly as sent, the connection is marked as complete and the workers are notified of
  its descriptor.
\<close>

theorem request_in_one_piece:
  assumes "getnowdate ltm = Inr d" and "r = pre @ ''navto?'' @ request_body s m x y @ rest"
    and "pct \<notin> set r" and "length r \<le> 4065" and "first_navto r (length pre)" and "fields_ok s m x y"
    and "IN_DATA_LEN \<le> length (request_body s m x y @ rest)"
  shows "\<exists>l c. receive mode ltm (new_CClient now fd) (Some r) = Inr (c, [say ''CClient::receive'', ELog l, ENotify fd])
     \<and> serial c = s \<and> md5 c = Some m \<and> xbaidu c = Some x \<and> ybaidu c = Some y \<and> status c = 1 \<and> cfd c = fd"
proof -
  let ?c = "new_CClient now fd :: 'a CClient"
  let ?c' = "\<lambda>p. ?c\<lparr>iobuf := p, serial := s, md5 := Some m, xbaidu := Some x, ybaidu := Some y, status := 1\<rparr>"
  have "\<exists>l p. receive mode ltm ?c (Some r) = Inr (?c' p, [say ''CClient::receive'', ELog l, ENotify (cfd ?c)])"
    by (rule receive_complete) (use assms in simp_all)
  then obtain l p where "receive mode ltm ?c (Some r) = Inr (?c' p, [say ''CClient::receive'', ELog l, ENotify fd])"
    by auto
  then show ?thesis by (intro exI [of _ l] exI [of _ "?c' p"]) simp
qed

definition sample_request :: string where
  "sample_request = ''GET /api/car/'' @ ''navto?'' @
     request_body ''356823032255122'' ''2eb399b9588b1ac2ccc35dce6f266033'' ''114.73427'' ''10.640487'' @ ''HTTP/1.1''"

definition sample_tm :: tm where
  "sample_tm = \<lparr>tm_year = 113, tm_mon = 3, tm_mday = 8, tm_hour = 10, tm_min = 20, tm_sec = 30\<rparr>"

lemma sample_tm_date: "getnowdate sample_tm = Inr ''2013-04-08 10:20:30''"
  by code_simp

lemma sample_fields_ok: "fields_ok ''356823032255122'' ''2eb399b9588b1ac2ccc35dce6f266033'' ''114.73427'' ''10.640487''"
  by (simp add: fields_ok_def field_char_def is_digit_def)

lemma sample_request_facts:
  "pct \<notin> set sample_request" "length sample_request = 121"
  by (simp_all add: sample_request_def request_body_def pct_def)

lemma first_navto_start: "\<forall>c\<in>set pre. \<not> kw_start kw_navto c \<Longrightarrow> first_navto (pre @ t) (length pre)"
  unfolding first_navto_def
proof (intro allI impI notI)
  fix y
  assume h: "\<forall>c\<in>set pre. \<not> kw_start kw_navto c" "y < length pre" "kw_match (buf_of (pre @ t)) y kw_navto"
  then have "kw_start kw_navto (buf_of (pre @ t) y)" using kw_match_start kw_ok_all(1) by blast
  moreover have "buf_of (pre @ t) y = pre ! y" using h(2) by (simp add: buf_of_def nth_append)
  ultimately show False using h(1,2) by simp
qed

lemma sample_first_navto: "first_navto sample_request (length ''GET /api/car/'')"
  unfolding sample_request_def by (rule first_navto_start) (simp add: kw_start_def kw_navto_def)

lemma sample_body_length:
  "IN_DATA_LEN \<le> length (request_body ''356823032255122'' ''2eb399b9588b1ac2ccc35dce6f266033'' ''114.73427'' ''10.640487'' @ ''HTTP/1.1'')"
  by (simp add: request_body_def)

theorem request_in_one_piece_witness:
  "\<exists>l c. receive CopyStrict sample_tm (new_CClient 0 7 :: int CClient) (Some sample_request)
       = Inr (c, [say ''CClient::receive'', ELog l, ENotify 7])
     \<and> serial c = ''356823032255122'' \<and> md5 c = Some ''2eb399b9588b1ac2ccc35dce6f266033''
     \<and> xbaidu c = Some ''114.73427'' \<and> ybaidu c = Some ''10.640487'' \<and> status c = 1 \<and> cfd c = 7"
  by (rule request_in_one_piece [OF sample_tm_date sample_request_def _ _ sample_first_navto sample_fields_ok sample_body_length])
    (simp_all add: sample_request_facts)

text \<open>
  C5. The same request cut in two anywhere after the command word and before \<open>IN_DATA_LEN\<close>, 87, bytes behind it
  have arrived (a longer first piece is parsed at once): the first piece is kept at the front of the buffer, and with the second
  piece the connection ends with the same values and the same notification as in one piece. The
  platform's \<open>memcpy\<close> must copy upwards, or the kept tail must not overlap its new place.
\<close>

theorem request_in_two_pieces:
  assumes date: "getnowdate ltm = Inr d" and r: "r = pre @ ''navto?'' @ request_body s m x y @ rest"
    and plain: "pct \<notin> set r" "length r \<le> 4065" and first: "first_navto r (length pre)" and ok: "fields_ok s m x y"
    and full: "IN_DATA_LEN \<le> length (request_body s m x y @ rest)"
    and n: "length pre + 5 \<le> n" "n < length pre + 6 + IN_DATA_LEN" "n < length r"
    and mode: "mode = CopyForward \<or> n \<le> 2 * length pre"
  shows "\<exists>l1 l2 c1 c. receive mode ltm (new_CClient now fd) (Some (take n r)) = Inr (c1, [say ''CClient::receive'', ELog l1])
     \<and> receive mode ltm c1 (Some (drop n r)) = Inr (c, [say ''CClient::receive'', ELog l2, ENotify fd])
     \<and> serial c = s \<and> md5 c = Some m \<and> xbaidu c = Some x \<and> ybaidu c = Some y \<and> status c = 1 \<and> cfd c = fd"
proof -
  let ?c = "new_CClient now fd :: 'a CClient"
  define b where "b = ''?'' @ request_body s m x y @ rest"
  let ?tl = "''navto'' @ b" and ?k = "n - length pre" and ?t = "take (n - length pre - 5) b"
  have rb: "r = pre @ ?tl" by (simp add: r b_def)
  have navto: "length ''navto'' = 5" "take ?k ''navto'' = ''navto''" using n(1) by simp_all
  have t: "take ?k ?tl = ''navto'' @ ?t" "drop ?k ?tl = drop n r" "length ?t + 5 = ?k"
    using n navto(1) unfolding take_append navto rb by simp_all
  have rt: "take n r = pre @ ''navto'' @ ?t" using n(1) unfolding rb take_append [of n pre] t(1) by simp
  have "\<exists>l p. receive mode ltm ?c (Some (take n r)) = Inr (?c\<lparr>iobuf := p, offset := length ?t + 5\<rparr>, [say ''CClient::receive'', ELog l])
     \<and> slice p 0 (length ?t + 5) = ''navto'' @ ?t \<and> loggable p"
  proof (rule receive_partial [where pre = pre and d = d])
    show "pct \<notin> set (take n r)" using plain(1) in_set_takeD by fast
    show "take n r \<noteq> []" "length (arrived ?c (take n r)) \<le> 4065" using n plain(2) by auto
    show "arrived ?c (take n r) = pre @ ''navto'' @ ?t" using rt by (simp only: arrived_new)
    show "first_navto (arrived ?c (take n r)) (length pre)" using first_navto_take [OF first n(1)] n(3) by simp
    show "length ?t < 88" "mode = CopyForward \<or> length ?t + 5 \<le> length pre" using t(3) n mode by linarith+
  qed (use date in simp_all)
  then obtain l1 p where c1: "receive mode ltm ?c (Some (take n r)) = Inr (?c\<lparr>iobuf := p, offset := ?k\<rparr>, [say ''CClient::receive'', ELog l1])"
    and p: "slice p 0 ?k = take ?k ?tl" "loggable p" using t by auto
  let ?c1 = "?c\<lparr>iobuf := p, offset := ?k\<rparr>"
  have arr: "arrived ?c1 (drop n r) = [] @ ''navto?'' @ request_body s m x y @ rest"
    using p(1) t(2) append_take_drop_id [of ?k ?tl] by (simp add: arrived_def b_def)
  have "\<exists>l p. receive mode ltm ?c1 (Some (drop n r)) = Inr (?c1\<lparr>iobuf := p, serial := s, md5 := Some m, xbaidu := Some x,
      ybaidu := Some y, status := 1\<rparr>, [say ''CClient::receive'', ELog l, ENotify (cfd ?c1)])"
  proof (rule receive_complete [OF _ date _ _ _ arr _ ok full])
    show "pct \<notin> set (drop n r)" using plain(1) in_set_dropD by fast
    show "drop n r \<noteq> []" using n(3) by simp
    show "length (arrived ?c1 (drop n r)) \<le> 4065" using plain(2) n by (simp add: arrived_def)
  qed (use p(2) in \<open>simp_all add: first_navto_def\<close>)
  then obtain l2 q where "receive mode ltm ?c1 (Some (drop n r)) = Inr (?c1\<lparr>iobuf := q, serial := s, md5 := Some m, xbaidu := Some x,
      ybaidu := Some y, status := 1\<rparr>, [say ''CClient::receive'', ELog l2, ENotify fd])" by auto
  with c1 show ?thesis
    by (intro exI [of _ l1] exI [of _ l2] exI [of _ ?c1] exI [of _ "?c1\<lparr>iobuf := q, serial := s, md5 := Some m,
        xbaidu := Some x, ybaidu := Some y, status := 1\<rparr>"]) simp
qed

theorem request_in_two_pieces_witness:
  "\<exists>l1 l2 c1 c. receive CopyForward sample_tm (new_CClient 0 7 :: int CClient) (Some (take 60 sample_request))
       = Inr (c1, [say ''CClient::receive'', ELog l1])
     \<and> receive CopyForward sample_tm c1 (Some (drop 60 sample_request)) = Inr (c, [say ''CClient::receive'', ELog l2, ENotify 7])
     \<and> serial c = ''356823032255122'' \<and> md5 c = Some ''2eb399b9588b1ac2ccc35dce6f266033''
     \<and> xbaidu c = Some ''114.73427'' \<and> ybaidu c = Some ''10.640487'' \<and> status c = 1 \<and> cfd c = 7"
  by (rule request_in_two_pieces [OF sample_tm_date sample_request_def _ _ sample_first_navto sample_fields_ok sample_body_length])
    (simp_all add: sample_request_facts)

section \<open>The buffer invariant\<close>

text \<open>A step of the connection: one \<open>receive\<close>, its effects left aside.\<close>

definition recv_step :: "copy_sem \<Rightarrow> tm \<Rightarrow> 'd CClient \<Rightarrow> string option \<Rightarrow> 'd CClient res" where
  "recv_step mode ltm c avail = rbind (receive mode ltm c avail) (\<lambda>ce. Inr (fst ce))"

definition buf_inv :: "'d CClient \<Rightarrow> bool" where
  "buf_inv c \<longleftrightarrow> offset c \<le> 92 \<and> iobuf c MAXBUF = NUL"

lemma parse_fields_buffer:
  "parse_fields j len c = Inr (c', es) \<Longrightarrow> offset c' = offset c \<and> iobuf c' = iobuf c \<and> cfd c' = cfd c"
  by (auto simp: parse_fields_def get_serial_def get_md5_def get_xbaidu_def get_ybaidu_def
      split: prod.splits option.splits if_splits)

lemma keep_tail_inv:
  assumes "keep_tail mode i len c = Inr c'" and "iobuf c MAXBUF = NUL" and "i < len" and "len < i + 93"
  shows "buf_inv c' \<and> cfd c' = cfd c"
proof -
  obtain p where p: "memcpy mode IOBUF_SIZE (iobuf c) 0 i (len - i) = Inr p"
    and c': "c' = c\<lparr>offset := len - i, iobuf := p(len - i := NUL)\<rparr>"
    using assms(1) by (auto simp: keep_tail_def Let_def)
  have "p MAXBUF = iobuf c MAXBUF" using memcpy_outside [OF p] assms(4) by simp
  moreover have "len - i \<le> 92" using assms(4) by linarith
  ultimately show ?thesis using c' assms(2) by (auto simp: buf_inv_def)
qed

lemma parse_inv:
  assumes "parse mode ltm c n = Inr (c', es)" and "offset c \<le> 92" and "iobuf c MAXBUF = NUL"
  shows "buf_inv c' \<and> cfd c' = cfd c"
proof (cases "0 < n")
  case False
  then show ?thesis using assms by (auto simp: parse_def buf_inv_def)
next
  case True
  let ?len = "n + offset c"
  obtain l i where l: "log_request ltm c = Inr l" and len: "?len < IOBUF_SIZE"
    and i: "find_kw ((iobuf c)(?len := NUL)) kw_navto 0 ?len = Inr i"
    using assms(1) True by (auto simp: parse_def Let_def)
  let ?c = "c\<lparr>iobuf := (iobuf c)(?len := NUL)\<rparr>"
  have nul: "iobuf ?c MAXBUF = NUL" using assms(3) by simp
  consider (none) "\<not> i < ?len" "c' = ?c"
    | (part) "i < ?len" "?len < i + 93" "keep_tail mode i ?len ?c = Inr c'"
    | (full) es' where "parse_fields (i + 6) ?len ?c = Inr (c', es')"
    using assms(1) True l len i by (auto simp: parse_def Let_def split: if_splits prod.splits)
  then show ?thesis
  proof cases
    case none
    then show ?thesis using assms nul by (simp add: buf_inv_def)
  next
    case part
    then show ?thesis using keep_tail_inv [OF part(3) nul] by simp
  next
    case full
    then show ?thesis using parse_fields_buffer [OF full] assms(2) nul by (simp add: buf_inv_def)
  qed
qed

lemma receive_inv:
  assumes "receive mode ltm c avail = Inr (c', es)" and "buf_inv c"
  shows "buf_inv c' \<and> cfd c' = cfd c"
proof (cases avail)
  case None
  then show ?thesis using assms by (auto simp: receive_def)
next
  case (Some bs)
  let ?got = "take (MAXBUF - offset c) bs"
  show ?thesis
  proof (cases "?got = []")
    case True
    then show ?thesis using assms Some by (auto simp: receive_def Let_def)
  next
    case False
    let ?c = "c\<lparr>iobuf := store (iobuf c) (offset c) ?got\<rparr>"
    obtain es' where "parse mode ltm ?c (length ?got) = Inr (c', es')"
      using assms(1) Some False by (auto simp: receive_def Let_def split: prod.splits)
    moreover have "offset c + length ?got \<le> MAXBUF" using assms(2) by (auto simp: buf_inv_def)
    then have "iobuf ?c MAXBUF = NUL" using assms(2) by (simp add: buf_inv_def)
    ultimately show ?thesis using parse_inv [of mode ltm ?c "length ?got" c' es'] assms(2) by (simp add: buf_inv_def)
  qed
qed

interpretation conn: invariant_machine "recv_step mode ltm" "\<lambda>c. buf_inv c \<and> cfd c = fd" for mode ltm fd
  by unfold_locales (auto simp: recv_step_def dest!: receive_inv)

text \<open>
  Whatever a peer sends, in whatever pieces, and whatever \<open>memcpy\<close> does on overlapping
  regions: as long as the connection runs, at most 92 bytes of an incomplete request are held, so
  that \<open>recv\<close> always has room for at least 4004 more, the last byte of the buffer is NUL, and
  the object keeps its descriptor.
\<close>

theorem buffer_invariant:
  assumes "run_steps (recv_step mode ltm) (new_CClient now fd) pieces = Inr c"
  shows "offset c \<le> 92 \<and> 4004 \<le> MAXBUF - offset c \<and> iobuf c MAXBUF = NUL \<and> cfd c = fd"
proof -
  have "buf_inv (new_CClient now fd :: 'a CClient)" by (simp add: buf_inv_def)
  then show ?thesis using conn.run_inv [OF _ assms, of fd] by (auto simp: buf_inv_def)
qed

theorem buffer_invariant_witness:
  "\<exists>c. run_steps (recv_step CopyStrict sample_tm) (new_CClient 0 7 :: int CClient) [None, Some []] = Inr c \<and> offset c \<le> 92"
proof -
  have "run_steps (recv_step CopyStrict sample_tm) (new_CClient 0 7 :: int CClient) [None, Some []] = Inr (new_CClient 0 7)"
    by (simp add: recv_step_def receive_def)
  from buffer_invariant [OF this] this show ?thesis by blast
qed

section \<open>Missing fields and forgotten pieces\<close>

definition has_kw :: "(nat \<Rightarrow> char) \<Rightarrow> keyword \<Rightarrow> nat \<Rightarrow> nat \<Rightarrow> bool" where
  "has_kw p kw j len \<longleftrightarrow> (\<exists>y\<in>{j..<len}. kw_match p y kw)"

lemma length_keywords: "length kw_serial = 6" "length kw_md5 = 3" "length kw_xbaidu = 6" "length kw_ybaidu = 6" "length kw_navto = 5"
  by (simp_all add: kw_defs)

lemma find_kw_has:
  assumes "len < IOBUF_SIZE" and "p len = NUL" and "kw_ok kw" and "x \<le> len"
  shows "\<exists>x'. find_kw p kw x len = Inr x' \<and> x' \<le> len \<and> (x' < len \<longleftrightarrow> has_kw p kw x len) \<and> (x' < len \<longrightarrow> x' + length kw \<le> len)"
proof -
  obtain z where z: "find_kw p kw x len = Inr z" "x \<le> z" "z \<le> len"
    "\<forall>y. x \<le> y \<and> y < z \<longrightarrow> \<not> kw_match p y kw" "z < len \<longrightarrow> kw_match p z kw \<and> z + length kw \<le> len"
    using find_kw_spec [where p = p and len = len and kw = kw and x = x] assms by auto
  have "z < len \<longleftrightarrow> has_kw p kw x len"
    using z(2-5) by (auto simp: has_kw_def)
  with z show ?thesis by auto
qed

lemma dot_scan_ok: "lim < IOBUF_SIZE \<Longrightarrow> d \<le> lim \<Longrightarrow> \<exists>r. dot_scan p d lim = Inr r \<and> d \<le> r \<and> r \<le> lim"
proof (induction "lim - d" arbitrary: d)
  case 0
  then show ?case by (subst dot_scan.simps) auto
next
  case (Suc n)
  then have "\<exists>r. dot_scan p (Suc d) lim = Inr r \<and> Suc d \<le> r \<and> r \<le> lim" by simp
  with Suc.prems show ?case by (subst dot_scan.simps) (auto intro: Suc_leD)
qed

lemma get_coord_ok: "x + 18 < IOBUF_SIZE \<Longrightarrow> \<exists>v. get_coord p x = Inr v"
proof -
  assume x: "x + 18 < IOBUF_SIZE"
  then obtain r where r: "dot_scan p (x + 7) (x + 7 + GPS_LEN) = Inr r" "x + 7 \<le> r" "r \<le> x + 7 + GPS_LEN"
    using dot_scan_ok [of "x + 7 + GPS_LEN" "x + 7" p] by auto
  then have "copy_out p (x + 7) (r - (x + 7)) = Inr (slice p (x + 7) (r - (x + 7)))" using x by (simp add: copy_out_def)
  then show ?thesis using r(1) unfolding get_coord_def by (simp only: rbind.simps) simp
qed

text \<open>
  C21. Extracting the fields of a request behind which the buffer has at least 33 bytes of room, the longest field and its
  terminator, can fail in one way only: an \<open>assert\<close> stops the process, exactly when the serial number, the
  digest or the longitude is missing from the received bytes. A missing latitude does not stop it.
\<close>

theorem parse_fields_faults:
  assumes len: "len + 33 \<le> IOBUF_SIZE" and nul: "iobuf c len = NUL" and j: "j \<le> len"
  shows "parse_fields j len c = Inl e \<longleftrightarrow> e = AssertFail \<and>
     \<not> (has_kw (iobuf c) kw_serial j len \<and> has_kw (iobuf c) kw_md5 j len \<and> has_kw (iobuf c) kw_xbaidu j len)"
proof -
  let ?p = "iobuf c"
  have L: "len < IOBUF_SIZE" using len by simp
  obtain x1 x2 x3 x4 where
    x1: "find_kw ?p kw_serial j len = Inr x1" "x1 \<le> len" "x1 < len \<longleftrightarrow> has_kw ?p kw_serial j len" "x1 < len \<longrightarrow> x1 + 6 \<le> len"
    and x2: "find_kw ?p kw_md5 j len = Inr x2" "x2 \<le> len" "x2 < len \<longleftrightarrow> has_kw ?p kw_md5 j len" "x2 < len \<longrightarrow> x2 + 3 \<le> len"
    and x3: "find_kw ?p kw_xbaidu j len = Inr x3" "x3 \<le> len" "x3 < len \<longleftrightarrow> has_kw ?p kw_xbaidu j len" "x3 < len \<longrightarrow> x3 + 6 \<le> len"
    and x4: "find_kw ?p kw_ybaidu j len = Inr x4" "x4 \<le> len" "x4 < len \<longrightarrow> x4 + 6 \<le> len"
    using find_kw_has [of len ?p kw_serial j] find_kw_has [of len ?p kw_md5 j] find_kw_has [of len ?p kw_xbaidu j]
      find_kw_has [of len ?p kw_ybaidu j] L nul j by (auto simp: length_keywords)
  obtain v3 v4 where v: "get_coord ?p x3 = Inr v3" "get_coord ?p x4 = Inr v4"
    using get_coord_ok [of x3 ?p] get_coord_ok [of x4 ?p] len x3(2) x4(2) by auto
  have y: "\<exists>r. get_ybaidu j len c' = Inr r" if "iobuf c' = ?p" for c' :: "'a CClient"
    using that x4(1) v(2) by (auto simp: get_ybaidu_def)
  have s: "get_serial j len c = (if x1 < len then Inr (c\<lparr>serial := slice ?p (x1 + 7) SERIAL_LEN\<rparr>) else Inl AssertFail)"
    using x1 len by (auto simp: get_serial_def copy_out_def)
  have m: "get_md5 j len c' = (if x2 < len then Inr (c'\<lparr>md5 := Some (slice ?p (x2 + 4) MD5_LEN)\<rparr>) else Inl AssertFail)"
    if "iobuf c' = ?p" for c' :: "'a CClient" using that x2 len by (auto simp: get_md5_def copy_out_def)
  have x: "if x3 < len then \<exists>c'' es. get_xbaidu j len c' = Inr (c'', es) \<and> iobuf c'' = ?p else get_xbaidu j len c' = Inl AssertFail"
    if "iobuf c' = ?p" for c' :: "'a CClient" using that x3(1) v(1) by (auto simp: get_xbaidu_def split: option.splits)
  show ?thesis
  proof (cases "x1 < len \<and> x2 < len \<and> x3 < len")
    case True
    let ?c = "c\<lparr>serial := slice ?p (x1 + 7) SERIAL_LEN, md5 := Some (slice ?p (x2 + 4) MD5_LEN)\<rparr>"
    obtain c'' es where 3: "get_xbaidu j len ?c = Inr (c'', es)" "iobuf c'' = ?p" using x [of ?c] True by auto
    obtain c4 es4 where "get_ybaidu j len c'' = Inr (c4, es4)" using y [OF 3(2)] by auto
    then have "\<exists>r. parse_fields j len c = Inr r" using True s m 3 by (simp add: parse_fields_def)
    then show ?thesis using True x1 x2 x3 by auto
  next
    case False
    then have "parse_fields j len c = Inl AssertFail" using s m x [of "c\<lparr>serial := slice ?p (x1 + 7) SERIAL_LEN,
        md5 := Some (slice ?p (x2 + 4) MD5_LEN)\<rparr>"] by (auto simp: parse_fields_def)
    then show ?thesis using False x1 x2 x3 by auto
  qed
qed

definition no_serial_request :: string where
  "no_serial_request = ''md5='' @ replicate 32 (CHR ''0'') @ ''&xbaidu=1.1&ybaidu=2.2 ''"

theorem parse_fields_faults_witness:
  "parse_fields 0 59 (new_CClient 0 7 \<lparr>iobuf := buf_of no_serial_request\<rparr> :: int CClient) = Inl AssertFail"
proof -
  have no_s: "\<not> kw_start kw_serial ch" if "ch \<in> set no_serial_request" for ch
    using that by (auto simp: no_serial_request_def kw_start_def kw_serial_def)
  have len: "length no_serial_request = 59" by (simp add: no_serial_request_def)
  have "\<not> has_kw (buf_of no_serial_request) kw_serial 0 59"
  proof
    assume "has_kw (buf_of no_serial_request) kw_serial 0 59"
    then obtain y where "y < 59" "kw_match (buf_of no_serial_request) y kw_serial" by (auto simp: has_kw_def)
    then have "kw_start kw_serial (no_serial_request ! y)"
      using kw_match_start [of "buf_of no_serial_request" y kw_serial] len by (simp add: buf_of_def)
    then show False using no_s len \<open>y < 59\<close> by simp
  qed
  then show ?thesis
    using parse_fields_faults [of 59 "new_CClient 0 7 \<lparr>iobuf := buf_of no_serial_request\<rparr> :: int CClient" 0 AssertFail] len
    by (simp add: buf_of_def)
qed

text \<open>
  A piece in which the command word does not end is forgotten: it leaves the connection as it
  was, and what has arrived after the next piece does not contain it. A command word cut in two
  by the network is therefore never recognised.
\<close>

theorem piece_without_command_forgotten:
  assumes log: "loggable (iobuf c)" "getnowdate ltm = Inr d" "pct \<notin> set bs"
    and bs: "bs \<noteq> []" "length (arrived c bs) \<le> 4065"
    and none: "first_navto (arrived c bs) (length (arrived c bs))"
  shows "\<exists>l c'. receive mode ltm c (Some bs) = Inr (c', [say ''CClient::receive'', ELog l])
     \<and> status c' = status c \<and> serial c' = serial c \<and> (\<forall>more. arrived c' more = arrived c more)"
proof -
  let ?q = "store (iobuf c) (offset c) bs" and ?r = "arrived c bs"
  let ?p = "?q(length ?r := NUL)"
  have len: "length ?r = length bs + offset c" by (simp add: arrived_def)
  have lq: "loggable ?q" using loggable_store [OF log(1,3), of "offset c"] bs(2) len by simp
  obtain l where l: "log_request ltm (c\<lparr>iobuf := ?q\<rparr>) = Inr (ELog l)"
    using log_request_ok [of "c\<lparr>iobuf := ?q\<rparr>" ltm d] lq log(2) by auto
  have buf: "slice ?p 0 (length ?r) = ?r" "?p (length ?r) = NUL" using arrived_buffer [of ?p c bs] by auto
  have no: "\<not> has_kw ?p kw_navto 0 (length ?r)"
  proof
    assume "has_kw ?p kw_navto 0 (length ?r)"
    then obtain y where y: "y < length ?r" "kw_match ?p y kw_navto" by (auto simp: has_kw_def)
    then have "y + 5 \<le> length ?r"
      using match_at_spec [of "length ?r" ?p y kw_navto] buf(2) bs(2) by (simp add: kw_navto_def)
    then have "kw_match (buf_of ?r) y kw_navto"
      using y(2) kw_match_cong [of kw_navto ?p y "buf_of ?r"] slice_nth [OF buf(1)] by (simp add: kw_navto_def buf_of_def)
    then show False using none y(1) by (simp add: first_navto_def)
  qed
  have i: "find_kw ?p kw_navto 0 (length ?r) = Inr (length ?r)"
    using find_kw_has [of "length ?r" ?p kw_navto 0] no buf(2) bs(2) by auto
  have p: "parse mode ltm (c\<lparr>iobuf := ?q\<rparr>) (length bs) = Inr (c\<lparr>iobuf := ?p\<rparr>, [ELog l])"
    using l i bs len by (simp add: parse_def Let_def)
  have "take (MAXBUF - offset c) bs = bs" using len bs(2) by simp
  with bs p have "receive mode ltm c (Some bs) = Inr (c\<lparr>iobuf := ?p\<rparr>, [say ''CClient::receive'', ELog l])"
    by (auto simp: receive_def Let_def)
  moreover have "arrived (c\<lparr>iobuf := ?p\<rparr>) more = arrived c more" for more
    unfolding arrived_def using len bs(1) by (auto intro!: slice_cong)
  ultimately show ?thesis by (intro exI [of _ l] exI [of _ "c\<lparr>iobuf := ?p\<rparr>"]) simp
qed

theorem piece_without_command_forgotten_witness:
  "\<exists>l c'. receive CopyForward sample_tm (new_CClient 0 7 :: int CClient) (Some ''GET /na'') = Inr (c', [say ''CClient::receive'', ELog l])
     \<and> arrived c' ''vto?serial='' = ''vto?serial=''"
proof -
  have "first_navto ''GET /na'' 7"
    unfolding first_navto_def
  proof (intro allI impI)
    fix y :: nat
    assume "y < 7"
    then have "y \<in> {0, 1, 2, 3, 4, 5, 6}" by auto
    then show "\<not> kw_match (buf_of ''GET /na'') y kw_navto" by (auto simp: buf_of_def kw_navto_def store_def)
  qed
  then show ?thesis
    using piece_without_command_forgotten [of "new_CClient 0 7 :: int CClient" sample_tm "''2013-04-08 10:20:30''" "''GET /na''" CopyForward]
      sample_tm_date by (auto simp: pct_def eval_nat_numeral)
qed

end
