(* ===== verification/Correctit.thy ===== *)
theory Correctit
  imports OffsetArray Client
begin

text \<open>
  The correction of one request (\<open>Ccorrectit.cpp\<close>): the latitude selects a table of the
  \<open>INFO_MAP\<close>, the longitude an entry of it; the offsets found are subtracted from the
  coordinates sent. \<open>INFO_MAP\<close> is the in-order list of a \<open>std::map\<close>.
\<close>

type_synonym 'd INFO_MAP = "(32 word \<times> 'd CXArray) list"

text \<open>Reading a character array of the client as a string; one that was never written is indeterminate.\<close>

definition read_array :: "string option \<Rightarrow> string res" where
  "read_array a = (case a of None \<Rightarrow> Inl Indeterminate | Some s \<Rightarrow> Inr (cstr s))"

definition correctgps_worker :: "'d fpops \<Rightarrow> 'd CClient \<Rightarrow> 'd INFO_MAP \<Rightarrow> 'd CClient res" where
  "correctgps_worker fp pclient pinfomap =
     rbind (read_array (ybaidu pclient)) (\<lambda>y.
     rbind (read_array (xbaidu pclient)) (\<lambda>x.
     let baiduxy = \<lparr>poi_dx = fp_atof fp x, poi_dy = fp_atof fp y\<rparr> in
     rbind (chang2uint y) (\<lambda>y1.
     rbind (case map_of pinfomap y1 of
         Some a \<Rightarrow> rbind (chang2uint x) (\<lambda>x1. getGpsxy fp a baiduxy x1)
       | None \<Rightarrow> Inr (Some baiduxy))
       (\<lambda>gpsxy. Inr (SetSend2CarServer (pclient\<lparr>xgps := map_option poi_dx gpsxy, ygps := map_option poi_dy gpsxy\<rparr>))))))"

section \<open>The reference\<close>

text \<open>
  The intended correction, on a table of tables: the offsets stored for the two keys, or the
  coordinates as sent when the latitude has no table.
\<close>

definition table_of :: "'d INFO_MAP \<Rightarrow> 32 word \<Rightarrow> 32 word \<Rightarrow> ('d \<times> 'd) option" where
  "table_of info y x = Option.bind (map_of info y) (\<lambda>a. map_of (entries a) x)"

definition info_wf :: "'d fpops \<Rightarrow> 'd INFO_MAP \<Rightarrow> bool" where
  "info_wf fp info \<longleftrightarrow> sorted_wrt (<) (map fst info) \<and> (\<forall>(y, a)\<in>set info. arr_wf fp a)"

lemma info_wf_Nil [simp]: "info_wf fp []"
  by (simp add: info_wf_def)

lemma info_wf_lookup: "info_wf fp info \<Longrightarrow> map_of info y = Some a \<Longrightarrow> arr_wf fp a"
  by (auto simp: info_wf_def dest!: map_of_SomeD)

text \<open>The keys of a request: what \<open>chang2uint\<close> makes of its coordinates.\<close>

definition request_keys :: "'d CClient \<Rightarrow> (32 word \<times> 32 word) res" where
  "request_keys c =
     rbind (read_array (ybaidu c)) (\<lambda>y. rbind (read_array (xbaidu c)) (\<lambda>x.
     rbind (chang2uint y) (\<lambda>y1. rbind (chang2uint x) (\<lambda>x1. Inr (y1, x1)))))"

definition sent_point :: "'d fpops \<Rightarrow> 'd CClient \<Rightarrow> 'd \<times> 'd" where
  "sent_point fp c = (fp_atof fp (cstr (the (xbaidu c))), fp_atof fp (cstr (the (ybaidu c))))"

text \<open>A key within the reach of the unchecked probe of the table of its latitude.\<close>

definition in_reach :: "'d INFO_MAP \<Rightarrow> 32 word \<Rightarrow> 32 word \<Rightarrow> bool" where
  "in_reach info y x = (case map_of info y of None \<Rightarrow> True
     | Some a \<Rightarrow> arr_keys a \<noteq> [] \<and> unat (x - hd (arr_keys a)) < ARRAY_COUNT \<and> (x \<noteq> 0 \<or> x \<in> set (arr_keys a)))"

definition corrected :: "'d fpops \<Rightarrow> 'd INFO_MAP \<Rightarrow> 32 word \<Rightarrow> 32 word \<Rightarrow> 'd \<times> 'd \<Rightarrow> ('d \<times> 'd) option" where
  "corrected fp info y x pt = (if y \<notin> fst ` set info then Some pt
     else map_option (\<lambda>(dx, dy). (fp_sub fp (fst pt) dx, fp_sub fp (snd pt) dy)) (table_of info y x))"

lemma worker_spec:
  assumes wf: "info_wf fp info" and keys: "request_keys c = Inr (y1, x1)" and reach: "in_reach info y1 x1"
  shows "correctgps_worker fp c info = Inr (c\<lparr>status := 2,
     xgps := map_option fst (corrected fp info y1 x1 (sent_point fp c)),
     ygps := map_option snd (corrected fp info y1 x1 (sent_point fp c))\<rparr>)"
proof -
  obtain x y where xy: "ybaidu c = Some y" "xbaidu c = Some x" "chang2uint (cstr y) = Inr y1" "chang2uint (cstr x) = Inr x1"
    using keys by (auto simp: request_keys_def read_array_def split: option.splits)
  show ?thesis
  proof (cases "map_of info y1")
    case None
    then have "y1 \<notin> fst ` set info" by (simp add: map_of_eq_None_iff)
    with None xy show ?thesis
      by (simp add: correctgps_worker_def read_array_def corrected_def sent_point_def SetSend2CarServer_def Let_def)
  next
    case (Some a)
    then have y1: "y1 \<in> fst ` set info" by (metis map_of_eq_None_iff option.distinct(1))
    have a: "arr_wf fp a" "arr_keys a \<noteq> []" "unat (x1 - hd (arr_keys a)) < ARRAY_COUNT" "x1 \<noteq> 0 \<or> x1 \<in> set (arr_keys a)"
      using info_wf_lookup [OF wf Some] reach Some by (auto simp: in_reach_def)
    from getGpsxy_lookup [OF this] Some xy y1 show ?thesis
      by (cases "map_of (entries a) x1")
        (auto simp: correctgps_worker_def read_array_def corrected_def sent_point_def SetSend2CarServer_def Let_def table_of_def)
  qed
qed

text \<open>
  C6. The worker implements the correction. With well-formed tables and keys within the reach
  of the probe (when the latitude has a table, it is not empty, the key of the longitude is not below its first key and less
  than \<open>ARRAY_COUNT\<close> above it, and it is stored or not zero), a request whose latitude has no table keeps its coordinates, one whose keys are
  both stored has the stored offsets subtracted, and one whose longitude is not stored gets
  indeterminate coordinates; in every case the request is marked as ready to be sent.
\<close>

theorem worker_corrects:
  assumes "info_wf fp info" and "request_keys c = Inr (y1, x1)" and "in_reach info y1 x1"
  shows "correctgps_worker fp c info = Inr (c\<lparr>status := 2,
     xgps := map_option fst (corrected fp info y1 x1 (sent_point fp c)),
     ygps := map_option snd (corrected fp info y1 x1 (sent_point fp c))\<rparr>)"
  using assms by (rule worker_spec)

definition sample_client :: "int CClient" where
  "sample_client = (new_CClient 0 7)\<lparr>serial := ''356823032255122'', md5 := Some ''2eb399b9588b1ac2ccc35dce6f266033'',
     xbaidu := Some ''0.307'', ybaidu := Some ''22.54'', status := 1\<rparr>"

lemma sample_client_keys: "request_keys sample_client = Inr (2254, 30)"
proof -
  have k: "chang2uint ''22.54'' = Inr 2254" "chang2uint ''0.307'' = Inr 30" by code_simp+
  have n: "cstr ''22.54'' = ''22.54''" "cstr ''0.307'' = ''0.307''" by simp_all
  show ?thesis unfolding request_keys_def by (simp add: read_array_def sample_client_def n k)
qed

lemma sample_info_wf: "info_wf int_fp [(2254, sample_array)]"
  using sample_array_wf by (simp add: info_wf_def)

theorem worker_corrects_witness:
  "correctgps_worker int_fp sample_client [(2254, sample_array)] = Inr (sample_client\<lparr>status := 2,
     xgps := map_option fst (corrected int_fp [(2254, sample_array)] 2254 30 (0, 22)),
     ygps := map_option snd (corrected int_fp [(2254, sample_array)] 2254 30 (0, 22))\<rparr>)
   \<and> corrected int_fp [(2254, sample_array)] 2254 30 (0, 22) = Some (-3, 18)"
proof -
  have "sent_point int_fp sample_client = (0, 22)"
    by (simp add: sent_point_def sample_client_def) (code_simp)
  moreover have "in_reach [(2254, sample_array)] 2254 30" by (simp add: in_reach_def)
  ultimately show ?thesis
    using worker_corrects [OF sample_info_wf sample_client_keys] by (simp add: corrected_def table_of_def)
qed

end
