(* ===== verification/Config.thy ===== *)
theory Config
  imports Tools
begin

text \<open>
  The settings of \<open>Ccfg.cpp\<close>: the members of \<open>Ccfg\<close>, the defaults, and \<open>readConfigFile\<close>,
  which fills them from \<open>correctgps.conf\<close> beside the executable. The file system is a
  function from path names to contents.
\<close>

record Ccfg =
  configFilename :: string
  cfg_kvmap :: kvmap
  carserver_port :: "32 word"
  carserver_ip :: string
  carserv_domainname :: string
  local_port :: string
  max_clients :: "32 word"
  outtime_s :: "32 word"
  max_worker :: "32 word"

definition CONFIG_FILE :: string where
  "CONFIG_FILE = ''/correctgps.conf''"

definition cfg_int :: "kvmap \<Rightarrow> string \<Rightarrow> 32 word \<Rightarrow> 32 word" where
  "cfg_int kvm key dflt = (case map_of kvm key of Some v \<Rightarrow> atoi (cstr v) | None \<Rightarrow> dflt)"

definition cfg_str :: "kvmap \<Rightarrow> string \<Rightarrow> string \<Rightarrow> string" where
  "cfg_str kvm key dflt = (case map_of kvm key of Some v \<Rightarrow> v | None \<Rightarrow> dflt)"

text \<open>
  \<open>dir\<close> is what the constructor of \<open>string\<close> reads at the pointer \<open>getexedir\<close> returns, \<open>None\<close>
  for the null pointer, on which it throws. The result code of \<open>file_to_items\<close> is ignored: a
  file that cannot be opened leaves every default in place.
\<close>

definition readConfigFile :: "(string \<Rightarrow> string option) \<Rightarrow> char \<Rightarrow> string option \<Rightarrow> Ccfg \<Rightarrow> (bool \<times> Ccfg) res" where
  "readConfigFile fs below dir g = (case dir of
      None \<Rightarrow> Inl (Thrown ''basic_string'')
    | Some sf2 \<Rightarrow>
        let fname = sf2 @ CONFIG_FILE in
        if fname = [] then Inr (False, g\<lparr>configFilename := fname\<rparr>)
        else rbind (file_to_items below (fs (cstr fname)) (cfg_kvmap g)) (\<lambda>r.
          let kvm = snd r in
          Inr (True, g\<lparr>configFilename := fname, cfg_kvmap := kvm,
            carserver_port := cfg_int kvm ''CARSERVER_PORT'' 81,
            carserver_ip := cfg_str kvm ''CARSERVER_IP'' ''0.0.0.0'',
            carserv_domainname := cfg_str kvm ''CARSERVER_DOMAINNAME'' ''localhost'',
            local_port := cfg_str kvm ''LOCAL_PORT'' ''8080'',
            max_clients := cfg_int kvm ''MAX_CONNECTION_NUM'' 50000,
            outtime_s := cfg_int kvm ''LINK_TIMEOUT'' 30,
            max_worker := cfg_int kvm ''MAX_WORKER'' 1\<rparr>)))"

section \<open>What a configuration file means\<close>

lemma cfg_int_number:
  "map_of kvm key = Some (dec n) \<Longrightarrow> n < 10 ^ 9 \<Longrightarrow> cfg_int kvm key dflt = of_nat n"
  using atoi_digits [of "dec n" "[]"] length_dec_le [of 9 n] dec_digits [of _ n]
    digits_no_nul [of "dec n"]
  by (auto simp: cfg_int_def)

lemma cfg_int_default: "map_of kvm key = None \<Longrightarrow> cfg_int kvm key dflt = dflt"
  by (simp add: cfg_int_def)

text \<open>The lines that describe given settings, in key order.\<close>

definition settings :: "Ccfg \<Rightarrow> kvmap" where
  "settings g = [(''CARSERVER_DOMAINNAME'', carserv_domainname g), (''CARSERVER_IP'', carserver_ip g),
     (''CARSERVER_PORT'', dec (unat (carserver_port g))), (''LINK_TIMEOUT'', dec (unat (outtime_s g))),
     (''LOCAL_PORT'', local_port g), (''MAX_CONNECTION_NUM'', dec (unat (max_clients g))),
     (''MAX_WORKER'', dec (unat (max_worker g)))]"

definition settings_ok :: "Ccfg \<Rightarrow> bool" where
  "settings_ok g \<longleftrightarrow> line_ok ''CARSERVER_DOMAINNAME'' (carserv_domainname g) \<and> line_ok ''CARSERVER_IP'' (carserver_ip g)
     \<and> line_ok ''LOCAL_PORT'' (local_port g) \<and> unat (carserver_port g) < 10 ^ 9 \<and> unat (outtime_s g) < 10 ^ 9
     \<and> unat (max_clients g) < 10 ^ 9 \<and> unat (max_worker g) < 10 ^ 9"

lemma line_ok_dec:
  assumes "k \<noteq> []" and "line_ok k []" and "length k \<le> 300" and "n < 10 ^ 9"
  shows "line_ok k (dec n)"
proof -
  have ds: "is_digit c" if "c \<in> set (dec n)" for c using dec_digits [OF that] .
  have "length (dec n) \<le> 9" using length_dec_le [of 9 n] assms(4) by simp
  moreover have "\<not> isspace (last (dec n))" using ds [of "last (dec n)"] by simp
  moreover have "NUL \<notin> set (dec n)" using ds digit_not_nul by blast
  moreover have "CHR 0x0A \<notin> set (dec n)" using ds digit_not_space [of "CHR 0x0A"] by (auto simp: isspace_def)
  ultimately show ?thesis using assms(1-3) by (simp add: line_ok_def)
qed

lemma settings_lines: "settings_ok g \<Longrightarrow> \<forall>kv\<in>set (settings g). line_ok (fst kv) (snd kv)"
  by (auto simp: settings_ok_def settings_def intro!: line_ok_dec) (auto simp: line_ok_def isspace_def)

lemma settings_sorted: "sorted_wrt (<) (map fst (settings g))"
  by (simp add: settings_def less_char_def)

lemma cfg_int_read:
  "map_of kvm key = (if P then Some (dec (unat w)) else None) \<Longrightarrow> unat w < 10 ^ 9 \<Longrightarrow>
   cfg_int kvm key dflt = (if P then w else dflt)"
  using cfg_int_number [of kvm key "unat w" dflt] cfg_int_default [of kvm key dflt] by auto

lemma cfg_str_read:
  "map_of kvm key = (if P then Some v else None) \<Longrightarrow> cfg_str kvm key dflt = (if P then v else dflt)"
  by (simp add: cfg_str_def)

text \<open>
  C24. Reading back a configuration file that holds any selection of the lines of given settings:
  each selected setting has its value, each other one its default, whatever the members held before.
\<close>

theorem readConfigFile_settings:
  assumes ok: "settings_ok g0" and fresh: "cfg_kvmap g = []" and dir: "NUL \<notin> set dir"
    and conf: "fs (dir @ CONFIG_FILE) = Some (print_items (filter (\<lambda>kv. fst kv \<in> set keep) (settings g0)))"
  shows "readConfigFile fs below (Some dir) g = Inr (True, g\<lparr>configFilename := dir @ CONFIG_FILE,
     cfg_kvmap := filter (\<lambda>kv. fst kv \<in> set keep) (settings g0),
     carserver_port := if ''CARSERVER_PORT'' \<in> set keep then carserver_port g0 else 81,
     carserver_ip := if ''CARSERVER_IP'' \<in> set keep then carserver_ip g0 else ''0.0.0.0'',
     carserv_domainname := if ''CARSERVER_DOMAINNAME'' \<in> set keep then carserv_domainname g0 else ''localhost'',
     local_port := if ''LOCAL_PORT'' \<in> set keep then local_port g0 else ''8080'',
     max_clients := if ''MAX_CONNECTION_NUM'' \<in> set keep then max_clients g0 else 50000,
     outtime_s := if ''LINK_TIMEOUT'' \<in> set keep then outtime_s g0 else 30,
     max_worker := if ''MAX_WORKER'' \<in> set keep then max_worker g0 else 1\<rparr>)"
proof -
  let ?kvs = "filter (\<lambda>kv. fst kv \<in> set keep) (settings g0)"
  have "sorted_wrt (<) (map fst ?kvs)"
    using settings_sorted [of g0] sorted_wrt_filter [of "\<lambda>a b. fst a < fst b" "settings g0"]
    by (simp add: sorted_wrt_map)
  then have items: "file_to_items below (Some (print_items ?kvs)) [] = Inr (0, ?kvs)"
    using items_loop_print [of "[]" ?kvs below] settings_lines [OF ok] by (simp add: file_to_items_def)
  have bounds: "unat (carserver_port g0) < 10 ^ 9" "unat (outtime_s g0) < 10 ^ 9"
    "unat (max_clients g0) < 10 ^ 9" "unat (max_worker g0) < 10 ^ 9"
    using ok by (auto simp: settings_ok_def)
  have mo:
    "map_of ?kvs ''CARSERVER_PORT'' = (if ''CARSERVER_PORT'' \<in> set keep then Some (dec (unat (carserver_port g0))) else None)"
    "map_of ?kvs ''LINK_TIMEOUT'' = (if ''LINK_TIMEOUT'' \<in> set keep then Some (dec (unat (outtime_s g0))) else None)"
    "map_of ?kvs ''MAX_CONNECTION_NUM'' = (if ''MAX_CONNECTION_NUM'' \<in> set keep then Some (dec (unat (max_clients g0))) else None)"
    "map_of ?kvs ''MAX_WORKER'' = (if ''MAX_WORKER'' \<in> set keep then Some (dec (unat (max_worker g0))) else None)"
    "map_of ?kvs ''CARSERVER_IP'' = (if ''CARSERVER_IP'' \<in> set keep then Some (carserver_ip g0) else None)"
    "map_of ?kvs ''CARSERVER_DOMAINNAME'' = (if ''CARSERVER_DOMAINNAME'' \<in> set keep then Some (carserv_domainname g0) else None)"
    "map_of ?kvs ''LOCAL_PORT'' = (if ''LOCAL_PORT'' \<in> set keep then Some (local_port g0) else None)"
    unfolding map_of_filter_keys by (simp_all add: settings_def)
  have name: "cstr (dir @ CONFIG_FILE) = dir @ CONFIG_FILE" "dir @ CONFIG_FILE \<noteq> []"
    using dir by (simp_all add: CONFIG_FILE_def)
  have read: "readConfigFile fs below (Some dir) g = (let kvm = ?kvs in
      Inr (True, g\<lparr>configFilename := dir @ CONFIG_FILE, cfg_kvmap := kvm,
        carserver_port := cfg_int kvm ''CARSERVER_PORT'' 81,
        carserver_ip := cfg_str kvm ''CARSERVER_IP'' ''0.0.0.0'',
        carserv_domainname := cfg_str kvm ''CARSERVER_DOMAINNAME'' ''localhost'',
        local_port := cfg_str kvm ''LOCAL_PORT'' ''8080'',
        max_clients := cfg_int kvm ''MAX_CONNECTION_NUM'' 50000,
        outtime_s := cfg_int kvm ''LINK_TIMEOUT'' 30,
        max_worker := cfg_int kvm ''MAX_WORKER'' 1\<rparr>))"
    unfolding readConfigFile_def option.case Let_def name(1) if_not_P [OF name(2)] conf fresh items rbind.simps snd_conv
    by (rule refl)
  show ?thesis
    unfolding read Let_def cfg_int_read [OF mo(1) bounds(1)] cfg_int_read [OF mo(2) bounds(2)]
      cfg_int_read [OF mo(3) bounds(3)] cfg_int_read [OF mo(4) bounds(4)]
      cfg_str_read [OF mo(5)] cfg_str_read [OF mo(6)] cfg_str_read [OF mo(7)]
    by (rule refl)
qed

definition sample_cfg :: Ccfg where
  "sample_cfg = \<lparr>configFilename = [], cfg_kvmap = [], carserver_port = 81, carserver_ip = ''10.0.0.1'',
     carserv_domainname = ''car.example'', local_port = ''8080'', max_clients = 100, outtime_s = 5, max_worker = 2\<rparr>"

lemma sample_cfg_fields [simp]:
  "cfg_kvmap sample_cfg = []" "max_clients sample_cfg = 100" "outtime_s sample_cfg = 5" "carserver_port sample_cfg = 81"
  "carserv_domainname sample_cfg = ''car.example''"
  by (simp_all add: sample_cfg_def)

lemma sample_cfg_ok: "settings_ok sample_cfg"
  by (simp add: settings_ok_def sample_cfg_def line_ok_def isspace_def)

definition sample_conf :: string where
  "sample_conf = print_items (filter (\<lambda>kv. fst kv \<in> set [''MAX_CONNECTION_NUM'']) (settings sample_cfg))"

theorem readConfigFile_settings_witness:
  "\<exists>g. readConfigFile (\<lambda>_. Some sample_conf) NUL (Some ''/opt'') sample_cfg = Inr (True, g)
     \<and> max_clients g = 100 \<and> outtime_s g = 30"
  by (rule exI, rule conjI, rule readConfigFile_settings [where keep = "[''MAX_CONNECTION_NUM'']", OF sample_cfg_ok])
    (simp_all add: sample_conf_def)

end
