(* ===== verification/Sender.thy ===== *)
theory Sender
  imports Config Client
begin

text \<open>
  The connection to the car server (\<open>Csender.cpp\<close>): \<open>Connect\<close> on a non-blocking socket,
  \<open>Send\<close> of the corrected request, \<open>Recv\<close> of the reply, \<open>Close\<close>, and \<open>Send2CarServer\<close> of
  \<open>CClient.cpp\<close>, which runs them for one client and passes the reply back. What the network
  does is an argument: the results of \<open>socket\<close>, \<open>connect\<close>, \<open>select\<close>, \<open>recv\<close> and the clock,
  in the order of the calls. A loop that has used them up without leaving is still
  waiting: \<open>None\<close>.
\<close>

section \<open>Data\<close>

abbreviation FEEDBACK_MSG_LEN :: nat where
  "FEEDBACK_MSG_LEN \<equiv> 1024"

text \<open>The constructor writes nothing: the members hold what the memory held.\<close>

record Csender =
  m_sockfd :: int
  fb :: "nat \<Rightarrow> char"

definition Close_sender :: "Csender \<Rightarrow> Csender \<times> effect list" where
  "Close_sender s = (if m_sockfd s \<noteq> INVALID_SOCKET then (s\<lparr>m_sockfd := INVALID_SOCKET\<rparr>, [EClose (m_sockfd s)]) else (s, []))"

section \<open>Connect\<close>

datatype connect_result = ConnDone | ConnInProgress | ConnFailed

text \<open>
  One round of \<open>select\<close>: a timeout, an error, or readiness with the write and the exception set, the
  result of \<open>getsockopt\<close> and the socket error it reports.
\<close>

datatype select_result = SelTimeout | SelError | SelReady bool bool int int

fun connect_loop :: "select_result list \<Rightarrow> bool option" where
  "connect_loop [] = None"
| "connect_loop (SelTimeout # r) = connect_loop r"
| "connect_loop (SelReady w e code err # r) =
     (if w then Some (\<not> (code < 0 \<or> err \<noteq> 0)) else if e then Some False else connect_loop r)"
| "connect_loop (SelError # r) = Some False"

definition Connect :: "int \<Rightarrow> connect_result \<Rightarrow> select_result list \<Rightarrow> Csender \<Rightarrow> (bool option \<times> Csender \<times> effect list)" where
  "Connect sock conn sels s =
     (let s = s\<lparr>m_sockfd := sock\<rparr> in
      if m_sockfd s = INVALID_SOCKET then
        (Some False, s, [EPerror ''Csender::Connect socket error!'', say ''Csender::Connect socket error!''])
      else case conn of
          ConnDone \<Rightarrow> (Some True, s, [])
        | ConnInProgress \<Rightarrow> (connect_loop sels, s, [])
        | ConnFailed \<Rightarrow> (Some False, s, []))"

section \<open>Send\<close>

definition CRLF :: string where
  "CRLF = [CHR 0x0D, CHR 0x0A]"

text \<open>The text \<open>sprintf\<close> makes; the port is printed with \<open>%d\<close>, as a signed number.\<close>

definition navigate_text :: "Ccfg \<Rightarrow> string \<Rightarrow> string \<Rightarrow> string \<Rightarrow> string \<Rightarrow> string" where
  "navigate_text g ser md x y =
     ''GET http://'' @ cstr (carserv_domainname g) @ '':'' @ print_int (sint (carserver_port g))
     @ ''/api/navigate.api.php?serial='' @ ser @ ''&md5='' @ md @ ''&xgps='' @ x @ ''&ygps='' @ y @ '' HTTP/1.1'' @ CRLF
     @ ''Host: '' @ cstr (carserv_domainname g) @ '':'' @ print_int (sint (carserver_port g)) @ CRLF
     @ ''Connection: keep-alive'' @ CRLF @ ''Accept: text/html;charset=utf-8'' @ CRLF @ '' ''
     @ ''User-Agent: Mozilla/5.0 (Windows NT 5.1) AppleWebKit/537.22 (KHTML, like Gecko) Chrome/25.0.1364.172 Safari/537.22 ''
     @ ''Accept-Encoding: gzip,deflate '' @ ''Accept-Language: zh;q=0.8,en-US;q=0.6,en;q=0.4 ''
     @ ''Accept-Charset: utf-8;q=0.7,*;q=0.3'' @ CRLF @ CRLF"

definition Send :: "'d fpops \<Rightarrow> Ccfg \<Rightarrow> Csender \<Rightarrow> 'd CClient \<Rightarrow> effect list res" where
  "Send fp g s obj = (case (md5 obj, xgps obj, ygps obj) of
      (Some m, Some x, Some y) \<Rightarrow>
        rbind (fits 1024 (navigate_text g (cstr (serial obj)) (cstr m) (fp_fmt8 fp x) (fp_fmt8 fp y)))
          (\<lambda>data. Inr [ESend (m_sockfd s) data])
    | _ \<Rightarrow> Inl Indeterminate)"

section \<open>Recv\<close>

text \<open>One call of \<open>recv\<close>: the bytes the socket holds (none of them when the peer has closed), or an error.\<close>

datatype recv_result = RecvBytes string | RecvError

text \<open>The text logged when the time is over, the twelve bytes of four characters in UTF-8.\<close>

definition timeout_text :: string where
  "timeout_text = [CHR 0xE6, CHR 0x8E, CHR 0xA5, CHR 0xE6, CHR 0x94, CHR 0xB6, CHR 0xE8, CHR 0xB6, CHR 0x85, CHR 0xE6, CHR 0x97, CHR 0xB6]"

text \<open>\<open>strstr\<close> on the buffer; without a match and without a terminator it runs past the end.\<close>

definition strstr_fb :: "(nat \<Rightarrow> char) \<Rightarrow> string \<Rightarrow> bool res" where
  "strstr_fb b needle =
     (let s = slice b 0 FEEDBACK_MSG_LEN in
      if strstr (cstr s) needle then Inr True else if NUL \<in> set s then Inr False else Inl OutOfBounds)"

definition SUCC :: string where
  "SUCC = [CHR 0x7B, CHR 0x22, CHR ''s'', CHR ''u'', CHR ''c'', CHR ''c'', CHR 0x22, CHR '':'', CHR 0x22]"

definition reply_complete :: "(nat \<Rightarrow> char) \<Rightarrow> bool res" where
  "reply_complete b = rbind (strstr_fb b SUCC) (\<lambda>r. if r then strstr_fb b [CHR 0x7D] else Inr False)"

text \<open>
  The loop. \<open>n\<close> is \<open>strlen\<close>, the bytes received so far; \<open>p\<close> always points at \<open>fb + n\<close>. The \<open>int len\<close>
  is converted to \<open>size_t\<close>, so that a negative one asks for up to \<open>2 ^ 32\<close> bytes. Each round
  comes with the seconds since the start.
\<close>

fun recv_loop :: "32 word \<Rightarrow> (recv_result \<times> 32 word) list \<Rightarrow> nat \<Rightarrow> int \<Rightarrow> (nat \<Rightarrow> char) \<Rightarrow>
    (int \<times> nat \<times> (nat \<Rightarrow> char) \<times> effect list) option res" where
  "recv_loop out [] n len b = Inr None"
| "recv_loop out ((r, t) # rs) n len b =
     (let got = (case r of RecvBytes bs \<Rightarrow> take (nat (len mod 2 ^ 32)) bs | RecvError \<Rightarrow> []);
          ret = (case r of RecvBytes bs \<Rightarrow> int (length got) | RecvError \<Rightarrow> -1) in
      if FEEDBACK_MSG_LEN < n + length got then Inl OutOfBounds
      else
        let b = store b n got; n = n + length got; len = (if 0 < ret then len - int n else len) in
        if out < t then Inr (Some (ret, n, b, [say timeout_text]))
        else rbind (reply_complete b) (\<lambda>done. if done then Inr (Some (ret, n, b, [])) else recv_loop out rs n len b))"

text \<open>On a socket that was never opened the loop is skipped and the buffer is terminated at once.\<close>

definition Recv :: "Ccfg \<Rightarrow> (recv_result \<times> 32 word) list \<Rightarrow> Csender \<Rightarrow> (int \<times> Csender \<times> effect list) option res" where
  "Recv g rs s =
     rbind (if m_sockfd s \<noteq> INVALID_SOCKET then recv_loop (outtime_s g) rs 0 (int FEEDBACK_MSG_LEN - 1) (fb s)
            else Inr (Some (0, 0, fb s, []))) (\<lambda>r. case r of
        None \<Rightarrow> Inr None
      | Some (ret, n, b, e0) \<Rightarrow>
          rbind (wr FEEDBACK_MSG_LEN b n NUL) (\<lambda>b.
          let (s', e) = Close_sender (s\<lparr>fb := b\<rparr>) in
          if ret = -1 then Inr (Some (0, s', e0 @ say (''remote close '' @ print_int (m_sockfd s) @ '' .'') # e))
          else Inr (Some (ret, s', e0 @ e))))"

section \<open>Send2CarServer\<close>

record network =
  net_sock :: int
  net_conn :: connect_result
  net_sels :: "select_result list"
  net_recvs :: "(recv_result \<times> 32 word) list"
  net_heap :: Csender

text \<open>
  The sender is created with \<open>new\<close> and never deleted. The result is its final state with the effects,
  \<open>None\<close> while a loop still waits.
\<close>

definition Send2CarServer :: "'d fpops \<Rightarrow> Ccfg \<Rightarrow> network \<Rightarrow> 'd CClient \<Rightarrow> (Csender \<times> effect list) option res" where
  "Send2CarServer fp g net c =
     (case Connect (net_sock net) (net_conn net) (net_sels net) (net_heap net) of
        (None, s, e) \<Rightarrow> Inr None
      | (Some False, s, e) \<Rightarrow> Inr (Some (s, e @ [say ''fail to connecting car server!.'']))
      | (Some True, s, e) \<Rightarrow>
          rbind (Send fp g s c) (\<lambda>e1.
          rbind (Recv g (net_recvs net) s) (\<lambda>r. case r of
              None \<Rightarrow> Inr None
            | Some (ret, s, e2) \<Rightarrow>
                rbind (sendback c (cstr (slice (fb s) 0 FEEDBACK_MSG_LEN))) (\<lambda>e3. Inr (Some (s, e @ e1 @ e2 @ e3))))))"

section \<open>Connecting\<close>

definition undecided :: "select_result \<Rightarrow> bool" where
  "undecided r = (case r of SelTimeout \<Rightarrow> True | SelError \<Rightarrow> False | SelReady w e code err \<Rightarrow> \<not> w \<and> \<not> e)"

lemma connect_loop_None: "connect_loop sels = None \<longleftrightarrow> (\<forall>r\<in>set sels. undecided r)"
  by (induction sels rule: connect_loop.induct) (auto simp: undecided_def)

lemma connect_loop_skip: "(\<forall>r\<in>set u. undecided r) \<Longrightarrow> connect_loop (u @ v) = connect_loop v"
proof (induction u)
  case Nil
  then show ?case by simp
next
  case (Cons r u)
  then show ?case by (cases r) (auto simp: undecided_def)
qed

lemma Connect_socket: "Connect sock conn sels s = (r, s', e) \<Longrightarrow> s' = s\<lparr>m_sockfd := sock\<rparr> \<and> (\<forall>fd. EClose fd \<notin> set e)"
  by (auto simp: Connect_def Let_def say_def split: if_splits connect_result.splits)

text \<open>
  Waiting for the connection ends with the first \<open>select\<close> that reports an error, an exception or
  writability, and succeeds in the last case only, when the socket has no pending error. As long
  as only timeouts come back the loop goes on: it has no limit of its own.
\<close>

theorem connect_decides:
  "connect_loop sels = Some b \<longleftrightarrow>
     (\<exists>u r v. sels = u @ r # v \<and> (\<forall>o'\<in>set u. undecided o') \<and> \<not> undecided r
        \<and> (b \<longleftrightarrow> (\<exists>e code. r = SelReady True e code 0 \<and> 0 \<le> code)))"
proof
  assume h: "connect_loop sels = Some b"
  then have "\<not> (\<forall>r\<in>set sels. undecided r)" using connect_loop_None [of sels] by auto
  then obtain u r v where d: "sels = u @ r # v" "\<forall>o'\<in>set u. undecided o'" "\<not> undecided r"
    using split_list_first_prop [of sels "\<lambda>r. \<not> undecided r"] by auto
  then have "connect_loop (r # v) = Some b" using h connect_loop_skip by metis
  then have "b \<longleftrightarrow> (\<exists>e code. r = SelReady True e code 0 \<and> 0 \<le> code)"
    using d(3) by (cases r) (auto simp: undecided_def split: if_splits)
  with d show "\<exists>u r v. sels = u @ r # v \<and> (\<forall>o'\<in>set u. undecided o') \<and> \<not> undecided r
      \<and> (b \<longleftrightarrow> (\<exists>e code. r = SelReady True e code 0 \<and> 0 \<le> code))" by blast
next
  assume "\<exists>u r v. sels = u @ r # v \<and> (\<forall>o'\<in>set u. undecided o') \<and> \<not> undecided r
      \<and> (b \<longleftrightarrow> (\<exists>e code. r = SelReady True e code 0 \<and> 0 \<le> code))"
  then obtain u r v where d: "sels = u @ r # v" "\<forall>o'\<in>set u. undecided o'" "\<not> undecided r"
    "b \<longleftrightarrow> (\<exists>e code. r = SelReady True e code 0 \<and> 0 \<le> code)" by blast
  have "connect_loop (r # v) = Some b" using d(3,4) by (cases r) (auto simp: undecided_def)
  then show "connect_loop sels = Some b" using d(1,2) connect_loop_skip by metis
qed

theorem connect_decides_witness:
  "connect_loop [SelTimeout, SelReady False False 0 0, SelReady True False 0 0] = Some True"
  unfolding connect_decides
  by (rule exI [of _ "[SelTimeout, SelReady False False 0 0]"], rule exI [of _ "SelReady True False 0 0"], rule exI [of _ "[]"])
    (auto simp: undecided_def)

section \<open>The request to the car server\<close>

lemma length_print_int_sint: "length (print_int (sint (w :: 32 word))) \<le> 11"
proof -
  have b: "- (2 ^ 31) \<le> sint w" "sint w < 2 ^ 31" using sint_greater_eq [of w] sint_less [of w] by simp_all
  then have "nat (- sint w) < 10 ^ 10" "nat (sint w) < 10 ^ 10" by simp_all
  then have "length (dec (nat (- sint w))) \<le> 10" "length (dec (nat (sint w))) \<le> 10" by (simp_all add: length_dec_le)
  then show ?thesis by (simp add: print_int_def)
qed

lemma navigate_text_fits:
  assumes "length (carserv_domainname g) \<le> 150" and "length ser \<le> 15" and "length md \<le> 32"
    and "length x \<le> 50" and "length y \<le> 50"
  shows "length (navigate_text g ser md x y) < 1024"
proof -
  have "length (navigate_text g ser md x y) \<le> 500 + 2 * length (cstr (carserv_domainname g))
      + 2 * length (print_int (sint (carserver_port g))) + length ser + length md + length x + length y"
    by (simp add: navigate_text_def CRLF_def)
  then show ?thesis
    using assms length_print_int_sint [of "carserver_port g"] length_cstr_le [of "carserv_domainname g"] by linarith
qed

text \<open>
  The request sent to the car server fits its buffer of 1024 bytes, for a domain name of at
  most 150 characters and coordinates that print in at most 50: what is sent is one complete text
  with the client's serial number and digest and the corrected coordinates.
\<close>

theorem Send_text:
  assumes "md5 c = Some m" and "xgps c = Some x" and "ygps c = Some y"
    and "length (carserv_domainname g) \<le> 150" and "length (serial c) \<le> SERIAL_LEN" and "length m \<le> MD5_LEN"
    and "length (fp_fmt8 fp x) \<le> 50" and "length (fp_fmt8 fp y) \<le> 50"
  shows "Send fp g s c = Inr [ESend (m_sockfd s) (navigate_text g (cstr (serial c)) (cstr m) (fp_fmt8 fp x) (fp_fmt8 fp y))]"
proof -
  have "length (navigate_text g (cstr (serial c)) (cstr m) (fp_fmt8 fp x) (fp_fmt8 fp y)) < 1024"
    using assms length_cstr_le [of "serial c"] length_cstr_le [of m] by (intro navigate_text_fits) linarith+
  then show ?thesis using assms(1-3) by (simp add: Send_def fits_def)
qed

theorem Send_text_witness:
  "Send int_fp sample_cfg \<lparr>m_sockfd = 9, fb = (\<lambda>_. NUL)\<rparr>
     ((new_CClient 0 7)\<lparr>serial := ''356823032255122'', md5 := Some ''abc'', xgps := Some 113, ygps := Some 22\<rparr>) =
   Inr [ESend 9 (navigate_text sample_cfg ''356823032255122'' ''abc'' ''113'' ''22'')]"
proof -
  have p: "print_int 113 = ''113''" "print_int 22 = ''22''" by code_simp+
  show ?thesis
    using Send_text [of "(new_CClient 0 7)\<lparr>serial := ''356823032255122'', md5 := Some ''abc'', xgps := Some 113, ygps := Some 22\<rparr>"
        "''abc''" 113 22 sample_cfg int_fp "\<lparr>m_sockfd = 9, fb = (\<lambda>_. NUL)\<rparr>"]
    by (simp add: p)
qed

text \<open>
  Nothing bounds what \<open>%.8f\<close> prints, but the buffer has 1024 bytes: with a serial number and a digest of full length and coordinates
  that print in 610 characters together the text does not fit, whatever the domain name and the port are.
\<close>

lemma navigate_text_long: "367 + length ser + length md + length x + length y \<le> length (navigate_text g ser md x y)"
  by (simp add: navigate_text_def CRLF_def)

lemma Send_overrun:
  assumes "md5 c = Some m" and "xgps c = Some x" and "ygps c = Some y"
    and "length (cstr (serial c)) = SERIAL_LEN" and "length (cstr m) = MD5_LEN"
    and "610 \<le> length (fp_fmt8 fp x) + length (fp_fmt8 fp y)"
  shows "Send fp g s c = Inl OutOfBounds"
  using assms navigate_text_long [of "cstr (serial c)" "cstr m" "fp_fmt8 fp x" "fp_fmt8 fp y" g]
  by (simp add: Send_def fits_def)

lemma Send2CarServer_overrun:
  assumes "net_conn net = ConnDone" and "net_sock net \<noteq> INVALID_SOCKET" and "Send fp g ((net_heap net)\<lparr>m_sockfd := net_sock net\<rparr>) c = Inl e"
  shows "Send2CarServer fp g net c = Inl e"
  using assms by (simp add: Send2CarServer_def Connect_def)

section \<open>The reply\<close>

lemma strstr_append: "strstr s needle \<Longrightarrow> strstr (s @ t) needle"
  unfolding strstr_iff by (metis append_assoc)

lemma strstr_needs: "strstr s needle \<Longrightarrow> set needle \<subseteq> set s"
  by (auto simp: strstr_iff)

lemma cstr_append: "NUL \<notin> set s \<Longrightarrow> cstr (s @ t) = s @ cstr t"
  by (induction s) (auto simp: cstr_Cons)

lemma slice_store_front:
  assumes "length s \<le> n"
  shows "slice (store b 0 s) 0 n = s @ slice b (length s) (n - length s)"
  using assms by (auto intro!: nth_equalityI simp: nth_append)

lemma reply_complete_text:
  assumes "length s \<le> FEEDBACK_MSG_LEN" and "NUL \<notin> set s" and "strstr s SUCC" and "strstr s [CHR 0x7D]"
  shows "reply_complete (store b 0 s) = Inr True"
  using assms strstr_append
  by (simp add: reply_complete_def strstr_fb_def Let_def slice_store_front cstr_append)

text \<open>A reply that arrives in one piece.\<close>

lemma Recv_reply:
  assumes sock: "m_sockfd s \<noteq> INVALID_SOCKET"
    and reply: "length reply < FEEDBACK_MSG_LEN" "NUL \<notin> set reply" "strstr reply SUCC" "strstr reply [CHR 0x7D]"
    and t: "t \<le> outtime_s g"
  shows "\<exists>s'. Recv g ((RecvBytes reply, t) # rs) s = Inr (Some (int (length reply), s', [EClose (m_sockfd s)]))
     \<and> m_sockfd s' = INVALID_SOCKET \<and> cstr (slice (fb s') 0 FEEDBACK_MSG_LEN) = reply"
proof -
  let ?b = "store (fb s) 0 reply"
  let ?s' = "s\<lparr>fb := ?b(length reply := NUL), m_sockfd := INVALID_SOCKET\<rparr>"
  have "recv_loop (outtime_s g) ((RecvBytes reply, t) # rs) 0 1023 (fb s) = Inr (Some (int (length reply), length reply, ?b, []))"
    using reply t reply_complete_text [of reply "fb s"] by (simp add: Let_def not_less [symmetric])
  then have r: "Recv g ((RecvBytes reply, t) # rs) s = Inr (Some (int (length reply), ?s', [EClose (m_sockfd s)]))"
    using sock reply(1) by (simp add: Recv_def Close_sender_def Let_def del: recv_loop.simps)
  have "slice (fb ?s') 0 FEEDBACK_MSG_LEN = reply @ NUL # slice (fb s) (Suc (length reply)) (FEEDBACK_MSG_LEN - Suc (length reply))"
  proof (rule nth_equalityI)
    fix i
    assume "i < length (slice (fb ?s') 0 FEEDBACK_MSG_LEN)"
    then show "slice (fb ?s') 0 FEEDBACK_MSG_LEN ! i =
        (reply @ NUL # slice (fb s) (Suc (length reply)) (FEEDBACK_MSG_LEN - Suc (length reply))) ! i"
      by (cases "i < length reply"; cases "i = length reply") (auto simp: nth_append nth_Cons' Suc_diff_Suc)
  qed (use reply(1) in simp)
  then have "cstr (slice (fb ?s') 0 FEEDBACK_MSG_LEN) = reply" using reply(2) by (simp add: cstr_append cstr_Cons)
  with r show ?thesis by (intro exI [of _ ?s']) simp
qed

lemma recv_loop_piece:
  assumes "bs \<noteq> []" and "take (nat (len mod 2 ^ 32)) bs = bs" and "n + length bs \<le> FEEDBACK_MSG_LEN"
    and "t \<le> out" and "reply_complete (store b n bs) = Inr False"
  shows "recv_loop out ((RecvBytes bs, t) # rs) n len b = recv_loop out rs (n + length bs) (len - int (n + length bs)) (store b n bs)"
  unfolding recv_loop.simps recv_result.case assms(2) Let_def
  using assms(1,3-5) by (simp add: not_less [symmetric])

lemma recv_loop_oob:
  assumes "take (nat (len mod 2 ^ 32)) bs = bs" and "FEEDBACK_MSG_LEN < n + length bs"
  shows "recv_loop out ((RecvBytes bs, t) # rs) n len b = Inl OutOfBounds"
  unfolding recv_loop.simps recv_result.case assms(1) Let_def using assms(2) by simp

text \<open>
  C23. The bound of \<open>recv\<close> is decreased by the total received so far instead of by the last piece:
  after two pieces of \<open>a\<close> and \<open>b\<close> bytes with \<open>2 * a + b > 1023\<close> it is negative, and the third
  piece is written past the end of the 1024 bytes, although the first two fit.
\<close>

theorem Recv_overrun:
  assumes sock: "m_sockfd s \<noteq> INVALID_SOCKET" and heap: "fb s = (\<lambda>_. NUL)"
    and plain: "CHR 0x7B \<notin> set (a @ b)" "NUL \<notin> set (a @ b)" "b \<noteq> []"
    and size: "length (a @ b) \<le> 1023" "1023 < 2 * length a + length b" "1024 < length (a @ b @ c)" "length c \<le> 4096"
    and t: "t1 \<le> outtime_s g" "t2 \<le> outtime_s g"
  shows "Recv g ((RecvBytes a, t1) # (RecvBytes b, t2) # (RecvBytes c, t3) # rs) s = Inl OutOfBounds"
proof -
  have nope: "reply_complete (store (\<lambda>_. NUL) 0 u) = Inr False" if "CHR 0x7B \<notin> set u" "NUL \<notin> set u" "length u \<le> 1023" for u
  proof -
    let ?sl = "slice (store (\<lambda>_. NUL) 0 u) 0 FEEDBACK_MSG_LEN"
    have sl: "?sl = u @ slice (\<lambda>_. NUL) (length u) (FEEDBACK_MSG_LEN - length u)"
      using that(3) by (simp add: slice_store_front)
    have z: "slice (\<lambda>_. NUL) (length u) (FEEDBACK_MSG_LEN - length u) = NUL # slice (\<lambda>_. NUL) 0 (1023 - length u)"
      using that(3) by (intro nth_equalityI) (auto simp: nth_Cons split: nat.splits)
    have "cstr ?sl = u" using that(2) by (simp add: sl z cstr_append cstr_Cons)
    moreover have "\<not> strstr u SUCC" using strstr_needs [of u SUCC] that(1) by (auto simp: SUCC_def)
    moreover have "NUL \<in> set ?sl" by (simp add: sl z)
    ultimately show ?thesis by (simp add: reply_complete_def strstr_fb_def Let_def)
  qed
  have st: "store (store (\<lambda>_. NUL) 0 a) (length a) b = store (\<lambda>_. NUL) 0 (a @ b)"
    by (auto simp: fun_eq_iff store_def nth_append)
  have a: "length a \<le> 1023" "a \<noteq> []" "take 1023 a = a" using size(1,2) by auto
  have b: "take (1023 - length a) b = b" "length b \<le> 1023 - length a" using size(1) by auto
  let ?len = "1023 - int (length a) - int (length (a @ b))"
  have neg: "?len < 0" "- 2000 \<le> ?len" using size(1,2) by simp_all
  have "?len mod 2 ^ 32 = (?len + 2 ^ 32) mod 2 ^ 32" by (rule mod_add_self2 [symmetric])
  also have "\<dots> = ?len + 2 ^ 32" by (rule mod_pos_pos_trivial) (use neg in simp_all)
  finally have "4096 \<le> nat (?len mod 2 ^ 32)" using neg(2) by simp
  then have c: "take (nat (?len mod 2 ^ 32)) c = c" using size(4) by simp
  have m: "nat (1023 mod 2 ^ 32) = 1023" "nat ((1023 - int (length a)) mod 2 ^ 32) = 1023 - length a"
    using a(1) mod_pos_pos_trivial [of "1023 - int (length a)" "2 ^ 32"] by simp_all
  have "recv_loop (outtime_s g) ((RecvBytes a, t1) # (RecvBytes b, t2) # (RecvBytes c, t3) # rs) 0 1023 (fb s)
      = recv_loop (outtime_s g) ((RecvBytes b, t2) # (RecvBytes c, t3) # rs) (0 + length a) (1023 - int (0 + length a)) (store (fb s) 0 a)"
    by (rule recv_loop_piece) (use a m t(1) nope [of a] plain heap in auto)
  also have "\<dots> = recv_loop (outtime_s g) ((RecvBytes c, t3) # rs) (0 + length a + length b)
      (1023 - int (0 + length a) - int (0 + length a + length b)) (store (store (fb s) 0 a) (0 + length a) b)"
    by (rule recv_loop_piece) (use b m t(2) nope [of "a @ b"] plain heap st size(1) in auto)
  also have "\<dots> = Inl OutOfBounds"
    by (rule recv_loop_oob) (use c size(3) in auto)
  finally show ?thesis using sock by (simp add: Recv_def)
qed

theorem Recv_overrun_witness:
  "Recv sample_cfg [(RecvBytes (replicate 500 (CHR ''x'')), 0), (RecvBytes (replicate 100 (CHR ''x'')), 0),
      (RecvBytes (replicate 425 (CHR ''x'')), 1)] \<lparr>m_sockfd = 9, fb = (\<lambda>_. NUL)\<rparr> = Inl OutOfBounds"
  by (rule Recv_overrun) simp_all

section \<open>One request through to the reply\<close>

lemma Recv_closes:
  "Recv g rs s = Inr (Some (r, s', e)) \<Longrightarrow> m_sockfd s \<noteq> INVALID_SOCKET \<Longrightarrow>
     m_sockfd s' = INVALID_SOCKET \<and> EClose (m_sockfd s) \<in> set e"
proof -
  assume h: "Recv g rs s = Inr (Some (r, s', e))" "m_sockfd s \<noteq> INVALID_SOCKET"
  then obtain x where "recv_loop (outtime_s g) rs 0 1023 (fb s) = Inr x" by (auto simp: Recv_def)
  with h obtain ret n b e0 where l: "recv_loop (outtime_s g) rs 0 1023 (fb s) = Inr (Some (ret, n, b, e0))"
    by (cases x) (auto simp: Recv_def)
  with h have n: "n < FEEDBACK_MSG_LEN" by (auto simp: Recv_def)
  with h l show ?thesis by (cases "ret = -1") (auto simp: Recv_def Close_sender_def)
qed

text \<open>
  The socket to the car server is closed exactly when the connection was made: after a failed
  connection attempt the descriptor stays open, and nothing refers to it any more.
\<close>

theorem sender_socket_leak:
  assumes "Send2CarServer fp g net c = Inr (Some (s, es))" and "net_sock net \<noteq> INVALID_SOCKET"
    and "cfd c \<noteq> net_sock net"
  shows "if (\<exists>s' e. Connect (net_sock net) (net_conn net) (net_sels net) (net_heap net) = (Some True, s', e))
     then m_sockfd s = INVALID_SOCKET \<and> EClose (net_sock net) \<in> set es
     else m_sockfd s = net_sock net \<and> EClose (net_sock net) \<notin> set es"
proof -
  obtain r s1 e where con: "Connect (net_sock net) (net_conn net) (net_sels net) (net_heap net) = (r, s1, e)"
    by (metis prod_cases3)
  have s1: "m_sockfd s1 = net_sock net" "\<forall>fd. EClose fd \<notin> set e" using Connect_socket [OF con] by auto
  consider "r = None" | "r = Some False" | "r = Some True" by (cases r) auto
  then show ?thesis
  proof cases
    case 1
    with con assms(1) show ?thesis by (simp add: Send2CarServer_def)
  next
    case 2
    with con assms(1) s1 show ?thesis by (auto simp: Send2CarServer_def say_def)
  next
    case 3
    with con assms(1) obtain e1 ret e2 e3 where
      "Recv g (net_recvs net) s1 = Inr (Some (ret, s, e2))" "es = e @ e1 @ e2 @ e3"
      by (auto simp: Send2CarServer_def split: option.splits prod.splits)
    with con 3 Recv_closes [of g "net_recvs net" s1 ret s e2] s1(1) assms(2) show ?thesis by auto
  qed
qed

theorem sender_socket_leak_witness:
  "\<exists>s es. Send2CarServer int_fp sample_cfg \<lparr>net_sock = 9, net_conn = ConnInProgress, net_sels = [SelTimeout, SelError],
        net_recvs = [], net_heap = \<lparr>m_sockfd = 0, fb = (\<lambda>_. NUL)\<rparr>\<rparr> (new_CClient 0 7) = Inr (Some (s, es))
     \<and> m_sockfd s = 9 \<and> EClose 9 \<notin> set es"
proof -
  let ?net = "\<lparr>net_sock = 9, net_conn = ConnInProgress, net_sels = [SelTimeout, SelError],
        net_recvs = [], net_heap = \<lparr>m_sockfd = 0, fb = (\<lambda>_. NUL)\<rparr>\<rparr>"
  have c: "Connect 9 ConnInProgress [SelTimeout, SelError] \<lparr>m_sockfd = 0, fb = (\<lambda>_. NUL)\<rparr> = (Some False, \<lparr>m_sockfd = 9, fb = (\<lambda>_. NUL)\<rparr>, [])"
    by (simp add: Connect_def)
  then have r: "Send2CarServer int_fp sample_cfg ?net (new_CClient 0 7) =
      Inr (Some (\<lparr>m_sockfd = 9, fb = (\<lambda>_. NUL)\<rparr>, [say ''fail to connecting car server!.'']))"
    by (simp add: Send2CarServer_def)
  from sender_socket_leak [OF r] r c show ?thesis by simp
qed

lemma Send2CarServer_reply:
  assumes conn: "net_sock net \<noteq> INVALID_SOCKET" "net_conn net = ConnDone"
    and client: "md5 c = Some m" "xgps c = Some x" "ygps c = Some y" "length (serial c) \<le> SERIAL_LEN" "length m \<le> MD5_LEN"
      "pct \<notin> set (serial c)"
    and sizes: "length (carserv_domainname g) \<le> 150" "length (fp_fmt8 fp x) \<le> 50" "length (fp_fmt8 fp y) \<le> 50"
    and net: "net_recvs net = (RecvBytes reply, t) # rs" "t \<le> outtime_s g"
    and reply: "length reply < FEEDBACK_MSG_LEN" "NUL \<notin> set reply" "strstr reply SUCC" "strstr reply [CHR 0x7D]"
  shows "\<exists>s l. Send2CarServer fp g net c = Inr (Some (s,
      [ESend (net_sock net) (navigate_text g (cstr (serial c)) (cstr m) (fp_fmt8 fp x) (fp_fmt8 fp y)),
       EClose (net_sock net), ESend (cfd c) reply, ELog l]))"
proof -
  let ?s = "(net_heap net)\<lparr>m_sockfd := net_sock net\<rparr>"
  have con: "Connect (net_sock net) (net_conn net) (net_sels net) (net_heap net) = (Some True, ?s, [])"
    using conn by (simp add: Connect_def)
  have "length (navigate_text g (cstr (serial c)) (cstr m) (fp_fmt8 fp x) (fp_fmt8 fp y)) < 1024"
    using client sizes length_cstr_le [of "serial c"] length_cstr_le [of m] by (intro navigate_text_fits) linarith+
  then have send: "Send fp g ?s c = Inr [ESend (net_sock net) (navigate_text g (cstr (serial c)) (cstr m) (fp_fmt8 fp x) (fp_fmt8 fp y))]"
    using client(1-3) by (simp add: Send_def fits_def)
  obtain s' where recv: "Recv g (net_recvs net) ?s = Inr (Some (int (length reply), s', [EClose (net_sock net)]))"
    "cstr (slice (fb s') 0 FEEDBACK_MSG_LEN) = reply"
    using Recv_reply [of ?s reply t g rs] conn(1) net reply by auto
  let ?m = "''[log]to['' @ cstr (serial c) @ '']'' @ ''.''"
  have "pct \<notin> set ?m" "NUL \<notin> set ?m" "length ?m < 4095"
    using client(4,6) length_cstr_le [of "serial c"] by (auto simp: cstr_def pct_def dest!: set_takeWhileD)
  then have "log_msg ?m [] = Inr (LOG_INFO, ?m @ [CHR 0x0A])" using log_msg_plain [of ?m "[]"] by simp
  then have "sendback c reply = Inr [ESend (cfd c) reply, ELog (LOG_INFO, ?m @ [CHR 0x0A])]" by (simp add: sendback_def)
  with con send recv show ?thesis by (simp add: Send2CarServer_def)
qed

section \<open>Timeouts of a blocking socket\<close>

text \<open>
  \<open>SetRecvTimeOut\<close> and \<open>SetSendTimeOut\<close> are compiled in only without \<open>NONEBLOCK_SOCKET\<close>. The system call gets the value, an
  \<open>int\<close> of milliseconds, and its size; its result is the argument \<open>setsockopt\<close>.
\<close>

datatype sockopt = SO_RCVTIMEO | SO_SNDTIMEO

definition SetRecvTimeOut :: "(int \<Rightarrow> sockopt \<Rightarrow> int \<Rightarrow> nat \<Rightarrow> int) \<Rightarrow> int \<Rightarrow> Csender \<Rightarrow> bool" where
  "SetRecvTimeOut setsockopt t s = (let timeout = t; r = setsockopt (m_sockfd s) SO_RCVTIMEO timeout 4 in if r = 0 then True else False)"

definition SetSendTimeOut :: "(int \<Rightarrow> sockopt \<Rightarrow> int \<Rightarrow> nat \<Rightarrow> int) \<Rightarrow> int \<Rightarrow> Csender \<Rightarrow> bool" where
  "SetSendTimeOut setsockopt t s = (let timeout = t; r = setsockopt (m_sockfd s) SO_SNDTIMEO timeout 4 in if r = 0 then True else False)"

text \<open>Linux documents a \<open>struct timeval\<close>, of eight bytes here, as the value of both options, and refuses a shorter one.\<close>

definition linux_timeouts :: "(int \<Rightarrow> sockopt \<Rightarrow> int \<Rightarrow> nat \<Rightarrow> int) \<Rightarrow> bool" where
  "linux_timeouts setsockopt \<longleftrightarrow> (\<forall>fd opt v len. len < 8 \<longrightarrow> setsockopt fd opt v len = -1)"

theorem timeouts_never_set:
  assumes "linux_timeouts setsockopt"
  shows "\<not> SetRecvTimeOut setsockopt t s \<and> \<not> SetSendTimeOut setsockopt t s"
  using assms by (simp add: linux_timeouts_def SetRecvTimeOut_def SetSendTimeOut_def Let_def)

theorem timeouts_never_set_witness:
  "\<not> SetRecvTimeOut (\<lambda>fd opt v len. if len < 8 then -1 else 0) 5000 \<lparr>m_sockfd = 3, fb = (\<lambda>_. NUL)\<rparr>"
  using timeouts_never_set [of "\<lambda>fd opt v len. if len < 8 then -1 else 0" 5000 "\<lparr>m_sockfd = 3, fb = (\<lambda>_. NUL)\<rparr>"]
  by (simp add: linux_timeouts_def)

end
