(* ===== verification/Threads.thy ===== *)
theory Threads
  imports GPS_Prelude
begin

text \<open>
  The thread wrapper (\<open>Thread.h\<close>, \<open>Thread.cpp\<close>). The object owns a \<open>ThreadFunctor\<close> on the heap,
  a mutex and a condition; the started thread reads the functor when it begins to run, which
  may be at any time after \<open>execute\<close>. Other components use the object through the order of
  three events: it is executed, its thread begins, it is destroyed.
\<close>

section \<open>The object\<close>

record 'a ThreadFunctor =
  tf_f :: nat
  tf_arg :: 'a

text \<open>
  \<open>threadFunctor\<close> is \<open>None\<close> once it is deleted; \<open>sync\<close> is whether the mutex and the condition are
  initialised; \<open>created\<close> whether \<open>pthread_create\<close> has succeeded; \<open>waiting\<close> the number of threads
  blocked in \<open>wait\<close>.
\<close>

record 'a Thread =
  threadFunctor :: "'a ThreadFunctor option"
  sync :: bool
  created :: bool
  waiting :: nat

definition new_Thread :: "nat \<Rightarrow> 'a \<Rightarrow> 'a Thread" where
  "new_Thread f arg = \<lparr>threadFunctor = Some \<lparr>tf_f = f, tf_arg = arg\<rparr>, sync = True, created = False, waiting = 0\<rparr>"

definition delete_Thread :: "'a Thread \<Rightarrow> 'a Thread res" where
  "delete_Thread t = (if threadFunctor t = None then Inl UseAfterFree else Inr (t\<lparr>threadFunctor := None, sync := False\<rparr>))"

text \<open>\<open>rc\<close> is what \<open>pthread_create\<close> or \<open>pthread_join\<close> returns.\<close>

definition execute :: "int \<Rightarrow> 'a Thread \<Rightarrow> 'a Thread res" where
  "execute rc t = (if rc \<noteq> 0 then Inl (Thrown ''Error Creating pthread'') else Inr (t\<lparr>created := True\<rparr>))"

definition join :: "int \<Rightarrow> 'a Thread \<Rightarrow> 'a Thread res" where
  "join rc t = (if rc \<noteq> 0 then Inl (Thrown ''Error in join for pthread'') else Inr t)"

text \<open>What \<open>_service\<close> calls: the function and the argument of the functor, read when the thread begins.\<close>

definition service :: "'a Thread \<Rightarrow> (nat \<times> 'a) res" where
  "service t = (case threadFunctor t of None \<Rightarrow> Inl UseAfterFree | Some tf \<Rightarrow> Inr (tf_f tf, tf_arg tf))"

definition wait_Thread :: "'a Thread \<Rightarrow> 'a Thread res" where
  "wait_Thread t = (if sync t then Inr (t\<lparr>waiting := Suc (waiting t)\<rparr>) else Inl UseAfterFree)"

definition interrupt :: "'a Thread \<Rightarrow> 'a Thread res" where
  "interrupt t = (if sync t then Inr (t\<lparr>waiting := 0\<rparr>) else Inl UseAfterFree)"

section \<open>Sleeping\<close>

text \<open>
  The nanoseconds slept by \<open>nSleep\<close>: after an interrupted first call (the time it slept is given) the
  whole time is asked for again.
\<close>

definition nSleep :: "nat option \<Rightarrow> nat \<Rightarrow> nat" where
  "nSleep interrupted nanos = (case interrupted of None \<Rightarrow> nanos | Some slept \<Rightarrow> slept + nanos)"

text \<open>The arguments of \<open>usleep\<close> and \<open>sleep\<close>; \<open>long\<close> and \<open>useconds_t\<close> have 32 bits.\<close>

definition uSleep :: "32 word \<Rightarrow> 32 word" where
  "uSleep micros = micros"

definition mSleep :: "32 word \<Rightarrow> 32 word" where
  "mSleep milis = milis * 1000"

definition sSleep :: "32 word \<Rightarrow> 32 word" where
  "sSleep seconds = seconds"

section \<open>The life of a thread object\<close>

datatype thread_event = TExecute int | TService | TDelete | TWait | TInterrupt

definition thread_step :: "'a Thread \<times> (nat \<times> 'a) list \<Rightarrow> thread_event \<Rightarrow> ('a Thread \<times> (nat \<times> 'a) list) res" where
  "thread_step s e = (case s of (t, started) \<Rightarrow> case e of
      TExecute rc \<Rightarrow> rbind (execute rc t) (\<lambda>t. Inr (t, started))
    | TService \<Rightarrow> rbind (service t) (\<lambda>call. Inr (t, started @ [call]))
    | TDelete \<Rightarrow> rbind (delete_Thread t) (\<lambda>t. Inr (t, started))
    | TWait \<Rightarrow> rbind (wait_Thread t) (\<lambda>t. Inr (t, started))
    | TInterrupt \<Rightarrow> rbind (interrupt t) (\<lambda>t. Inr (t, started)))"

lemmas thread_ops = execute_def service_def delete_Thread_def wait_Thread_def interrupt_def

definition thread_inv :: "nat \<Rightarrow> 'a \<Rightarrow> 'a Thread \<times> (nat \<times> 'a) list \<Rightarrow> bool" where
  "thread_inv f arg s \<longleftrightarrow> (threadFunctor (fst s) = None \<or> threadFunctor (fst s) = Some \<lparr>tf_f = f, tf_arg = arg\<rparr>)
     \<and> (sync (fst s) \<longleftrightarrow> threadFunctor (fst s) \<noteq> None) \<and> (\<forall>c\<in>set (snd s). c = (f, arg))"

interpretation thr: invariant_machine thread_step "thread_inv f arg" for f arg
  by unfold_locales
    (auto simp: thread_step_def thread_inv_def thread_ops split: prod.splits thread_event.splits if_splits option.splits)

lemma service_live: "thread_inv f arg (t, calls) \<Longrightarrow> threadFunctor t \<noteq> None \<Longrightarrow> service t = Inr (f, arg)"
  by (auto simp: thread_inv_def service_def)

text \<open>
  The table is loaded by a thread whose object is local to \<open>loaddb\<close> and destroyed when \<open>loaddb\<close> returns,
  without a join: the started thread finds its functor exactly when it begins before that.
\<close>

definition loaddb_thread :: "nat \<Rightarrow> 'a \<Rightarrow> bool \<Rightarrow> ('a Thread \<times> (nat \<times> 'a) list) res" where
  "loaddb_thread f arg begins_first =
     run_steps thread_step (new_Thread f arg, []) (TExecute 0 # (if begins_first then [TService, TDelete] else [TDelete, TService]))"

text \<open>
  The thread that loads the table runs \<open>service\<close> on the loader object when it begins before \<open>loaddb\<close>
  returns; when it begins later it reads a deleted functor.
\<close>

theorem loaddb_thread_race:
  "loaddb_thread f arg begins_first =
     (if begins_first then Inr (\<lparr>threadFunctor = None, sync = False, created = True, waiting = 0\<rparr>, [(f, arg)]) else Inl UseAfterFree)"
  by (simp add: loaddb_thread_def thread_step_def thread_ops new_Thread_def)

text \<open>
  Until its object is destroyed a thread object runs nothing but the function and the argument it was
  created with, whatever the order of the calls.
\<close>

theorem thread_runs_its_function:
  assumes "run_steps thread_step (new_Thread f arg, []) es = Inr (t, calls)"
  shows "set calls \<subseteq> {(f, arg)}"
proof -
  have "thread_inv f arg (new_Thread f arg, [])" by (simp add: thread_inv_def new_Thread_def)
  from thr.run_inv [OF this assms] show ?thesis by (auto simp: thread_inv_def)
qed

theorem thread_runs_its_function_witness:
  "\<exists>t. run_steps thread_step (new_Thread 1 ''db'', []) [TExecute 0, TService, TWait, TInterrupt, TDelete] = Inr (t, [(1, ''db'')])
     \<and> set [(1 :: nat, ''db'')] \<subseteq> {(1, ''db'')}"
proof -
  have "run_steps thread_step (new_Thread 1 ''db'', []) [TExecute 0, TService, TWait, TInterrupt, TDelete] =
      Inr (\<lparr>threadFunctor = None, sync = False, created = True, waiting = 0\<rparr>, [(1, ''db'')])"
    by (simp add: thread_step_def thread_ops new_Thread_def)
  from thread_runs_its_function [OF this] this show ?thesis by blast
qed

lemma mSleep_exact: "unat m < 4294967 \<Longrightarrow> unat (mSleep m) = unat m * 1000"
  by (simp add: mSleep_def unat_word_ariths)

end
