(* ===== verification/Manager.thy ===== *)
theory Manager
  imports Correctit Sender Threads
begin

text \<open>
  The client manager (\<open>CclientManager.h\<close>, \<open>CclientManager.cpp\<close>): the map from descriptors to client
  objects, the message list with its condition, and the worker loop. Client objects live in an
  explicit heap, so that a pointer used after \<open>delete\<close> is a fault. Each operation is one
  atomic action here; the theory \<open>Interleaving\<close> runs them against one another.
\<close>

section \<open>State\<close>

text \<open>
  \<open>clientqueue\<close> is the in-order list of the \<open>std::map\<close>; \<open>infomap\<close> is \<open>None\<close> for the null pointer
  the constructor writes; \<open>allExitFlag\<close> is the global exit flag; \<open>threadlist\<close> holds the worker objects.
\<close>

record 'd manager =
  heap :: "nat \<rightharpoonup> 'd CClient"
  fresh :: nat
  clientqueue :: "(int \<times> nat) list"
  msglist :: "int list"
  test_cond :: bool
  infomap :: "'d INFO_MAP option"
  threadlist :: "unit Thread list"
  allExitFlag :: bool

definition new_manager :: "'d manager" where
  "new_manager = \<lparr>heap = Map.empty, fresh = 0, clientqueue = [], msglist = [], test_cond = False, infomap = None,
     threadlist = [], allExitFlag = False\<rparr>"

definition setinfomap :: "'d INFO_MAP \<Rightarrow> 'd manager \<Rightarrow> 'd manager" where
  "setinfomap pinfomap s = s\<lparr>infomap := Some pinfomap\<rparr>"

definition GetActiveSize :: "'d manager \<Rightarrow> nat" where
  "GetActiveSize s = length (clientqueue s)"

definition getClientMap :: "'d manager \<Rightarrow> (int \<times> nat) list" where
  "getClientMap s = clientqueue s"

text \<open>\<open>setallthreadexitflag\<close> of \<open>gps.cpp\<close>.\<close>

definition setallthreadexitflag :: "int \<Rightarrow> 'd manager \<Rightarrow> 'd manager \<times> effect list" where
  "setallthreadexitflag i s = (s\<lparr>allExitFlag := True\<rparr>, [say (''[setallthreadexitflag]'' @ print_int i @ ''.'')])"

text \<open>Reading an object through a pointer, and \<open>delete\<close>, which closes the client's descriptor.\<close>

definition deref :: "'d manager \<Rightarrow> nat \<Rightarrow> 'd CClient res" where
  "deref s a = (case heap s a of None \<Rightarrow> Inl UseAfterFree | Some c \<Rightarrow> Inr c)"

definition delete_client :: "nat \<Rightarrow> 'd manager \<Rightarrow> ('d manager \<times> effect list) res" where
  "delete_client a s = rbind (deref s a) (\<lambda>c. Inr (s\<lparr>heap := (heap s)(a := None)\<rparr>, snd (Close c)))"

definition map_erase :: "int \<Rightarrow> (int \<times> nat) list \<Rightarrow> (int \<times> nat) list" where
  "map_erase fd q = filter (\<lambda>e. fst e \<noteq> fd) q"

definition map_set :: "int \<Rightarrow> nat \<Rightarrow> (int \<times> nat) list \<Rightarrow> (int \<times> nat) list" where
  "map_set fd a q = map (\<lambda>(k, b). if k = fd then (k, a) else (k, b)) q"

section \<open>Connections\<close>

definition GetNewClient :: "Ccfg \<Rightarrow> int \<Rightarrow> int \<Rightarrow> 'd manager \<Rightarrow> nat option \<times> 'd manager \<times> effect list" where
  "GetNewClient g now fd s =
     (if length (clientqueue s) < unat (max_clients g) then
        (Some (fresh s), s\<lparr>heap := (heap s)(fresh s \<mapsto> new_CClient now fd), fresh := Suc (fresh s)\<rparr>, [])
      else (None, s, [say (''[execption]CclientManager::GetNewClient('' @ print_int fd @ '') fail'')]))"

definition AddToQueue :: "Ccfg \<Rightarrow> int \<Rightarrow> int \<Rightarrow> 'd manager \<Rightarrow> ('d manager \<times> effect list) res" where
  "AddToQueue g now fd s =
     (let (pclient, s, e) = GetNewClient g now fd s;
          e = e @ [say (''[log][CClientManager::AddToQueue('' @ print_int fd @ '')'')] in
      case pclient of
        None \<Rightarrow> Inr (s, e)
      | Some a \<Rightarrow> (case map_of (clientqueue s) fd of
            Some old \<Rightarrow> rbind (delete_client old s) (\<lambda>(s, e').
              Inr (s\<lparr>clientqueue := map_set fd a (clientqueue s)\<rparr>, e @ e'))
          | None \<Rightarrow> Inr (s\<lparr>clientqueue := ins_new fd a (clientqueue s)\<rparr>,
              e @ [say (''[log][CClientManager::AddToQueue('' @ print_int fd @ '') ok'')])))"

definition DoKill :: "int \<Rightarrow> 'd manager \<Rightarrow> ('d manager \<times> effect list) res" where
  "DoKill fd s =
     (let e = say (''CclientManager::DoKill('' @ print_int fd @ '')'') in
      case map_of (clientqueue s) fd of
        None \<Rightarrow> Inr (s, [e])
      | Some a \<Rightarrow> rbind (delete_client a s) (\<lambda>(s, e').
          Inr (s\<lparr>clientqueue := map_erase fd (clientqueue s)\<rparr>, e # e')))"

definition notificationthreads :: "int \<Rightarrow> 'd manager \<Rightarrow> 'd manager \<times> effect list" where
  "notificationthreads fd s =
     (s\<lparr>msglist := msglist s @ [fd], test_cond := True\<rparr>,
      [say (''CclientManager::notificationthreads('' @ print_int fd @ '')''), say ''CclientManager::notificationthreads ok''])"

text \<open>The calls a client makes on its manager, in the order it makes them.\<close>

fun run_effects :: "effect list \<Rightarrow> 'd manager \<Rightarrow> ('d manager \<times> effect list) res" where
  "run_effects [] s = Inr (s, [])"
| "run_effects (EKill fd # es) s =
     rbind (DoKill fd s) (\<lambda>(s, e1). rbind (run_effects es s) (\<lambda>(s, e2). Inr (s, e1 @ e2)))"
| "run_effects (ENotify fd # es) s =
     (let (s, e1) = notificationthreads fd s in rbind (run_effects es s) (\<lambda>(s, e2). Inr (s, e1 @ e2)))"
| "run_effects (e # es) s = rbind (run_effects es s) (\<lambda>(s, e2). Inr (s, e # e2))"

text \<open>\<open>client->receive()\<close> on the object at \<open>a\<close>.\<close>

definition receive_at :: "copy_sem \<Rightarrow> tm \<Rightarrow> nat \<Rightarrow> string option \<Rightarrow> 'd manager \<Rightarrow> ('d manager \<times> effect list) res" where
  "receive_at mode ltm a avail s =
     rbind (deref s a) (\<lambda>c.
     rbind (receive mode ltm c avail) (\<lambda>(c', es). run_effects es (s\<lparr>heap := (heap s)(a \<mapsto> c')\<rparr>)))"

definition DoRead :: "copy_sem \<Rightarrow> tm \<Rightarrow> int \<Rightarrow> string option \<Rightarrow> 'd manager \<Rightarrow> ('d manager \<times> effect list) res" where
  "DoRead mode ltm fd avail s =
     (let e = say (''CclientManager::DoRead('' @ print_int fd @ '')'') in
      case map_of (clientqueue s) fd of
        None \<Rightarrow> Inr (s, [e])
      | Some a \<Rightarrow> rbind (receive_at mode ltm a avail s) (\<lambda>(s, es). Inr (s, e # es)))"

text \<open>
  \<open>killTimeoutClient\<close> walks the map and kills while it walks: after \<open>DoKill(it->first)\<close> the iterator is
  invalid, and the loop increments it.
\<close>

fun kill_loop :: "Ccfg \<Rightarrow> int \<Rightarrow> (int \<times> nat) list \<Rightarrow> 'd manager \<Rightarrow> ('d manager \<times> effect list) res" where
  "kill_loop g now [] s = Inr (s, [])"
| "kill_loop g now ((fd, a) # q) s =
     rbind (deref s a) (\<lambda>c.
     if length (cstr (serial c)) = 0
        \<and> (outtime_s g \<noteq> 0 \<or> outtime_s g < word_of_int (now - delay_time c)) then
       rbind (DoKill fd s) (\<lambda>_. Inl IterInvalid)
     else kill_loop g now q s)"

definition killTimeoutClient :: "Ccfg \<Rightarrow> int \<Rightarrow> 'd manager \<Rightarrow> ('d manager \<times> effect list) res" where
  "killTimeoutClient g now s = kill_loop g now (clientqueue s) s"

section \<open>Workers\<close>

definition start :: "Ccfg \<Rightarrow> 'd manager \<Rightarrow> 'd manager" where
  "start g s = s\<lparr>threadlist := threadlist s @ replicate (unat (max_worker g)) ((new_Thread 0 ())\<lparr>created := True\<rparr>)\<rparr>"

fun delete_threads :: "unit Thread list \<Rightarrow> unit res" where
  "delete_threads [] = Inr ()"
| "delete_threads (t # ts) = rbind (delete_Thread t) (\<lambda>_. delete_threads ts)"

definition stop :: "'d manager \<Rightarrow> ('d manager \<times> effect list) res" where
  "stop s = rbind (delete_threads (threadlist s)) (\<lambda>_. Inr (s\<lparr>threadlist := []\<rparr>, [say ''[log][CClientManager]stop.'']))"

text \<open>The destructor deletes every client of the map.\<close>

fun delete_all :: "(int \<times> nat) list \<Rightarrow> 'd manager \<Rightarrow> ('d manager \<times> effect list) res" where
  "delete_all [] s = Inr (s, [])"
| "delete_all ((fd, a) # q) s =
     rbind (delete_client a s) (\<lambda>(s, e1). rbind (delete_all q s) (\<lambda>(s, e2). Inr (s, e1 @ e2)))"

definition delete_manager :: "'d manager \<Rightarrow> ('d manager \<times> effect list) res" where
  "delete_manager s = rbind (delete_all (clientqueue s) s) (\<lambda>(s, e). Inr (s\<lparr>clientqueue := [], msglist := []\<rparr>, e))"

text \<open>
  The inner wait of \<open>run\<close> is left when the flag is set, when the last wait did not time out, or on exit.
\<close>

definition wait_passes :: "bool \<Rightarrow> 'd manager \<Rightarrow> bool" where
  "wait_passes timed_out s \<longleftrightarrow> test_cond s \<or> \<not> timed_out \<or> allExitFlag s"

text \<open>
  Leaving the wait: the flag is cleared, and then, under another lock, one message is taken; an empty list leaves the old
  descriptor.
\<close>

definition take_front :: "int \<Rightarrow> 'd manager \<Rightarrow> int \<times> 'd manager" where
  "take_front fd s = (case msglist s of [] \<Rightarrow> (fd, s) | m # ms \<Rightarrow> (m, s\<lparr>msglist := ms\<rparr>))"

definition take_message :: "int \<Rightarrow> 'd manager \<Rightarrow> int \<times> 'd manager" where
  "take_message fd s = take_front fd (s\<lparr>test_cond := False\<rparr>)"

text \<open>
  The locked part of an iteration: correction, and the request to the car server when the client is
  ready; the result is the pointer \<open>pc\<close>, null or the client served. \<open>None\<close> when the car server
  connection still waits.
\<close>

definition work :: "'d fpops \<Rightarrow> Ccfg \<Rightarrow> network \<Rightarrow> int \<Rightarrow> 'd manager \<Rightarrow> (nat option \<times> 'd manager \<times> effect list) option res" where
  "work fp g net fd s = (case map_of (getClientMap s) fd of
      None \<Rightarrow> Inr (Some (None, s, []))
    | Some a \<Rightarrow>
        rbind (deref s a) (\<lambda>c.
        rbind (case infomap s of None \<Rightarrow> Inl NullDeref | Some info \<Rightarrow> correctgps_worker fp c info) (\<lambda>c.
        let s = s\<lparr>heap := (heap s)(a \<mapsto> c)\<rparr> in
        if GetSend2CarServer c \<and> length (cstr (serial c)) \<noteq> 0 then
          rbind (Send2CarServer fp g net c) (\<lambda>r. case r of
              None \<Rightarrow> Inr None
            | Some (sender, es) \<Rightarrow> Inr (Some (Some a, s, es)))
        else Inr (Some (None, s, [])))))"

text \<open>After the lock is released the client is read again for its descriptor and killed.\<close>

definition finish :: "nat option \<Rightarrow> 'd manager \<Rightarrow> ('d manager \<times> effect list) res" where
  "finish pc s = (case pc of None \<Rightarrow> Inr (s, [])
     | Some a \<Rightarrow> rbind (deref s a) (\<lambda>c. DoKill (cfd c) s))"

text \<open>One whole iteration of \<open>run\<close> by one worker, with nothing in between; its local descriptor goes in and out.\<close>

definition run_once :: "'d fpops \<Rightarrow> Ccfg \<Rightarrow> network \<Rightarrow> int \<Rightarrow> 'd manager \<Rightarrow> (int \<times> 'd manager \<times> effect list) option res" where
  "run_once fp g net fd s =
     (let (fd, s) = take_message fd s in
      if allExitFlag s then Inr (Some (fd, s, []))
      else rbind (work fp g net fd s) (\<lambda>r. case r of
          None \<Rightarrow> Inr None
        | Some (pc, s, e1) \<Rightarrow> rbind (finish pc s) (\<lambda>(s, e2). Inr (Some (fd, s, e1 @ e2)))))"

section \<open>The invariant of the client map\<close>

text \<open>
  The map is ordered, its pointers are live, pairwise different and belong to clients of their own
  descriptor, every live client is in the map, and there are never more than \<open>max_clients\<close>.
\<close>

definition mgr_inv :: "Ccfg \<Rightarrow> 'd manager \<Rightarrow> bool" where
  "mgr_inv g s \<longleftrightarrow> sorted_wrt (<) (map fst (clientqueue s)) \<and> distinct (map snd (clientqueue s))
     \<and> (\<forall>fd a. (fd, a) \<in> set (clientqueue s) \<longrightarrow> (\<exists>c. heap s a = Some c \<and> cfd c = fd \<and> buf_inv c))
     \<and> dom (heap s) = snd ` set (clientqueue s) \<and> (\<forall>a\<in>dom (heap s). a < fresh s)
     \<and> length (clientqueue s) \<le> unat (max_clients g)"

lemma mgr_inv_new [simp]: "mgr_inv g new_manager"
  by (simp add: mgr_inv_def new_manager_def)

lemma mgr_inv_msgs [simp]:
  "mgr_inv g (s\<lparr>msglist := m\<rparr>) = mgr_inv g s" "mgr_inv g (s\<lparr>test_cond := b\<rparr>) = mgr_inv g s"
  "mgr_inv g (s\<lparr>infomap := i\<rparr>) = mgr_inv g s" "mgr_inv g (s\<lparr>allExitFlag := b\<rparr>) = mgr_inv g s"
  "mgr_inv g (s\<lparr>threadlist := t\<rparr>) = mgr_inv g s"
  by (simp_all add: mgr_inv_def)

lemma mgr_inv_live:
  "mgr_inv g s \<Longrightarrow> (fd, a) \<in> set (clientqueue s) \<Longrightarrow> \<exists>c. heap s a = Some c \<and> cfd c = fd \<and> buf_inv c"
  by (simp add: mgr_inv_def)

lemma mgr_inv_lookup:
  assumes "mgr_inv g s" and "map_of (clientqueue s) fd = Some a"
  shows "\<exists>c. heap s a = Some c \<and> cfd c = fd \<and> buf_inv c"
  by (rule mgr_inv_live [OF assms(1) map_of_SomeD [OF assms(2)]])

lemma mgr_inv_distinct: "mgr_inv g s \<Longrightarrow> distinct (map fst (clientqueue s))"
  unfolding mgr_inv_def by (metis strict_sorted_iff)

lemma mgr_inv_owner:
  assumes "mgr_inv g s" and "heap s a = Some c"
  shows "map_of (clientqueue s) (cfd c) = Some a"
proof -
  have "a \<in> snd ` set (clientqueue s)" using assms by (auto simp: mgr_inv_def)
  then obtain fd where m: "(fd, a) \<in> set (clientqueue s)" by auto
  then have "cfd c = fd" using mgr_inv_live [OF assms(1) m] assms(2) by simp
  with m show ?thesis using mgr_inv_distinct [OF assms(1)] by simp
qed

lemma mgr_inv_update:
  assumes "mgr_inv g s" and "heap s a = Some c" and "cfd c' = cfd c" and "buf_inv c'"
  shows "mgr_inv g (s\<lparr>heap := (heap s)(a \<mapsto> c')\<rparr>)"
  using assms by (fastforce simp: mgr_inv_def insert_absorb)

lemma map_erase_set: "set (map_erase fd q) = {e \<in> set q. fst e \<noteq> fd}"
  by (auto simp: map_erase_def)

lemma DoKill_spec:
  assumes inv: "mgr_inv g s"
  shows "\<exists>s' es. DoKill fd s = Inr (s', es) \<and> mgr_inv g s' \<and> map_of (clientqueue s') fd = None
     \<and> clientqueue s' = map_erase fd (clientqueue s) \<and> msglist s' = msglist s \<and> test_cond s' = test_cond s
     \<and> infomap s' = infomap s \<and> allExitFlag s' = allExitFlag s
     \<and> heap s' = (case map_of (clientqueue s) fd of None \<Rightarrow> heap s | Some a \<Rightarrow> (heap s)(a := None))
     \<and> (fd \<noteq> INVALID_SOCKET \<longrightarrow> (EClose fd \<in> set es \<longleftrightarrow> map_of (clientqueue s) fd \<noteq> None))"
proof (cases "map_of (clientqueue s) fd")
  case None
  then have "map_erase fd (clientqueue s) = clientqueue s"
    by (auto simp: map_erase_def map_of_eq_None_iff intro!: filter_True)
  with None inv show ?thesis by (auto simp: DoKill_def say_def)
next
  case (Some a)
  obtain c where c: "heap s a = Some c" "cfd c = fd" using mgr_inv_lookup [OF inv Some] by auto
  let ?s = "s\<lparr>heap := (heap s)(a := None), clientqueue := map_erase fd (clientqueue s)\<rparr>"
  have k: "DoKill fd s = Inr (?s, say (''CclientManager::DoKill('' @ print_int fd @ '')'') # snd (Close c))"
    using Some c by (simp add: DoKill_def delete_client_def deref_def)
  have uniq: "fd' = fd \<longleftrightarrow> a' = a" if "(fd', a') \<in> set (clientqueue s)" for fd' a'
    using that map_of_SomeD [OF Some] inv mgr_inv_distinct [OF inv]
    by (metis c fst_conv map_of_is_SomeI mgr_inv_lookup option.inject)
  have "mgr_inv g ?s"
  proof -
    have "sorted_wrt (<) (map fst (map_erase fd (clientqueue s)))"
      using inv sorted_wrt_filter [of "\<lambda>x y. fst x < fst y" "clientqueue s" "\<lambda>e. fst e \<noteq> fd"]
      by (simp add: mgr_inv_def map_erase_def sorted_wrt_map)
    moreover have "distinct (map snd (map_erase fd (clientqueue s)))"
      using inv by (simp add: mgr_inv_def map_erase_def distinct_map_filter)
    moreover have "dom ((heap s)(a := None)) = snd ` set (map_erase fd (clientqueue s))"
    proof -
      have "dom ((heap s)(a := None)) = snd ` set (clientqueue s) - {a}" using inv by (simp add: mgr_inv_def)
      also have "\<dots> = snd ` {e \<in> set (clientqueue s). fst e \<noteq> fd}"
      proof (intro equalityI subsetI)
        fix b
        assume "b \<in> snd ` set (clientqueue s) - {a}"
        then obtain k where "(k, b) \<in> set (clientqueue s)" "b \<noteq> a" by auto
        then show "b \<in> snd ` {e \<in> set (clientqueue s). fst e \<noteq> fd}" using uniq by (intro image_eqI [of _ _ "(k, b)"]) auto
      next
        fix b
        assume "b \<in> snd ` {e \<in> set (clientqueue s). fst e \<noteq> fd}"
        then obtain k where "(k, b) \<in> set (clientqueue s)" "k \<noteq> fd" by auto
        then show "b \<in> snd ` set (clientqueue s) - {a}" using uniq by force
      qed
      finally show ?thesis by (simp only: map_erase_set)
    qed
    moreover have "length (map_erase fd (clientqueue s)) \<le> unat (max_clients g)"
    proof -
      have "length (map_erase fd (clientqueue s)) \<le> length (clientqueue s)" by (simp add: map_erase_def)
      also have "\<dots> \<le> unat (max_clients g)" using inv by (simp add: mgr_inv_def)
      finally show ?thesis .
    qed
    moreover have "\<exists>c. ((heap s)(a := None)) b = Some c \<and> cfd c = k \<and> buf_inv c"
      if "(k, b) \<in> set (map_erase fd (clientqueue s))" for k b
      using that uniq [of k b] mgr_inv_live [OF inv, of k b] by (auto simp: map_erase_set)
    moreover have "\<forall>b\<in>dom ((heap s)(a := None)). b < fresh s" using inv by (simp add: mgr_inv_def)
    ultimately show ?thesis unfolding mgr_inv_def by simp
  qed
  moreover have "map_of (map_erase fd (clientqueue s)) fd = None" by (auto simp: map_of_eq_None_iff map_erase_set)
  ultimately show ?thesis using k Some c by (auto simp: Close_def say_def Let_def)
qed

lemma map_set_fst [simp]: "map fst (map_set fd a q) = map fst q"
  by (induction q) (auto simp: map_set_def)

lemma map_set_absent: "fd \<notin> fst ` set q \<Longrightarrow> map_set fd a q = q"
  by (induction q) (auto simp: map_set_def)

text \<open>Replacing the pointer of a key: the other pairs stay.\<close>

lemma map_set_split:
  assumes "distinct (map fst (u @ (fd, old) # v))"
  shows "map_set fd a (u @ (fd, old) # v) = u @ (fd, a) # v"
proof -
  have "map_set fd a u = u" "map_set fd a v = v" using assms by (auto intro!: map_set_absent)
  then show ?thesis by (simp add: map_set_def)
qed

lemma fresh_not_live: "mgr_inv g s \<Longrightarrow> heap s (fresh s) = None \<and> fresh s \<notin> snd ` set (clientqueue s)"
  by (metis mgr_inv_def domIff less_irrefl)

text \<open>A map with one pair put in or exchanged, the heap changed to match.\<close>

lemma mgr_inv_insert:
  assumes inv: "mgr_inv g s" and split: "clientqueue s = u @ m @ v" "m = [] \<or> m = [(fd, old)]"
    and room: "length (u @ (fd, fresh s) # v) \<le> unat (max_clients g)"
    and sorted: "sorted_wrt (<) (map fst (u @ (fd, fresh s) # v))"
    and h: "h = (if m = [] then heap s else (heap s)(old := None))(fresh s \<mapsto> new_CClient now fd)"
  shows "mgr_inv g (s\<lparr>heap := h, fresh := Suc (fresh s), clientqueue := u @ (fd, fresh s) # v\<rparr>)"
proof -
  let ?n = "fresh s"
  have n: "?n \<notin> snd ` set (clientqueue s)" "heap s ?n = None" using fresh_not_live [OF inv] by auto
  have d: "distinct (map snd (u @ m @ v))" and dom: "dom (heap s) = snd ` set (u @ m @ v)"
    using inv split by (auto simp: mgr_inv_def)
  have old: "old \<notin> snd ` set (u @ v)" if "m = [(fd, old)]" using d that by auto
  have live: "\<exists>c. h b = Some c \<and> cfd c = k \<and> buf_inv c" if "(k, b) \<in> set (u @ v)" for k b
  proof -
    have "b \<noteq> ?n" using n(1) that split(1) by force
    moreover have "m = [] \<or> b \<noteq> old" using old split(2) that by force
    moreover have "\<exists>c. heap s b = Some c \<and> cfd c = k \<and> buf_inv c" using mgr_inv_live [OF inv, of k b] that split(1) by auto
    ultimately show ?thesis using h by auto
  qed
  have "dom h = insert ?n (snd ` set (u @ v))" using h dom split(2) old by auto
  moreover have "distinct (map snd (u @ (fd, ?n) # v))" using d n(1) split(1) by auto
  moreover have "\<forall>b\<in>dom h. b < Suc ?n"
    using inv h by (auto simp: mgr_inv_def less_Suc_eq split: if_splits)
  moreover have "h ?n = Some (new_CClient now fd)" "buf_inv (new_CClient now fd :: 'a CClient)"
    using h by (auto simp: buf_inv_def)
  ultimately show ?thesis unfolding mgr_inv_def using live sorted room by (auto simp del: map_append)
qed

lemma AddToQueue_spec:
  assumes inv: "mgr_inv g s"
  shows "\<exists>s' es. AddToQueue g now fd s = Inr (s', es) \<and> mgr_inv g s' \<and> msglist s' = msglist s \<and> test_cond s' = test_cond s
     \<and> infomap s' = infomap s \<and> allExitFlag s' = allExitFlag s
     \<and> (if length (clientqueue s) < unat (max_clients g)
        then (\<exists>a. map_of (clientqueue s') = (map_of (clientqueue s))(fd \<mapsto> a) \<and> heap s' a = Some (new_CClient now fd))
          \<and> (fd \<noteq> INVALID_SOCKET \<longrightarrow> (EClose fd \<in> set es \<longleftrightarrow> map_of (clientqueue s) fd \<noteq> None))
        else s' = s \<and> (\<forall>k. EClose k \<notin> set es))"
proof (cases "length (clientqueue s) < unat (max_clients g)")
  case False
  then show ?thesis using inv by (auto simp: AddToQueue_def GetNewClient_def say_def)
next
  case room: True
  let ?n = "fresh s" and ?c = "new_CClient now fd :: 'a CClient"
  have sorted: "sorted_wrt (<) (map fst (clientqueue s))" using inv by (simp add: mgr_inv_def)
  show ?thesis
  proof (cases "map_of (clientqueue s) fd")
    case None
    then have absent: "fd \<notin> fst ` set (clientqueue s)" by (simp add: map_of_eq_None_iff)
    obtain u v where uv: "clientqueue s = u @ v" "ins_new fd ?n (clientqueue s) = u @ (fd, ?n) # v"
      using ins_new_place [OF sorted absent, of ?n] by auto
    let ?s = "s\<lparr>heap := (heap s)(?n \<mapsto> ?c), fresh := Suc ?n, clientqueue := ins_new fd ?n (clientqueue s)\<rparr>"
    have "mgr_inv g ?s"
      using mgr_inv_insert [OF inv, of u "[]" v fd 0 "(heap s)(?n \<mapsto> ?c)" now] uv room sorted_ins_new [OF sorted, of fd ?n] by simp
    moreover have "map_of (ins_new fd ?n (clientqueue s)) = (map_of (clientqueue s))(fd \<mapsto> ?n)"
      using map_of_ins_new [OF sorted absent] .
    ultimately show ?thesis using room None
      by (auto simp: AddToQueue_def GetNewClient_def say_def)
  next
    case (Some old)
    obtain u v where uv: "clientqueue s = u @ (fd, old) # v" using map_of_SomeD [OF Some] by (metis in_set_conv_decomp)
    obtain c where c: "heap s old = Some c" "cfd c = fd" using mgr_inv_lookup [OF inv Some] by auto
    have on: "old \<noteq> ?n" using fresh_not_live [OF inv] c by auto
    let ?h = "((heap s)(?n \<mapsto> ?c))(old := None)"
    let ?s = "s\<lparr>heap := ?h, fresh := Suc ?n, clientqueue := map_set fd ?n (clientqueue s)\<rparr>"
    have q: "map_set fd ?n (clientqueue s) = u @ (fd, ?n) # v"
      using map_set_split [of u fd old v] mgr_inv_distinct [OF inv] uv by simp
    have "mgr_inv g ?s"
      using mgr_inv_insert [OF inv, of u "[(fd, old)]" v fd old ?h now] uv room q sorted on
      by (simp add: fun_upd_twist)
    moreover have "map_of (map_set fd ?n (clientqueue s)) = (map_of (clientqueue s))(fd \<mapsto> ?n)"
    proof -
      have "fd \<notin> dom (map_of u)" using mgr_inv_distinct [OF inv] uv by (auto simp: dom_map_of_conv_image_fst)
      then have "map_of (u @ (fd, ?n) # v) = (map_of (u @ (fd, old) # v))(fd \<mapsto> ?n)"
        by (auto simp: fun_eq_iff map_add_def split: option.splits)
      then show ?thesis by (simp only: q uv [symmetric])
    qed
    moreover have "AddToQueue g now fd s = Inr (?s, [say (''[log][CClientManager::AddToQueue('' @ print_int fd @ '')'')] @ snd (Close c))"
      using room Some c on by (simp add: AddToQueue_def GetNewClient_def delete_client_def deref_def)
    ultimately show ?thesis using room Some c on by (auto simp: Close_def say_def Let_def)
  qed
qed

section \<open>Every operation keeps the invariant\<close>

lemma notificationthreads_inv: "mgr_inv g s \<Longrightarrow> mgr_inv g (fst (notificationthreads fd s))"
  by (simp add: notificationthreads_def)

lemma run_effects_spec:
  "mgr_inv g s \<Longrightarrow> \<exists>s' es'. run_effects es s = Inr (s', es') \<and> mgr_inv g s' \<and> infomap s' = infomap s"
proof (induction es arbitrary: s)
  case Nil
  then show ?case by simp
next
  case (Cons e es)
  show ?case
  proof (cases e)
    case (EKill fd)
    obtain s1 e1 where "DoKill fd s = Inr (s1, e1)" "mgr_inv g s1" "infomap s1 = infomap s"
      using DoKill_spec [OF Cons.prems, of fd] by auto
    with Cons.IH [of s1] EKill show ?thesis by auto
  next
    case (ENotify fd)
    with Cons.IH [OF notificationthreads_inv [OF Cons.prems], of fd] show ?thesis
      by (auto simp: notificationthreads_def)
  qed (use Cons.IH [OF Cons.prems] in auto)
qed

lemma receive_at_inv:
  assumes "mgr_inv g s" and "receive_at mode ltm a avail s = Inr (s', es)"
  shows "mgr_inv g s' \<and> infomap s' = infomap s"
proof -
  obtain c c' e where h: "heap s a = Some c" "receive mode ltm c avail = Inr (c', e)"
    "run_effects e (s\<lparr>heap := (heap s)(a \<mapsto> c')\<rparr>) = Inr (s', es)"
    using assms(2) by (auto simp: receive_at_def deref_def split: option.splits)
  have "buf_inv c" using mgr_inv_lookup [OF assms(1) mgr_inv_owner [OF assms(1) h(1)]] h(1) by simp
  then have "buf_inv c' \<and> cfd c' = cfd c" by (rule receive_inv [OF h(2)])
  then have "mgr_inv g (s\<lparr>heap := (heap s)(a \<mapsto> c')\<rparr>)" using mgr_inv_update [OF assms(1) h(1)] by simp
  from run_effects_spec [OF this, of e] h(3) show ?thesis by simp
qed

lemma DoRead_inv:
  assumes "mgr_inv g s" and "DoRead mode ltm fd avail s = Inr (s', es)"
  shows "mgr_inv g s' \<and> infomap s' = infomap s"
proof (cases "map_of (clientqueue s) fd")
  case None
  then show ?thesis using assms by (simp add: DoRead_def)
next
  case (Some a)
  then obtain e where "receive_at mode ltm a avail s = Inr (s', e)"
    using assms(2) by (auto simp: DoRead_def)
  then show ?thesis by (rule receive_at_inv [OF assms(1)])
qed

lemma worker_frame:
  assumes "correctgps_worker fp c info = Inr c'"
  shows "cfd c' = cfd c \<and> buf_inv c' = buf_inv c \<and> serial c' = serial c \<and> md5 c' = md5 c \<and> status c' = 2"
proof -
  obtain p :: "'a CPOI option" where "c' = SetSend2CarServer (c\<lparr>xgps := map_option poi_dx p, ygps := map_option poi_dy p\<rparr>)"
    using assms unfolding correctgps_worker_def Let_def by auto
  then show ?thesis by (simp add: SetSend2CarServer_def buf_inv_def)
qed

lemma work_inv:
  assumes inv: "mgr_inv g s" and "work fp g' net fd s = Inr (Some (pc, s', es))"
  shows "mgr_inv g s' \<and> infomap s' = infomap s \<and> clientqueue s' = clientqueue s
     \<and> pc \<in> {None, map_of (clientqueue s) fd}"
proof (cases "map_of (clientqueue s) fd")
  case None
  then show ?thesis using assms by (simp add: work_def getClientMap_def)
next
  case (Some a)
  obtain c where c: "heap s a = Some c" "buf_inv c" using mgr_inv_lookup [OF inv Some] by auto
  obtain info c' where w: "infomap s = Some info" "correctgps_worker fp c info = Inr c'"
    using assms(2) Some c by (auto simp: work_def getClientMap_def deref_def split: option.splits)
  let ?s = "s\<lparr>heap := (heap s)(a \<mapsto> c')\<rparr>"
  have "mgr_inv g ?s" using mgr_inv_update [OF inv c(1), of c'] worker_frame [OF w(2)] c(2) by simp
  moreover have "s' = ?s \<and> pc \<in> {None, Some a}"
    using assms(2) Some c w
    by (auto simp: work_def getClientMap_def deref_def Let_def split: option.splits if_splits)
  ultimately show ?thesis using Some by auto
qed

lemma finish_spec:
  assumes "mgr_inv g s" and "pc \<in> {None, map_of (clientqueue s) fd}"
  shows "\<exists>s' es. finish pc s = Inr (s', es) \<and> mgr_inv g s' \<and> infomap s' = infomap s
     \<and> (pc \<noteq> None \<longrightarrow> map_of (clientqueue s') fd = None)"
proof (cases pc)
  case None
  then show ?thesis using assms(1) by (simp add: finish_def)
next
  case (Some a)
  then have "map_of (clientqueue s) fd = Some a" using assms(2) by simp
  then obtain c where "heap s a = Some c" "cfd c = fd" using mgr_inv_lookup [OF assms(1)] by auto
  with Some DoKill_spec [OF assms(1), of fd] show ?thesis by (auto simp: finish_def deref_def)
qed

lemma take_message_inv: "take_message fd s = (fd', s') \<Longrightarrow> mgr_inv g s \<Longrightarrow> mgr_inv g s' \<and> infomap s' = infomap s"
  by (auto simp: take_message_def take_front_def Let_def split: list.splits)

lemma run_once_inv:
  assumes inv: "mgr_inv g s" and "run_once fp g net fd s = Inr (Some (fd', s', es))"
  shows "mgr_inv g s' \<and> infomap s' = infomap s"
proof -
  obtain f1 s1 where t: "take_message fd s = (f1, s1)" by (cases "take_message fd s")
  have i1: "mgr_inv g s1" "infomap s1 = infomap s" using take_message_inv [OF t inv] by auto
  show ?thesis
  proof (cases "allExitFlag s1")
    case True
    then show ?thesis using assms(2) t i1 by (simp add: run_once_def)
  next
    case False
    then obtain pc s2 e1 e2 where w: "work fp g net f1 s1 = Inr (Some (pc, s2, e1))" "finish pc s2 = Inr (s', e2)"
      using assms(2) t by (auto simp: run_once_def split: option.splits)
    have i2: "mgr_inv g s2 \<and> infomap s2 = infomap s1 \<and> clientqueue s2 = clientqueue s1 \<and> pc \<in> {None, map_of (clientqueue s1) f1}"
      by (rule work_inv [OF i1(1) w(1)])
    then obtain s3 e3 where "finish pc s2 = Inr (s3, e3)" "mgr_inv g s3" "infomap s3 = infomap s2"
      using finish_spec [of g s2 pc f1] by auto
    with w(2) i2 i1 show ?thesis by simp
  qed
qed

section \<open>The manager as a machine\<close>

text \<open>
  The events that reach the manager: an accepted descriptor, bytes on a descriptor, a hang-up, and one
  iteration of a worker, whose local descriptor is part of the state. A worker that waits for the
  car server for ever keeps the lock of the map: the run stops there.
\<close>

datatype mgr_event =
    Accepted int int
  | Readable int "string option"
  | HungUp int
  | Woken network

definition mgr_step :: "copy_sem \<Rightarrow> tm \<Rightarrow> 'd fpops \<Rightarrow> Ccfg \<Rightarrow> int \<times> 'd manager \<Rightarrow> mgr_event \<Rightarrow> (int \<times> 'd manager) res" where
  "mgr_step mode ltm fp g = (\<lambda>(wfd, s) e. case e of
      Accepted now fd \<Rightarrow> rbind (AddToQueue g now fd s) (\<lambda>(s, es). Inr (wfd, s))
    | Readable fd avail \<Rightarrow> rbind (DoRead mode ltm fd avail s) (\<lambda>(s, es). Inr (wfd, s))
    | HungUp fd \<Rightarrow> rbind (DoKill fd s) (\<lambda>(s, es). Inr (wfd, s))
    | Woken net \<Rightarrow> rbind (run_once fp g net wfd s) (\<lambda>r. case r of
          None \<Rightarrow> Inl Blocked
        | Some (wfd, s, es) \<Rightarrow> Inr (wfd, s)))"

lemma mgr_step_inv:
  assumes "mgr_inv g (snd s)" and "mgr_step mode ltm fp g s e = Inr s'"
  shows "mgr_inv g (snd s')"
proof -
  obtain wfd m where s: "s = (wfd, m)" by (cases s)
  then have m: "mgr_inv g m" using assms(1) by simp
  show ?thesis
  proof (cases e)
    case (Accepted now fd)
    then show ?thesis using AddToQueue_spec [OF m, of now fd] assms(2) s by (auto simp: mgr_step_def)
  next
    case (Readable fd avail)
    then obtain m' es where "DoRead mode ltm fd avail m = Inr (m', es)" "s' = (wfd, m')"
      using assms(2) s by (auto simp: mgr_step_def)
    then show ?thesis using DoRead_inv [OF m] by auto
  next
    case (HungUp fd)
    then show ?thesis using DoKill_spec [OF m, of fd] assms(2) s by (auto simp: mgr_step_def)
  next
    case (Woken net)
    then obtain m' es where "run_once fp g net wfd m = Inr (Some (fst s', m', es))" "snd s' = m'"
      using assms(2) s by (auto simp: mgr_step_def split: option.splits)
    then show ?thesis using run_once_inv [OF m] by auto
  qed
qed

interpretation mgr: invariant_machine "mgr_step mode ltm fp g" "\<lambda>s. mgr_inv g (snd s)" for mode ltm fp g
  by unfold_locales (rule mgr_step_inv)

text \<open>
  C9. Whatever connections are accepted, whatever they send and whatever the workers do: every pointer in
  the client map is a live client with the descriptor of its key, no live client is outside the map, and
  the map never holds more than the configured number of clients.
\<close>

theorem manager_invariant:
  assumes "run_steps (mgr_step mode ltm fp g) (wfd, setinfomap info new_manager) events = Inr (wfd', s)"
  shows "(\<forall>fd a. map_of (clientqueue s) fd = Some a \<longrightarrow> (\<exists>c. heap s a = Some c \<and> cfd c = fd))
     \<and> dom (heap s) = snd ` set (clientqueue s) \<and> GetActiveSize s \<le> unat (max_clients g)"
proof -
  have "mgr_inv g (snd (wfd, setinfomap info (new_manager :: 'a manager)))" by (simp add: setinfomap_def)
  from mgr.run_inv [OF this assms] have inv: "mgr_inv g s" by simp
  then show ?thesis using mgr_inv_lookup [OF inv] by (auto simp: mgr_inv_def GetActiveSize_def)
qed

theorem manager_invariant_witness:
  "\<exists>s. run_steps (mgr_step CopyStrict sample_tm int_fp sample_cfg) (-1, setinfomap [] new_manager)
       [Accepted 0 7, Accepted 0 5, HungUp 7] = Inr (-1, s)
     \<and> clientqueue s = [(5, 1)] \<and> dom (heap s) = snd ` set (clientqueue s)"
proof -
  have r: "\<exists>s. run_steps (mgr_step CopyStrict sample_tm int_fp sample_cfg) (-1, setinfomap [] new_manager)
       [Accepted 0 7, Accepted 0 5, HungUp 7] = Inr (-1, s) \<and> clientqueue s = [(5, 1)]"
    by (simp add: mgr_step_def AddToQueue_def GetNewClient_def DoKill_def delete_client_def deref_def map_erase_def
        new_manager_def setinfomap_def)
  then show ?thesis using manager_invariant by blast
qed

text \<open>Connections come, go and complete without a fault: these events never stop the manager.\<close>

datatype conn_event = CAccept int int | CKill int | CNotify int

definition conn_step :: "Ccfg \<Rightarrow> 'd manager \<Rightarrow> conn_event \<Rightarrow> 'd manager res" where
  "conn_step g s e = (case e of
      CAccept now fd \<Rightarrow> rbind (AddToQueue g now fd s) (\<lambda>(s, es). Inr s)
    | CKill fd \<Rightarrow> rbind (DoKill fd s) (\<lambda>(s, es). Inr s)
    | CNotify fd \<Rightarrow> Inr (fst (notificationthreads fd s)))"

lemma conn_step_spec: "mgr_inv g s \<Longrightarrow> \<exists>s'. conn_step g s e = Inr s' \<and> mgr_inv g s'"
  using AddToQueue_spec [of g s] DoKill_spec [of g s] notificationthreads_inv [of g s]
  by (cases e) (fastforce simp: conn_step_def)+

interpretation conns: total_machine "conn_step g" "mgr_inv g" for g
proof unfold_locales
  fix s s' :: "'d manager" and e
  assume "mgr_inv g s" "conn_step g s e = Inr s'"
  then show "mgr_inv g s'" using conn_step_spec [of g s e] by auto
next
  fix s :: "'d manager" and e
  assume "mgr_inv g s"
  then show "no_fault (conn_step g s e)" using conn_step_spec [of g s e] by (auto simp: no_fault_def)
qed

text \<open>
  C29. Accepting, killing and notifying never fault, in any order and for any descriptors, repeated ones
  included: no pointer of the map is ever deleted twice.
\<close>

theorem connection_events_safe: "no_fault (run_steps (conn_step g) new_manager es)"
  by (rule conns.run_safe) simp

section \<open>Where descriptors get lost\<close>

text \<open>
  C30. What \<open>AddToQueue\<close> does with an accepted descriptor: with room and no entry it stores a new client;
  with a stale entry of the same number it also closes that number, which is now the new connection; at
  capacity it changes nothing and closes nothing, so that the descriptor stays open and unserved.
\<close>

theorem AddToQueue_outcomes:
  assumes "mgr_inv g s" and "fd \<noteq> INVALID_SOCKET"
  shows "\<exists>s' es. AddToQueue g now fd s = Inr (s', es) \<and>
     (if length (clientqueue s) < unat (max_clients g)
      then (\<exists>a. map_of (clientqueue s') = (map_of (clientqueue s))(fd \<mapsto> a) \<and> heap s' a = Some (new_CClient now fd))
        \<and> (EClose fd \<in> set es \<longleftrightarrow> fd \<in> fst ` set (clientqueue s))
      else s' = s \<and> (\<forall>k. EClose k \<notin> set es))"
proof -
  have "map_of (clientqueue s) fd \<noteq> None \<longleftrightarrow> fd \<in> fst ` set (clientqueue s)"
    by (simp only: map_of_eq_None_iff not_not)
  then show ?thesis using AddToQueue_spec [OF assms(1), of now fd] assms(2) by (auto split: if_splits)
qed

definition one_client :: "int manager" where
  "one_client = new_manager\<lparr>heap := [0 \<mapsto> new_CClient 0 7], fresh := 1, clientqueue := [(7, 0)], infomap := Some []\<rparr>"

lemma one_client_inv: "mgr_inv sample_cfg one_client"
  by (simp add: mgr_inv_def one_client_def new_manager_def buf_inv_def)

theorem AddToQueue_outcomes_witness:
  "\<exists>s' es. AddToQueue sample_cfg 1 7 one_client = Inr (s', es) \<and> EClose 7 \<in> set es"
  using AddToQueue_outcomes [OF one_client_inv, of 7 1] by (auto simp: one_client_def new_manager_def)

text \<open>
  The timeout check uses the iterator it has just erased whenever there is a client without a serial
  number and a timeout is configured: the age of the connection plays no role.
\<close>

theorem killTimeoutClient_iterator:
  assumes inv: "mgr_inv g s" and "outtime_s g \<noteq> 0"
  shows "(case killTimeoutClient g now s of Inl e \<Rightarrow> e = IterInvalid | Inr r \<Rightarrow> r = (s, []))
     \<and> (killTimeoutClient g now s = Inl IterInvalid \<longleftrightarrow>
         (\<exists>fd a c. (fd, a) \<in> set (clientqueue s) \<and> heap s a = Some c \<and> length (cstr (serial c)) = 0))"
proof -
  let ?idle = "\<lambda>q. \<exists>fd a c. (fd, a) \<in> set q \<and> heap s a = Some c \<and> length (cstr (serial c)) = 0"
  have k: "kill_loop g now q s = (if ?idle q then Inl IterInvalid else Inr (s, []))"
    if "set q \<subseteq> set (clientqueue s)" for q
    using that
  proof (induction q)
    case Nil
    then show ?case by simp
  next
    case (Cons e q)
    obtain fd a where e: "e = (fd, a)" by (cases e)
    then obtain c where c: "heap s a = Some c" using mgr_inv_live [OF inv, of fd a] Cons.prems by auto
    obtain s1 e1 where "DoKill fd s = Inr (s1, e1)" using DoKill_spec [OF inv, of fd] by auto
    with e c Cons assms(2) show ?case by (auto simp: deref_def)
  qed
  show ?thesis using k [of "clientqueue s"] by (simp add: killTimeoutClient_def)
qed

theorem killTimeoutClient_iterator_witness: "killTimeoutClient sample_cfg 0 one_client = Inl IterInvalid"
proof -
  have "(7, 0) \<in> set (clientqueue one_client) \<and> heap one_client 0 = Some (new_CClient 0 7)
      \<and> length (cstr (serial (new_CClient 0 7 :: int CClient))) = 0"
    by (simp add: one_client_def new_manager_def)
  then have "\<exists>fd a c. (fd, a) \<in> set (clientqueue one_client) \<and> heap one_client a = Some c \<and> length (cstr (serial c)) = 0"
    by blast
  moreover have "outtime_s sample_cfg \<noteq> 0" by simp
  ultimately show ?thesis using killTimeoutClient_iterator [OF one_client_inv, of 0] by blast
qed

section \<open>Waking the workers\<close>

text \<open>
  C31. Two requests that complete while no worker waits set one flag: the first worker to come back takes the first message only
  and clears the flag for both. Although a message is left, a wait that times out does not pass: the second request is
  served only after a third one sets the flag again, or by a worker that a signal reaches while it waits.
\<close>

theorem second_request_waits:
  assumes s: "s = fst (notificationthreads fd2 (fst (notificationthreads fd1 s0)))" and "msglist s0 = []" and "\<not> allExitFlag s0"
  shows "wait_passes True s
     \<and> (\<exists>s1. take_message wfd s = (fd1, s1) \<and> msglist s1 = [fd2] \<and> (\<forall>timed_out. wait_passes timed_out s1 \<longleftrightarrow> \<not> timed_out)
        \<and> (\<forall>fd3. wait_passes True (fst (notificationthreads fd3 s1))))"
  using assms by (simp add: notificationthreads_def take_message_def take_front_def wait_passes_def)

theorem second_request_waits_witness:
  "\<exists>s1. take_message (-1) (fst (notificationthreads 8 (fst (notificationthreads 7 one_client)))) = (7, s1)
     \<and> msglist s1 = [8] \<and> \<not> wait_passes True s1"
  using second_request_waits [of "fst (notificationthreads 8 (fst (notificationthreads 7 one_client)))" 8 7 one_client "-1"]
  by (auto simp: one_client_def new_manager_def)

text \<open>
  A worker that finds no message works on the descriptor of its previous iteration; when that number has
  been given to a new connection that has sent nothing yet, it reads coordinates that were never written.
\<close>

theorem stale_descriptor:
  assumes "mgr_inv g s" and "msglist s = []" and "\<not> allExitFlag s" and "infomap s = Some info"
    and "map_of (clientqueue s) fd = Some a" and "heap s a = Some (new_CClient now fd)"
  shows "run_once fp g net fd s = Inl Indeterminate"
  using assms
  by (simp add: run_once_def take_message_def take_front_def Let_def work_def getClientMap_def deref_def correctgps_worker_def read_array_def
      new_CClient_def ini_def)

theorem stale_descriptor_witness:
  "run_once int_fp sample_cfg \<lparr>net_sock = -1, net_conn = ConnFailed, net_sels = [], net_recvs = [],
     net_heap = \<lparr>m_sockfd = 0, fb = (\<lambda>_. NUL)\<rparr>\<rparr> 7 one_client = Inl Indeterminate"
  by (rule stale_descriptor [OF one_client_inv, where a = 0 and info = "[]" and now = 0]) (simp_all add: one_client_def new_manager_def)

section \<open>Serving one request\<close>

lemma serve_request:
  assumes inv: "mgr_inv g s" and msg: "msglist s = fd # ms" "\<not> allExitFlag s" and fd: "fd \<noteq> INVALID_SOCKET"
    and c: "map_of (clientqueue s) fd = Some a" "heap s a = Some c" "infomap s = Some info"
    and w: "correctgps_worker fp c info = Inr c'" "cstr (serial c) \<noteq> []"
    and net: "Send2CarServer fp g net c' = Inr (Some (snd', es1))"
  shows "\<exists>s' es2. run_once fp g net wfd s = Inr (Some (fd, s', es1 @ es2)) \<and> mgr_inv g s'
     \<and> msglist s' = ms \<and> clientqueue s' = map_erase fd (clientqueue s) \<and> heap s' a = None \<and> EClose fd \<in> set es2"
proof -
  let ?s1 = "s\<lparr>test_cond := False, msglist := ms\<rparr>"
  let ?s2 = "?s1\<lparr>heap := (heap s)(a \<mapsto> c')\<rparr>"
  have t: "take_message wfd s = (fd, ?s1)" using msg by (simp add: take_message_def take_front_def Let_def)
  have fr: "cfd c' = cfd c" "buf_inv c' = buf_inv c" "serial c' = serial c" "status c' = 2" using worker_frame [OF w(1)] by auto
  have cf: "cfd c = fd" "buf_inv c" using mgr_inv_lookup [OF inv c(1)] c(2) by auto
  have "work fp g net fd ?s1 = Inr (Some (Some a, ?s2, es1))"
    using c w net fr by (simp add: work_def getClientMap_def deref_def GetSend2CarServer_def Let_def)
  moreover have "mgr_inv g ?s2" using mgr_inv_update [of g ?s1 a c c'] inv c(2) fr cf by simp
  then obtain s' es2 where k: "DoKill fd ?s2 = Inr (s', es2)" "mgr_inv g s'" "clientqueue s' = map_erase fd (clientqueue s)"
    "msglist s' = ms" "heap s' a = None" "EClose fd \<in> set es2"
    using DoKill_spec [of g ?s2 fd] c(1) fd by auto
  moreover have "finish (Some a) ?s2 = DoKill fd ?s2" using fr cf by (simp add: finish_def deref_def)
  ultimately show ?thesis using t msg(2) by (simp add: run_once_def)
qed

end
