(* ===== verification/Interleaving.thy ===== *)
theory Interleaving
  imports Manager
begin

text \<open>
  The main thread and \<open>max_worker\<close> workers on the same manager. A step of the system is what one of them does
  without another coming in between: \<open>DoRead\<close> searches the map, receives, parses and then calls the manager in four
  steps, because it has no lock while it does so; \<open>run\<close> clears the flag, takes a message, takes the lock of the map, serves,
  releases the lock, reads the descriptor of the client it has served and kills it. A worker keeps the lock for as long as the
  car server makes it wait, possibly for ever; nobody else enters the map by a locked operation meanwhile. Which thread moves
  is not determined. A step ends in a new state or in a fault.

  Steps are sequentially consistent, and the following are one step although the code has no lock around them: the size test of
  \<open>GetNewClient\<close> with the insertion that follows it (only the main thread inserts, so that a deletion in between just
  makes room; a connection that is refused needs no lock), \<open>parse\<close> on one client, and \<open>recv\<close> into its buffer. Races of \<open>parse\<close> with a worker on the fields of one client are
  therefore not faults of this model; a race with the deletion of the client, or of a node of the map, is.
\<close>

section \<open>Receiving in two parts\<close>

text \<open>
  The first part of \<open>CClient::receive\<close> stores what \<open>recv\<close> gives; the second parses it, or asks the manager to kill the client
  when there is nothing.
\<close>

definition recv_into :: "'d CClient \<Rightarrow> string option \<Rightarrow> 'd CClient \<times> nat option" where
  "recv_into c avail = (case avail of
      None \<Rightarrow> (c, None)
    | Some bs \<Rightarrow>
        let got = take (MAXBUF - offset c) bs in
        if got = [] then (c, None) else (c\<lparr>iobuf := store (iobuf c) (offset c) got\<rparr>, Some (length got)))"

lemma receive_split:
  "receive mode ltm c avail = (case recv_into c avail of
      (c', None) \<Rightarrow> Inr (c', [say ''CClient::receive'',
         say (if avail = None then ''CClient::receive len=-1'' else ''CClient::receive len=0''), EKill (cfd c')])
    | (c', Some n) \<Rightarrow> rbind (parse mode ltm c' n) (\<lambda>(c, es). Inr (c, say ''CClient::receive'' # es)))"
  by (auto simp: receive_def recv_into_def Let_def split: option.splits)

lemma recv_into_inv:
  assumes "recv_into c avail = (c', r)" and "buf_inv c"
  shows "buf_inv c' \<and> cfd c' = cfd c"
proof (cases "\<exists>bs. avail = Some bs \<and> take (MAXBUF - offset c) bs \<noteq> []")
  case False
  then show ?thesis using assms by (auto simp: recv_into_def Let_def split: option.splits)
next
  case True
  then obtain bs where bs: "avail = Some bs" "take (MAXBUF - offset c) bs \<noteq> []" by auto
  have "offset c + length (take (MAXBUF - offset c) bs) \<le> MAXBUF" using assms(2) by (auto simp: buf_inv_def)
  then show ?thesis using assms bs by (auto simp: recv_into_def buf_inv_def Let_def)
qed

section \<open>Steps\<close>

text \<open>
  The main thread searches the map from the nodes it saw when it began, holds a client it has found, parses what it has
  received into it, or makes the calls of \<open>parse\<close>. A worker waits, has been woken, has a message, holds the lock, holds a client
  it has served, has read that client's descriptor, or waits for the car server for ever.
\<close>

datatype main_pc = MIdle | MFinding int "(int \<times> nat) list" | MReading nat | MParsing nat nat | MEffects "effect list"

datatype worker_pc = WWait int | WWoken int | WTaken int | WLocked int | WKill nat int | WKilling int int | WHung int

record 'd system =
  mgr :: "'d manager"
  mpc :: main_pc
  wpc :: "nat \<Rightarrow> worker_pc"

definition start_system :: "'d INFO_MAP \<Rightarrow> 'd system" where
  "start_system info = \<lparr>mgr = setinfomap info new_manager, mpc = MIdle, wpc = (\<lambda>_. WWait INVALID_SOCKET)\<rparr>"

fun holds :: "worker_pc \<Rightarrow> bool" where
  "holds (WLocked fd) = True"
| "holds (WHung fd) = True"
| "holds pc = False"

definition lock_free :: "Ccfg \<Rightarrow> 'd system \<Rightarrow> bool" where
  "lock_free g s \<longleftrightarrow> (\<forall>w<unat (max_worker g). \<not> holds (wpc s w))"

inductive sys_step :: "copy_sem \<Rightarrow> tm \<Rightarrow> 'd fpops \<Rightarrow> Ccfg \<Rightarrow> 'd system \<Rightarrow> 'd system res \<Rightarrow> bool"
  for mode :: copy_sem and ltm :: tm and fp :: "'d fpops" and g :: Ccfg where
  accept: "mpc s = MIdle \<Longrightarrow> lock_free g s \<or> unat (max_clients g) \<le> length (clientqueue (mgr s)) \<Longrightarrow>
     sys_step mode ltm fp g s (rbind (AddToQueue g now fd (mgr s)) (\<lambda>(m, es). Inr (s\<lparr>mgr := m\<rparr>)))"
| hangup: "mpc s = MIdle \<Longrightarrow> lock_free g s \<Longrightarrow>
     sys_step mode ltm fp g s (rbind (DoKill fd (mgr s)) (\<lambda>(m, es). Inr (s\<lparr>mgr := m\<rparr>)))"
| find_begin: "mpc s = MIdle \<Longrightarrow>
     sys_step mode ltm fp g s (Inr (s\<lparr>mpc := MFinding fd (clientqueue (mgr s))\<rparr>))"
| find_hit: "mpc s = MFinding fd q \<Longrightarrow> map_of (clientqueue (mgr s)) fd = Some a \<Longrightarrow>
     sys_step mode ltm fp g s (Inr (s\<lparr>mpc := MReading a\<rparr>))"
| find_miss: "mpc s = MFinding fd q \<Longrightarrow> map_of (clientqueue (mgr s)) fd = None \<Longrightarrow>
     sys_step mode ltm fp g s (Inr (s\<lparr>mpc := MIdle\<rparr>))"
| find_race: "mpc s = MFinding fd q \<Longrightarrow> clientqueue (mgr s) \<noteq> q \<Longrightarrow> sys_step mode ltm fp g s (Inl UseAfterFree)"
| recv: "mpc s = MReading a \<Longrightarrow>
     sys_step mode ltm fp g s (rbind (deref (mgr s) a) (\<lambda>c. let (c', r) = recv_into c avail in
       Inr (s\<lparr>mgr := (mgr s)\<lparr>heap := (heap (mgr s))(a \<mapsto> c')\<rparr>,
              mpc := (case r of None \<Rightarrow> MEffects [EKill (cfd c')] | Some n \<Rightarrow> MParsing a n)\<rparr>)))"
| parse: "mpc s = MParsing a n \<Longrightarrow>
     sys_step mode ltm fp g s (rbind (deref (mgr s) a) (\<lambda>c. rbind (parse mode ltm c n) (\<lambda>(c', es).
       Inr (s\<lparr>mgr := (mgr s)\<lparr>heap := (heap (mgr s))(a \<mapsto> c')\<rparr>, mpc := MEffects es\<rparr>))))"
| effect: "mpc s = MEffects (e # es) \<Longrightarrow> (\<forall>fd. e = EKill fd \<longrightarrow> lock_free g s) \<Longrightarrow>
     sys_step mode ltm fp g s (rbind (run_effects [e] (mgr s)) (\<lambda>(m, e'). Inr (s\<lparr>mgr := m, mpc := MEffects es\<rparr>)))"
| read_end: "mpc s = MEffects [] \<Longrightarrow> sys_step mode ltm fp g s (Inr (s\<lparr>mpc := MIdle\<rparr>))"
| wake: "w < unat (max_worker g) \<Longrightarrow> wpc s w = WWait fd \<Longrightarrow> wait_passes timed_out (mgr s) \<Longrightarrow>
     sys_step mode ltm fp g s (Inr (s\<lparr>mgr := (mgr s)\<lparr>test_cond := False\<rparr>, wpc := (wpc s)(w := WWoken fd)\<rparr>))"
| pop: "w < unat (max_worker g) \<Longrightarrow> wpc s w = WWoken fd \<Longrightarrow> take_front fd (mgr s) = (fd', m) \<Longrightarrow>
     sys_step mode ltm fp g s (Inr (s\<lparr>mgr := m, wpc := (wpc s)(w := WTaken fd')\<rparr>))"
| lock: "w < unat (max_worker g) \<Longrightarrow> wpc s w = WTaken fd \<Longrightarrow> lock_free g s \<Longrightarrow>
     sys_step mode ltm fp g s (Inr (s\<lparr>wpc := (wpc s)(w := WLocked fd)\<rparr>))"
| serve: "w < unat (max_worker g) \<Longrightarrow> wpc s w = WLocked fd \<Longrightarrow> work fp g net fd (mgr s) = Inr (Some (Some a, m, es)) \<Longrightarrow>
     sys_step mode ltm fp g s (Inr (s\<lparr>mgr := m, wpc := (wpc s)(w := WKill a fd)\<rparr>))"
| skip: "w < unat (max_worker g) \<Longrightarrow> wpc s w = WLocked fd \<Longrightarrow> work fp g net fd (mgr s) = Inr (Some (None, m, es)) \<Longrightarrow>
     sys_step mode ltm fp g s (Inr (s\<lparr>mgr := m, wpc := (wpc s)(w := WWait fd)\<rparr>))"
| hang: "w < unat (max_worker g) \<Longrightarrow> wpc s w = WLocked fd \<Longrightarrow> work fp g net fd (mgr s) = Inr None \<Longrightarrow>
     sys_step mode ltm fp g s (Inr (s\<lparr>wpc := (wpc s)(w := WHung fd)\<rparr>))"
| serve_fault: "w < unat (max_worker g) \<Longrightarrow> wpc s w = WLocked fd \<Longrightarrow> work fp g net fd (mgr s) = Inl e \<Longrightarrow> sys_step mode ltm fp g s (Inl e)"
| kill_read: "w < unat (max_worker g) \<Longrightarrow> wpc s w = WKill a fd \<Longrightarrow>
     sys_step mode ltm fp g s (rbind (deref (mgr s) a) (\<lambda>c. Inr (s\<lparr>wpc := (wpc s)(w := WKilling (cfd c) fd)\<rparr>)))"
| kill: "w < unat (max_worker g) \<Longrightarrow> wpc s w = WKilling k fd \<Longrightarrow> lock_free g s \<Longrightarrow>
     sys_step mode ltm fp g s (rbind (DoKill k (mgr s)) (\<lambda>(m, es). Inr (s\<lparr>mgr := m, wpc := (wpc s)(w := WWait fd)\<rparr>)))"

inductive reachable :: "copy_sem \<Rightarrow> tm \<Rightarrow> 'd fpops \<Rightarrow> Ccfg \<Rightarrow> 'd INFO_MAP \<Rightarrow> 'd system \<Rightarrow> bool"
  for mode :: copy_sem and ltm :: tm and fp :: "'d fpops" and g :: Ccfg and info :: "'d INFO_MAP" where
  start: "reachable mode ltm fp g info (start_system info)"
| step: "reachable mode ltm fp g info s \<Longrightarrow> sys_step mode ltm fp g s (Inr t) \<Longrightarrow> reachable mode ltm fp g info t"

section \<open>What every interleaving keeps\<close>

lemma rbind_Inr_pair: "rbind m (\<lambda>(x, y). Inr (f x y)) = Inr t \<longleftrightarrow> (\<exists>x y. m = Inr (x, y) \<and> t = f x y)"
  by (cases m) auto

lemma rbind_Inl_pair: "rbind m (\<lambda>(x, y). Inr (f x y)) = Inl e \<longleftrightarrow> m = Inl e"
  by (cases m) auto

text \<open>What a step does to the manager, by kind of step.\<close>

lemma sys_step_mgr:
  assumes "sys_step mode ltm fp g s (Inr t)"
  obtains (same) "mgr t = mgr s"
    | (add) now fd es where "AddToQueue g now fd (mgr s) = Inr (mgr t, es)" "mpc s = MIdle"
    | (kill) fd es where "DoKill fd (mgr s) = Inr (mgr t, es)" "lock_free g s"
    | (recv) a c c' avail r where "mpc s = MReading a" "heap (mgr s) a = Some c" "recv_into c avail = (c', r)"
        "mgr t = (mgr s)\<lparr>heap := (heap (mgr s))(a \<mapsto> c')\<rparr>"
    | (parse) a n c c' es where "mpc s = MParsing a n" "heap (mgr s) a = Some c" "parse mode ltm c n = Inr (c', es)"
        "mgr t = (mgr s)\<lparr>heap := (heap (mgr s))(a \<mapsto> c')\<rparr>"
    | (effect) e es e' where "mpc s = MEffects (e # es)" "\<forall>fd. e = EKill fd \<longrightarrow> lock_free g s" "run_effects [e] (mgr s) = Inr (mgr t, e')"
    | (flag) "mgr t = (mgr s)\<lparr>test_cond := False\<rparr>"
    | (pop) fd fd' where "take_front fd (mgr s) = (fd', mgr t)"
    | (work) w fd net pc es where "wpc s w = WLocked fd" "work fp g net fd (mgr s) = Inr (Some (pc, mgr t, es))"
  using assms
proof (cases rule: sys_step.cases)
  case (accept now fd)
  then show thesis using that(2) by (auto simp: rbind_Inr_pair eq_commute [of "Inr t"])
next
  case (hangup fd)
  then show thesis using that(3) by (auto simp: rbind_Inr_pair eq_commute [of "Inr t"])
next
  case (recv a avail)
  then obtain c c' r where "heap (mgr s) a = Some c" "recv_into c avail = (c', r)" "mgr t = (mgr s)\<lparr>heap := (heap (mgr s))(a \<mapsto> c')\<rparr>"
    by (auto simp: deref_def eq_commute [of "Inr t"] split: option.splits prod.splits)
  then show thesis using that(4) recv by blast
next
  case (parse a n)
  then obtain c c' es where "heap (mgr s) a = Some c" "Client.parse mode ltm c n = Inr (c', es)" "mgr t = (mgr s)\<lparr>heap := (heap (mgr s))(a \<mapsto> c')\<rparr>"
    by (auto simp: deref_def eq_commute [of "Inr t"] split: option.splits)
  then show thesis using that(5) parse by blast
next
  case (effect e es)
  then show thesis using that(6) by (auto simp: rbind_Inr_pair eq_commute [of "Inr t"])
next
  case (kill w k fd)
  then show thesis using that(3) by (auto simp: rbind_Inr_pair eq_commute [of "Inr t"])
next
  case (kill_read w a fd)
  then show thesis using that(1) by (auto simp: eq_commute [of "Inr t"])
next
  case (wake w fd timed_out)
  then show thesis using that(7) by simp
next
  case (pop w fd fd' m)
  then show thesis using that(8) by simp
next
  case (serve w fd net a m es)
  then show thesis using that(9) by simp
next
  case (skip w fd net m es)
  then show thesis using that(9) by simp
qed (use that(1) in simp_all)

definition sys_inv :: "Ccfg \<Rightarrow> 'd INFO_MAP \<Rightarrow> 'd system \<Rightarrow> bool" where
  "sys_inv g info s \<longleftrightarrow> mgr_inv g (mgr s) \<and> infomap (mgr s) = Some info"

lemma take_front_inv: "take_front fd s = (fd', s') \<Longrightarrow> mgr_inv g s \<Longrightarrow> mgr_inv g s' \<and> infomap s' = infomap s"
  by (auto simp: take_front_def split: list.splits)

lemma sys_inv_store:
  assumes "sys_inv g info s" and "heap (mgr s) a = Some c" and "cfd c' = cfd c" and "buf_inv c \<Longrightarrow> buf_inv c'"
    and "mgr t = (mgr s)\<lparr>heap := (heap (mgr s))(a \<mapsto> c')\<rparr>"
  shows "sys_inv g info t"
proof -
  have inv: "mgr_inv g (mgr s)" using assms(1) by (simp add: sys_inv_def)
  have "buf_inv c" using mgr_inv_lookup [OF inv mgr_inv_owner [OF inv assms(2)]] assms(2) by simp
  then show ?thesis using mgr_inv_update [OF inv assms(2,3) assms(4)] assms(1,5) by (simp add: sys_inv_def)
qed

lemma sys_step_inv:
  assumes "sys_step mode ltm fp g s (Inr t)" and inv: "sys_inv g info s"
  shows "sys_inv g info t"
  using assms(1)
proof (cases rule: sys_step_mgr)
  case same
  then show ?thesis using inv by (simp add: sys_inv_def)
next
  case (add now fd es)
  then show ?thesis using inv AddToQueue_spec [of g "mgr s" now fd] by (auto simp: sys_inv_def)
next
  case (kill fd es)
  then show ?thesis using inv DoKill_spec [of g "mgr s" fd] by (auto simp: sys_inv_def)
next
  case (recv a c c' avail r)
  then show ?thesis using recv_into_inv [OF recv(3)] by (intro sys_inv_store [OF inv recv(2) _ _ recv(4)]) (auto simp: recv_into_def Let_def split: option.splits if_splits)
next
  case (parse a n c c' es)
  have "buf_inv c' \<and> cfd c' = cfd c" if "buf_inv c" using parse_inv [OF parse(3)] that by (simp add: buf_inv_def)
  moreover have "buf_inv c"
    using mgr_inv_lookup [OF _ mgr_inv_owner [OF _ parse(2)]] inv parse(2) by (fastforce simp: sys_inv_def)
  ultimately show ?thesis by (intro sys_inv_store [OF inv parse(2) _ _ parse(4)]) auto
next
  case (effect e es e')
  then show ?thesis using inv run_effects_spec [of g "mgr s" "[e]"] by (auto simp: sys_inv_def)
next
  case flag
  then show ?thesis using inv by (simp add: sys_inv_def)
next
  case (pop fd fd')
  then show ?thesis using inv take_front_inv [OF pop, of g] by (simp add: sys_inv_def)
next
  case (work w fd net pc es)
  then show ?thesis using inv work_inv [of g "mgr s" fp g net fd pc "mgr t" es] by (auto simp: sys_inv_def)
qed

lemma reachable_inv: "reachable mode ltm fp g info s \<Longrightarrow> sys_inv g info s"
proof (induction rule: reachable.induct)
  case start
  then show ?case by (simp add: sys_inv_def start_system_def setinfomap_def)
next
  case (step s t)
  then show ?case using sys_step_inv by blast
qed

text \<open>
  C14. In every interleaving of the main thread with the workers, the pointers stored in the client map are live
  clients of their own descriptors and their number is bounded: the faults below come from pointers the
  threads keep and from a search without the lock, never from the entries of the map.
\<close>

theorem interleaving_invariant:
  assumes "reachable mode ltm fp g info s"
  shows "(\<forall>fd a. map_of (clientqueue (mgr s)) fd = Some a \<longrightarrow> (\<exists>c. heap (mgr s) a = Some c \<and> cfd c = fd))
     \<and> length (clientqueue (mgr s)) \<le> unat (max_clients g)"
proof -
  have inv: "mgr_inv g (mgr s)" using reachable_inv [OF assms] by (simp add: sys_inv_def)
  then show ?thesis using mgr_inv_lookup [OF inv] by (auto simp: mgr_inv_def)
qed

section \<open>Mutual exclusion, and a worker that hangs\<close>

definition one_holder :: "Ccfg \<Rightarrow> 'd system \<Rightarrow> bool" where
  "one_holder g s \<longleftrightarrow> (\<forall>w<unat (max_worker g). \<forall>w'<unat (max_worker g). holds (wpc s w) \<and> holds (wpc s w') \<longrightarrow> w = w')"

text \<open>A step takes the lock only when it is free, and otherwise only releases it.\<close>

lemma sys_step_holds:
  assumes "sys_step mode ltm fp g s (Inr t)" and "w < unat (max_worker g)" and "holds (wpc t w)"
  shows "holds (wpc s w) \<or> (lock_free g s \<and> (\<forall>w'. w' \<noteq> w \<longrightarrow> wpc t w' = wpc s w'))"
  using assms by (cases rule: sys_step.cases)
    (auto simp: rbind_Inr_pair deref_def eq_commute [of "Inr t"] split: if_splits option.splits prod.splits)

lemma reachable_one_holder: "reachable mode ltm fp g info s \<Longrightarrow> one_holder g s"
proof (induction rule: reachable.induct)
  case start
  then show ?case by (simp add: one_holder_def start_system_def)
next
  case (step s t)
  show ?case unfolding one_holder_def
  proof (intro allI impI)
    fix w w'
    assume w: "w < unat (max_worker g)" "w' < unat (max_worker g)" "holds (wpc t w) \<and> holds (wpc t w')"
    consider "holds (wpc s w)" "holds (wpc s w')" | "lock_free g s" using sys_step_holds [OF step(2)] w by metis
    then show "w = w'"
    proof cases
      case 1
      then show ?thesis using step(3) w by (simp add: one_holder_def)
    next
      case 2
      then show ?thesis using sys_step_holds [OF step(2)] w by (metis lock_free_def)
    qed
  qed
qed

text \<open>With a hung worker no step changes the map, takes a client's place or serves anyone, and the worker stays hung.\<close>

lemma hung_step:
  assumes "sys_step mode ltm fp g s (Inr t)" and "one_holder g s" and "w < unat (max_worker g)" and "wpc s w = WHung fd"
  shows "wpc t w = WHung fd \<and> clientqueue (mgr t) = clientqueue (mgr s)"
proof
  have busy: "\<not> lock_free g s" using assms(3,4) by (force simp: lock_free_def)
  have alone: "wpc s w' \<noteq> WLocked k" if "w' < unat (max_worker g)" for w' k
  proof
    assume h: "wpc s w' = WLocked k"
    then have "w' = w" using assms(2-4) that unfolding one_holder_def by (metis holds.simps(1,2))
    with h assms(4) show False by simp
  qed
  show "wpc t w = WHung fd"
    using assms(1,4) busy alone by (cases rule: sys_step.cases)
      (auto simp: rbind_Inr_pair deref_def eq_commute [of "Inr t"] split: option.splits prod.splits)
  show "clientqueue (mgr t) = clientqueue (mgr s)" using assms(1)
  proof (cases rule: sys_step.cases)
    case (accept now fd')
    then show ?thesis using busy by (auto simp: AddToQueue_def GetNewClient_def eq_commute [of "Inr t"])
  next
    case (effect e es)
    then show ?thesis using busy by (cases e) (auto simp: notificationthreads_def eq_commute [of "Inr t"])
  qed (use busy alone in \<open>auto simp: rbind_Inr_pair deref_def take_front_def eq_commute [of "Inr t"] split: option.splits prod.splits list.splits\<close>)
qed

text \<open>
  One car server that never answers stops the server. From the moment a worker waits for it for ever, whatever the other threads
  do, the worker keeps the lock of the map: no connection is accepted, hung up, killed or served any more.
\<close>

theorem hung_worker_stops_server:
  assumes "reachable mode ltm fp g info s" and "w < unat (max_worker g)" and "wpc s w = WHung fd"
    and "(\<lambda>x y. sys_step mode ltm fp g x (Inr y))\<^sup>*\<^sup>* s t"
  shows "wpc t w = WHung fd \<and> clientqueue (mgr t) = clientqueue (mgr s)
     \<and> (\<forall>w'<unat (max_worker g). w' \<noteq> w \<longrightarrow> \<not> holds (wpc t w'))"
  using assms(4)
proof (induction rule: rtranclp_induct)
  case base
  then show ?case using reachable_one_holder [OF assms(1)] assms(2,3) unfolding one_holder_def by (metis holds.simps(2))
next
  case (step x y)
  have r: "reachable mode ltm fp g info x" using step(1)
    by (induction rule: rtranclp_induct) (auto intro: assms(1) reachable.step)
  have y: "wpc y w = WHung fd" "clientqueue (mgr y) = clientqueue (mgr x)"
    using hung_step [OF step(2) reachable_one_holder [OF r] assms(2)] step(3) by auto
  have "one_holder g y" by (rule reachable_one_holder [OF reachable.step [OF r step(2)]])
  then show ?case using y step(3) assms(2) unfolding one_holder_def by (metis holds.simps(2))
qed

section \<open>Runs of the main thread\<close>

lemma run_effects_Cons:
  "run_effects (e # es) s = rbind (run_effects [e] s) (\<lambda>(s, e1). rbind (run_effects es s) (\<lambda>(s, e2). Inr (s, e1 @ e2)))"
proof (cases e)
  case (EKill fd)
  then show ?thesis by (cases "DoKill fd s") auto
qed (auto simp: notificationthreads_def)

lemma effects_run:
  "reachable mode ltm fp g info (s\<lparr>mpc := MEffects es\<rparr>) \<Longrightarrow> lock_free g s \<Longrightarrow> run_effects es (mgr s) = Inr (m, e) \<Longrightarrow>
   reachable mode ltm fp g info (s\<lparr>mgr := m, mpc := MIdle\<rparr>)"
proof (induction es arbitrary: s e)
  case Nil
  have "reachable mode ltm fp g info ((s\<lparr>mpc := MEffects []\<rparr>)\<lparr>mpc := MIdle\<rparr>)"
    by (rule reachable.step [OF Nil(1) sys_step.read_end]) simp
  then show ?case using Nil(3) by (cases s) simp
next
  case (Cons x es)
  obtain m1 e1 e2 where x: "run_effects [x] (mgr s) = Inr (m1, e1)" "run_effects es m1 = Inr (m, e2)"
    using Cons.prems(3) unfolding run_effects_Cons [of x es] by auto
  let ?s = "s\<lparr>mgr := m1\<rparr>"
  have f: "lock_free g (s\<lparr>mpc := MEffects (x # es)\<rparr>)" "lock_free g ?s" using Cons.prems(2) by (simp_all add: lock_free_def)
  have "mpc (s\<lparr>mpc := MEffects (x # es)\<rparr>) = MEffects (x # es)"
    "\<forall>fd. x = EKill fd \<longrightarrow> lock_free g (s\<lparr>mpc := MEffects (x # es)\<rparr>)" using f(1) by (simp, blast)
  from sys_step.effect [OF this, of mode ltm fp] x(1)
  have "sys_step mode ltm fp g (s\<lparr>mpc := MEffects (x # es)\<rparr>) (Inr (?s\<lparr>mpc := MEffects es\<rparr>))" by simp
  from Cons.IH [OF reachable.step [OF Cons.prems(1) this] f(2)] x(2) show ?case by simp
qed

text \<open>An accepted connection, and a whole \<open>DoRead\<close> that no other thread interrupts.\<close>

lemma accept_step:
  assumes "reachable mode ltm fp g info s" and "mpc s = MIdle" and "lock_free g s" and "AddToQueue g now fd (mgr s) = Inr (m, es)"
  shows "reachable mode ltm fp g info (s\<lparr>mgr := m\<rparr>)"
  using reachable.step [OF assms(1)] sys_step.accept [OF assms(2) disjI1 [OF assms(3)], of mode ltm fp now fd] assms(4) by simp

lemma find_steps:
  assumes "reachable mode ltm fp g info s" and "mpc s = MIdle" and "map_of (clientqueue (mgr s)) fd = Some a"
  shows "reachable mode ltm fp g info (s\<lparr>mpc := MReading a\<rparr>)"
proof -
  let ?s = "s\<lparr>mpc := MFinding fd (clientqueue (mgr s))\<rparr>"
  have "reachable mode ltm fp g info ?s" by (rule reachable.step [OF assms(1) sys_step.find_begin [OF assms(2)]])
  from reachable.step [OF this sys_step.find_hit [of ?s fd "clientqueue (mgr s)" a]] assms(3) show ?thesis by simp
qed

lemma read_steps:
  assumes "reachable mode ltm fp g info s" and "mpc s = MIdle" and "map_of (clientqueue (mgr s)) fd = Some a" and free: "lock_free g s"
    and "receive_at mode ltm a avail (mgr s) = Inr (m, es)"
  shows "reachable mode ltm fp g info (s\<lparr>mgr := m\<rparr>)"
proof -
  have fnd: "reachable mode ltm fp g info (s\<lparr>mpc := MReading a\<rparr>)" by (rule find_steps [OF assms(1-3)])
  obtain c c' e where c: "heap (mgr s) a = Some c" "receive mode ltm c avail = Inr (c', e)"
    "run_effects e ((mgr s)\<lparr>heap := (heap (mgr s))(a \<mapsto> c')\<rparr>) = Inr (m, es)"
    using assms(5) by (auto simp: receive_at_def deref_def split: option.splits)
  obtain c1 r where r: "recv_into c avail = (c1, r)" by fastforce
  let ?m1 = "(mgr s)\<lparr>heap := (heap (mgr s))(a \<mapsto> c1)\<rparr>"
  let ?pc = "case r of None \<Rightarrow> MEffects [EKill (cfd c1)] | Some n \<Rightarrow> MParsing a n"
  have "sys_step mode ltm fp g (s\<lparr>mpc := MReading a\<rparr>) (Inr (s\<lparr>mgr := ?m1, mpc := ?pc\<rparr>))"
    using sys_step.recv [of "s\<lparr>mpc := MReading a\<rparr>" a mode ltm fp g avail] c(1) r by (simp add: deref_def)
  then have r1: "reachable mode ltm fp g info (s\<lparr>mgr := ?m1, mpc := ?pc\<rparr>)" by (rule reachable.step [OF fnd])
  have "\<exists>e0 es0. reachable mode ltm fp g info (s\<lparr>mgr := (mgr s)\<lparr>heap := (heap (mgr s))(a \<mapsto> c')\<rparr>, mpc := MEffects e0\<rparr>)
    \<and> run_effects e0 ((mgr s)\<lparr>heap := (heap (mgr s))(a \<mapsto> c')\<rparr>) = Inr (m, es0)"
  proof (cases r)
    case None
    then have k: "c' = c1" "\<exists>x y. e = [say x, say y, EKill (cfd c1)]" using c(2) r by (auto simp: receive_split)
    then have "\<exists>es0. run_effects [EKill (cfd c1)] ?m1 = Inr (m, es0)" using c(3) by (auto simp: say_def)
    then show ?thesis using r1 None k(1) by auto
  next
    case (Some n)
    then obtain e0 where p: "Client.parse mode ltm c1 n = Inr (c', e0)" "e = say ''CClient::receive'' # e0"
      using c(2) r by (auto simp: receive_split)
    let ?s = "s\<lparr>mgr := ?m1, mpc := MParsing a n\<rparr>"
    have "sys_step mode ltm fp g ?s (Inr (?s\<lparr>mgr := (mgr ?s)\<lparr>heap := (heap (mgr ?s))(a \<mapsto> c')\<rparr>, mpc := MEffects e0\<rparr>))"
      using sys_step.parse [of ?s a n mode ltm fp g] p(1) by (simp add: deref_def)
    then have "reachable mode ltm fp g info (?s\<lparr>mgr := (mgr ?s)\<lparr>heap := (heap (mgr ?s))(a \<mapsto> c')\<rparr>, mpc := MEffects e0\<rparr>)"
      using reachable.step [of mode ltm fp g info ?s] r1 Some by simp
    moreover have "\<exists>es0. run_effects e0 ((mgr s)\<lparr>heap := (heap (mgr s))(a \<mapsto> c')\<rparr>) = Inr (m, es0)" using c(3) p(2) by (auto simp: say_def)
    ultimately show ?thesis by auto
  qed
  then obtain e0 es0 where e0: "reachable mode ltm fp g info (s\<lparr>mgr := (mgr s)\<lparr>heap := (heap (mgr s))(a \<mapsto> c')\<rparr>, mpc := MEffects e0\<rparr>)"
    "run_effects e0 ((mgr s)\<lparr>heap := (heap (mgr s))(a \<mapsto> c')\<rparr>) = Inr (m, es0)" by blast
  have "lock_free g (s\<lparr>mgr := (mgr s)\<lparr>heap := (heap (mgr s))(a \<mapsto> c')\<rparr>\<rparr>)" using free by (simp add: lock_free_def)
  from effects_run [OF _ this, where es = e0 and m = m and e = es0] e0 have "reachable mode ltm fp g info (s\<lparr>mgr := m, mpc := MIdle\<rparr>)" by simp
  then show ?thesis using assms(2) by (cases s) simp
qed

text \<open>A run that shows the hypothesis of the invariant: a connection is accepted.\<close>

definition accepted :: "int manager" where
  "accepted = (setinfomap [] new_manager)\<lparr>heap := [0 \<mapsto> new_CClient 0 7], fresh := 1, clientqueue := [(7, 0)]\<rparr>"

lemma accepted_reachable:
  "reachable mode ltm int_fp sample_cfg [] (start_system [] \<lparr>mgr := accepted\<rparr>)"
proof (rule accept_step [OF reachable.start])
  show "AddToQueue sample_cfg 0 7 (mgr (start_system [])) = Inr (accepted, [say (''[log][CClientManager::AddToQueue('' @ print_int 7 @ '')''),
      say (''[log][CClientManager::AddToQueue('' @ print_int 7 @ '') ok'')])"
    by (simp add: AddToQueue_def GetNewClient_def start_system_def accepted_def setinfomap_def new_manager_def)
qed (simp_all add: start_system_def lock_free_def)

theorem interleaving_invariant_witness:
  "\<exists>s :: int system. reachable CopyForward sample_tm int_fp sample_cfg [] s \<and> map_of (clientqueue (mgr s)) 7 = Some 0
     \<and> (\<exists>c. heap (mgr s) 0 = Some c \<and> cfd c = 7)"
proof -
  let ?s = "start_system [] \<lparr>mgr := accepted\<rparr>"
  have r: "reachable CopyForward sample_tm int_fp sample_cfg [] ?s" by (rule accepted_reachable)
  have "map_of (clientqueue (mgr ?s)) 7 = Some 0" by (simp add: accepted_def)
  with interleaving_invariant [OF r] r show ?thesis by blast
qed

section \<open>A pointer kept too long\<close>

text \<open>The client of the accepted connection after the sample request has been read into it, once or again.\<close>

definition complete_client :: "(nat \<Rightarrow> char) \<Rightarrow> int CClient" where
  "complete_client p = (new_CClient 0 7)\<lparr>iobuf := p, serial := ''356823032255122'',
     md5 := Some ''2eb399b9588b1ac2ccc35dce6f266033'', xbaidu := Some ''114.73427'', ybaidu := Some ''10.640487'', status := 1\<rparr>"

lemma sample_received:
  assumes "loggable (iobuf c)" "offset c = 0" "cfd c = 7"
  shows "\<exists>l p. receive mode sample_tm c (Some sample_request) = Inr (c\<lparr>iobuf := p, serial := ''356823032255122'',
      md5 := Some ''2eb399b9588b1ac2ccc35dce6f266033'', xbaidu := Some ''114.73427'', ybaidu := Some ''10.640487'', status := 1\<rparr>,
      [say ''CClient::receive'', ELog l, ENotify 7]) \<and> loggable p"
proof -
  have arr: "arrived c sample_request = sample_request" using assms(2) by (simp add: arrived_def)
  have "\<exists>l p. receive mode sample_tm c (Some sample_request) = Inr (c\<lparr>iobuf := p, serial := ''356823032255122'',
      md5 := Some ''2eb399b9588b1ac2ccc35dce6f266033'', xbaidu := Some ''114.73427'', ybaidu := Some ''10.640487'', status := 1\<rparr>,
      [say ''CClient::receive'', ELog l, ENotify (cfd c)]) \<and> loggable p"
  proof (rule receive_complete_buffer [OF assms(1) sample_tm_date _ _ _ _ _ sample_fields_ok sample_body_length])
    show "arrived c sample_request = ''GET /api/car/'' @ ''navto?'' @ request_body ''356823032255122''
        ''2eb399b9588b1ac2ccc35dce6f266033'' ''114.73427'' ''10.640487'' @ ''HTTP/1.1''"
      unfolding arr by (simp only: sample_request_def)
    show "first_navto (arrived c sample_request) (length ''GET /api/car/'')" using sample_first_navto by (simp only: arr)
    show "sample_request \<noteq> []" using sample_request_facts(2) by auto
  qed (use sample_request_facts arr in simp_all)
  then show ?thesis by (simp only: assms(3))
qed

text \<open>The manager with this client and no other.\<close>

definition one_complete :: "(nat \<Rightarrow> char) \<Rightarrow> int list \<Rightarrow> bool \<Rightarrow> int manager" where
  "one_complete p q b = accepted\<lparr>heap := [0 \<mapsto> complete_client p], msglist := q, test_cond := b\<rparr>"

lemma first_request:
  "\<exists>p es. receive_at mode sample_tm 0 (Some sample_request) accepted = Inr (one_complete p [7] True, es) \<and> loggable p"
proof -
  let ?c = "new_CClient 0 7 :: int CClient"
  obtain l p where r: "receive mode sample_tm ?c (Some sample_request) = Inr (complete_client p, [say ''CClient::receive'', ELog l, ENotify 7])"
    "loggable p" using sample_received [of ?c mode] by (auto simp: complete_client_def)
  have h: "heap accepted 0 = Some ?c" "msglist accepted = []" "heap accepted = [0 \<mapsto> ?c]"
    by (simp_all add: accepted_def setinfomap_def new_manager_def)
  show ?thesis using r(2)
    by (intro exI [of _ p]) (simp add: receive_at_def deref_def h r(1) say_def notificationthreads_def one_complete_def)
qed

lemma repeated_request:
  assumes "loggable p"
  shows "\<exists>p' es. receive_at mode sample_tm 0 (Some sample_request) (one_complete p q b) = Inr (one_complete p' (q @ [7]) True, es)"
proof -
  have "loggable (iobuf (complete_client p))" "offset (complete_client p) = 0" "cfd (complete_client p) = 7"
    using assms by (simp_all add: complete_client_def)
  from sample_received [OF this, of mode] obtain l p' where
    r: "receive mode sample_tm (complete_client p) (Some sample_request) = Inr (complete_client p', [say ''CClient::receive'', ELog l, ENotify 7])"
    by (auto simp: complete_client_def)
  show ?thesis
    by (intro exI [of _ p']) (simp add: receive_at_def deref_def r say_def notificationthreads_def one_complete_def)
qed

definition no_network :: network where
  "no_network = \<lparr>net_sock = -1, net_conn = ConnFailed, net_sels = [], net_recvs = [], net_heap = \<lparr>m_sockfd = 0, fb = (\<lambda>_. NUL)\<rparr>\<rparr>"

lemma sample_keys: "chang2uint ''10.640487'' = Inr 1064" "chang2uint ''114.73427'' = Inr 11473"
  by code_simp+

text \<open>With no connection to the car server a worker corrects the client, marks it sent and keeps its pointer.\<close>

lemma work_complete:
  assumes "heap m = [0 \<mapsto> c]" "xbaidu c = Some ''114.73427''" "ybaidu c = Some ''10.640487''" "serial c = ''356823032255122''" "cfd c = 7"
    and "map_of (clientqueue m) 7 = Some 0" "infomap m = Some []"
  shows "\<exists>c' es. work int_fp sample_cfg no_network 7 m = Inr (Some (Some 0, m\<lparr>heap := [0 \<mapsto> c']\<rparr>, es))
     \<and> xbaidu c' = Some ''114.73427'' \<and> ybaidu c' = Some ''10.640487'' \<and> serial c' = ''356823032255122'' \<and> cfd c' = 7"
  using assms by (simp add: work_def getClientMap_def deref_def correctgps_worker_def read_array_def sample_keys
      SetSend2CarServer_def GetSend2CarServer_def Send2CarServer_def Connect_def no_network_def)
    (rule exI, rule conjI, rule refl, simp)

text \<open>
  A system in which the main thread may hold the client, and the workers in \<open>ks\<close> have served it and are about to kill it.
\<close>

definition about_to_kill :: "int system \<Rightarrow> nat set \<Rightarrow> bool" where
  "about_to_kill s ks \<longleftrightarrow> (\<forall>k\<in>ks. wpc s k = WKill 0 7) \<and> map_of (clientqueue (mgr s)) 7 = Some 0
     \<and> (\<exists>c. heap (mgr s) 0 = Some c \<and> cfd c = 7)"

lemma one_complete_simps [simp]:
  "map_of (clientqueue (one_complete p q b)) 7 = Some 0" "infomap (one_complete p q b) = Some []"
  "heap (one_complete p q b) = [0 \<mapsto> complete_client p]" "msglist (one_complete p q b) = q" "test_cond (one_complete p q b) = b"
  by (simp_all add: one_complete_def accepted_def setinfomap_def new_manager_def)

lemma one_complete_taken: "(one_complete p q b)\<lparr>test_cond := False, msglist := q'\<rparr> = one_complete p q' False"
  by (cases accepted) (simp add: one_complete_def)

text \<open>A worker takes a message, and serves the client of descriptor 7.\<close>

lemma take_steps:
  assumes "reachable mode sample_tm int_fp sample_cfg [] s" "w < 2" "wpc s w = WWait fd" "test_cond (mgr s)" "msglist (mgr s) = fd' # q"
  shows "reachable mode sample_tm int_fp sample_cfg []
     (s\<lparr>mgr := (mgr s)\<lparr>test_cond := False, msglist := q\<rparr>, wpc := (wpc s)(w := WTaken fd')\<rparr>)"
proof -
  let ?s = "s\<lparr>mgr := (mgr s)\<lparr>test_cond := False\<rparr>, wpc := (wpc s)(w := WWoken fd)\<rparr>"
  have w: "w < unat (max_worker sample_cfg)" using assms(2) by (simp add: sample_cfg_def)
  have "wait_passes True (mgr s)" using assms(4) by (simp add: wait_passes_def)
  from reachable.step [OF assms(1) sys_step.wake [OF w assms(3) this]]
  have r: "reachable mode sample_tm int_fp sample_cfg [] ?s" .
  have "take_front fd (mgr ?s) = (fd', (mgr s)\<lparr>test_cond := False, msglist := q\<rparr>)" using assms(5) by (simp add: take_front_def)
  from reachable.step [OF r sys_step.pop [OF w _ this]] show ?thesis by simp
qed

lemma serve_steps:
  assumes "reachable mode sample_tm int_fp sample_cfg [] s" "w < 2" "wpc s w = WTaken 7" "lock_free sample_cfg s"
    and "work int_fp sample_cfg no_network 7 (mgr s) = Inr (Some (Some 0, m, es))"
  shows "reachable mode sample_tm int_fp sample_cfg [] (s\<lparr>mgr := m, wpc := (wpc s)(w := WKill 0 7)\<rparr>)"
proof -
  have w: "w < unat (max_worker sample_cfg)" using assms(2) by (simp add: sample_cfg_def)
  let ?s = "s\<lparr>wpc := (wpc s)(w := WLocked 7)\<rparr>"
  have r: "reachable mode sample_tm int_fp sample_cfg [] ?s" by (rule reachable.step [OF assms(1) sys_step.lock [OF w assms(3,4)]])
  have "work int_fp sample_cfg no_network 7 (mgr ?s) = Inr (Some (Some 0, m, es))" using assms(5) by simp
  from reachable.step [OF r sys_step.serve [OF w _ this]] show ?thesis by simp
qed

text \<open>One request read: worker 0 has served it, and the main thread has looked the client up again.\<close>

lemma one_serves_reachable:
  "\<exists>s :: int system. reachable mode sample_tm int_fp sample_cfg [] s \<and> mpc s = MIdle \<and> about_to_kill s {0} \<and> lock_free sample_cfg s"
proof -
  let ?s = "start_system [] :: int system"
  obtain p es where m: "receive_at mode sample_tm 0 (Some sample_request) accepted = Inr (one_complete p [7] True, es)"
    using first_request by blast
  have r1: "reachable mode sample_tm int_fp sample_cfg [] (?s\<lparr>mgr := one_complete p [7] True\<rparr>)"
    using read_steps [OF accepted_reachable, where fd = 7 and a = 0 and avail = "Some sample_request"] m
    by (simp add: start_system_def accepted_def lock_free_def)
  let ?m = "one_complete p [] False"
  have r2: "reachable mode sample_tm int_fp sample_cfg [] (?s\<lparr>mgr := ?m, wpc := (wpc ?s)(0 := WTaken 7)\<rparr>)"
    using take_steps [OF r1, where w = 0] by (simp add: start_system_def one_complete_taken)
  obtain c' es' where w: "work int_fp sample_cfg no_network 7 ?m = Inr (Some (Some 0, ?m\<lparr>heap := [0 \<mapsto> c']\<rparr>, es'))" "cfd c' = 7"
    using work_complete [of ?m "complete_client p"] by (auto simp: complete_client_def)
  let ?t = "?s\<lparr>mgr := ?m\<lparr>heap := [0 \<mapsto> c']\<rparr>, wpc := (wpc ?s)(0 := WKill 0 7)\<rparr>"
  have "reachable mode sample_tm int_fp sample_cfg [] ?t"
    using serve_steps [OF r2, where w = 0] w(1) by (simp add: lock_free_def start_system_def)
  then show ?thesis using w(2) by (intro exI [of _ ?t]) (simp add: about_to_kill_def lock_free_def start_system_def)
qed

lemma both_hold_reachable:
  "\<exists>s :: int system. reachable mode sample_tm int_fp sample_cfg [] s \<and> mpc s = MReading 0 \<and> about_to_kill s {0} \<and> lock_free sample_cfg s"
proof -
  obtain s :: "int system" where s: "reachable mode sample_tm int_fp sample_cfg [] s" "mpc s = MIdle" "about_to_kill s {0}" "lock_free sample_cfg s"
    using one_serves_reachable by blast
  then show ?thesis using find_steps [OF s(1,2), of 7 0]
    by (intro exI [of _ "s\<lparr>mpc := MReading 0\<rparr>"]) (simp add: about_to_kill_def lock_free_def)
qed

text \<open>The same request read twice before a worker has killed the client: two workers have served it.\<close>

lemma two_serve_reachable:
  "\<exists>s :: int system. reachable mode sample_tm int_fp sample_cfg [] s \<and> about_to_kill s {0, 1} \<and> lock_free sample_cfg s"
proof -
  let ?s = "start_system [] :: int system"
  obtain p es where m1: "receive_at mode sample_tm 0 (Some sample_request) accepted = Inr (one_complete p [7] True, es)" "loggable p"
    using first_request by blast
  have r1: "reachable mode sample_tm int_fp sample_cfg [] (?s\<lparr>mgr := one_complete p [7] True\<rparr>)"
    using read_steps [OF accepted_reachable, where fd = 7 and a = 0 and avail = "Some sample_request"] m1(1)
    by (simp add: start_system_def accepted_def lock_free_def)
  let ?s2 = "?s\<lparr>mgr := one_complete p [] False, wpc := (wpc ?s)(0 := WTaken 7)\<rparr>"
  have r2: "reachable mode sample_tm int_fp sample_cfg [] ?s2"
    using take_steps [OF r1, where w = 0] by (simp add: start_system_def one_complete_taken)
  obtain p' es' where m2: "receive_at mode sample_tm 0 (Some sample_request) (one_complete p [] False) = Inr (one_complete p' [7] True, es')"
    using repeated_request [OF m1(2), of mode "[]" False] by auto
  have r3: "reachable mode sample_tm int_fp sample_cfg [] (?s2\<lparr>mgr := one_complete p' [7] True\<rparr>)"
    using read_steps [OF r2, where fd = 7 and a = 0 and avail = "Some sample_request"] m2 by (simp add: start_system_def lock_free_def)
  let ?m = "one_complete p' [] False"
  have r4: "reachable mode sample_tm int_fp sample_cfg [] (?s2\<lparr>mgr := ?m, wpc := (wpc ?s)(0 := WTaken 7, 1 := WTaken 7)\<rparr>)"
    using take_steps [OF r3, where w = 1] by (simp add: start_system_def one_complete_taken)
  obtain c1 e1 where w1: "work int_fp sample_cfg no_network 7 ?m = Inr (Some (Some 0, ?m\<lparr>heap := [0 \<mapsto> c1]\<rparr>, e1))"
     "xbaidu c1 = Some ''114.73427''" "ybaidu c1 = Some ''10.640487''" "serial c1 = ''356823032255122''" "cfd c1 = 7"
    using work_complete [of ?m "complete_client p'"] by (auto simp: complete_client_def)
  let ?m1 = "?m\<lparr>heap := [0 \<mapsto> c1]\<rparr>"
  have r5: "reachable mode sample_tm int_fp sample_cfg [] (?s2\<lparr>mgr := ?m1, wpc := (wpc ?s)(0 := WKill 0 7, 1 := WTaken 7)\<rparr>)"
    using serve_steps [OF r4, where w = 0] w1(1) by (simp add: fun_upd_twist lock_free_def start_system_def)
  obtain c2 e2 where w2: "work int_fp sample_cfg no_network 7 ?m1 = Inr (Some (Some 0, ?m1\<lparr>heap := [0 \<mapsto> c2]\<rparr>, e2))" "cfd c2 = 7"
    using work_complete [of ?m1 c1] w1(2-5) by auto
  let ?t = "?s2\<lparr>mgr := ?m1\<lparr>heap := [0 \<mapsto> c2]\<rparr>, wpc := (wpc ?s)(0 := WKill 0 7, 1 := WKill 0 7)\<rparr>"
  have "reachable mode sample_tm int_fp sample_cfg [] ?t"
    using serve_steps [OF r5, where w = 1] w2(1) by (simp add: lock_free_def start_system_def)
  then show ?thesis using w2(2) by (intro exI [of _ ?t]) (simp add: about_to_kill_def lock_free_def start_system_def)
qed

text \<open>The first of them to kill reads the descriptor and deletes the client; whoever holds its pointer then uses freed memory.\<close>

lemma kill_frees:
  fixes s :: "int system"
  assumes "reachable mode sample_tm int_fp sample_cfg [] s" "about_to_kill s ks" "w \<in> ks" "w < 2" "lock_free sample_cfg s"
  shows "\<exists>r t. sys_step mode sample_tm int_fp sample_cfg s (Inr r) \<and> sys_step mode sample_tm int_fp sample_cfg r (Inr t)
     \<and> mpc r = mpc s \<and> mpc t = mpc s \<and> (\<forall>k. k \<noteq> w \<longrightarrow> wpc r k = wpc s k \<and> wpc t k = wpc s k) \<and> mgr r = mgr s \<and> wpc r w = WKilling 7 7
     \<and> lock_free sample_cfg r \<and> map_of (clientqueue (mgr t)) 7 = None \<and> heap (mgr t) 0 = None"
proof -
  obtain c where c: "heap (mgr s) 0 = Some c" "cfd c = 7" "wpc s w = WKill 0 7" "map_of (clientqueue (mgr s)) 7 = Some 0"
    using assms(2,3) by (auto simp: about_to_kill_def)
  have w: "w < unat (max_worker sample_cfg)" using assms(4) by (simp add: sample_cfg_def)
  let ?r = "s\<lparr>wpc := (wpc s)(w := WKilling 7 7)\<rparr>"
  have sr: "sys_step mode sample_tm int_fp sample_cfg s (Inr ?r)"
    using sys_step.kill_read [OF w c(3), of mode sample_tm int_fp] c(1,2) by (simp add: deref_def)
  have free: "lock_free sample_cfg ?r" using assms(5) by (simp add: lock_free_def)
  obtain m es where k: "DoKill 7 (mgr s) = Inr (m, es)" "map_of (clientqueue m) 7 = None" "heap m = (heap (mgr s))(0 := None)"
    using DoKill_spec [of sample_cfg "mgr s" 7] reachable_inv [OF assms(1)] c(4) by (auto simp: sys_inv_def)
  let ?t = "?r\<lparr>mgr := m, wpc := (wpc ?r)(w := WWait 7)\<rparr>"
  have "sys_step mode sample_tm int_fp sample_cfg ?r (Inr ?t)"
    using sys_step.kill [OF w _ free, of 7 7 mode sample_tm int_fp] k(1) by simp
  then show ?thesis using sr free k(2,3) by (intro exI [of _ ?r] exI [of _ ?t]) simp
qed

text \<open>
  C10. The pointer race is real: from some reachable state a worker can kill the client it has served, after which
  the main thread, which has already looked the client up, reads the deleted object.
\<close>

theorem use_after_free_reachable:
  "\<exists>s t :: int system. reachable mode sample_tm int_fp sample_cfg [] s \<and> sys_step mode sample_tm int_fp sample_cfg s (Inr t)
     \<and> mpc t = MReading 0 \<and> map_of (clientqueue (mgr t)) 7 = None
     \<and> sys_step mode sample_tm int_fp sample_cfg t (Inl UseAfterFree)"
proof -
  obtain s :: "int system" where s: "reachable mode sample_tm int_fp sample_cfg [] s" "mpc s = MReading 0" "about_to_kill s {0}" "lock_free sample_cfg s"
    using both_hold_reachable by blast
  obtain r t :: "int system" where t: "sys_step mode sample_tm int_fp sample_cfg s (Inr r)" "sys_step mode sample_tm int_fp sample_cfg r (Inr t)"
    "mpc t = mpc s" "map_of (clientqueue (mgr t)) 7 = None" "heap (mgr t) 0 = None" using kill_frees [OF s(1,3) _ _ s(4), of 0] by auto
  have "sys_step mode sample_tm int_fp sample_cfg t (Inl UseAfterFree)"
    using sys_step.recv [of t 0 mode sample_tm int_fp sample_cfg None] s(2) t(3,5) by (simp add: deref_def)
  then show ?thesis using reachable.step [OF s(1) t(1)] s(2) t by auto
qed

text \<open>
  C11. Two workers delete one client: a terminal that repeats its request before the first is served is queued twice, both workers
  serve it under the lock, one after the other, and both keep its pointer; the second reads the descriptor of an object that the
  first has deleted.
\<close>

theorem served_twice_deleted_twice:
  "\<exists>s r t :: int system. reachable mode sample_tm int_fp sample_cfg [] s \<and> wpc s 0 = WKill 0 7 \<and> wpc s 1 = WKill 0 7
     \<and> sys_step mode sample_tm int_fp sample_cfg s (Inr r) \<and> sys_step mode sample_tm int_fp sample_cfg r (Inr t)
     \<and> map_of (clientqueue (mgr t)) 7 = None
     \<and> wpc t 1 = WKill 0 7 \<and> sys_step mode sample_tm int_fp sample_cfg t (Inl UseAfterFree)"
proof -
  obtain s :: "int system" where s: "reachable mode sample_tm int_fp sample_cfg [] s" "about_to_kill s {0, 1}" "lock_free sample_cfg s"
    using two_serve_reachable by blast
  then have w: "wpc s 0 = WKill 0 7" "wpc s 1 = WKill 0 7" by (auto simp: about_to_kill_def)
  obtain r t :: "int system" where t: "sys_step mode sample_tm int_fp sample_cfg s (Inr r)" "sys_step mode sample_tm int_fp sample_cfg r (Inr t)"
    "wpc t 1 = wpc s 1" "map_of (clientqueue (mgr t)) 7 = None" "heap (mgr t) 0 = None" using kill_frees [OF s(1,2) _ _ s(3), of 0] by auto
  have "sys_step mode sample_tm int_fp sample_cfg t (Inl UseAfterFree)"
    using sys_step.kill_read [where s = t and w = 1 and a = 0 and fd = 7 and mode = mode and ltm = sample_tm and fp = int_fp and g = sample_cfg]
      w(2) t(3,5) by (simp add: deref_def sample_cfg_def)
  then show ?thesis using s(1) w t by metis
qed

text \<open>A worker can hang: the car server neither takes nor refuses the connection.\<close>

definition silent_network :: network where
  "silent_network = no_network\<lparr>net_sock := 9, net_conn := ConnInProgress\<rparr>"

theorem hung_worker_stops_server_witness:
  "\<exists>s :: int system. reachable CopyForward sample_tm int_fp sample_cfg [] s \<and> wpc s 0 = WHung 7
     \<and> (\<forall>t. (\<lambda>x y. sys_step CopyForward sample_tm int_fp sample_cfg x (Inr y))\<^sup>*\<^sup>* s t \<longrightarrow> clientqueue (mgr t) = [(7, 0)])"
proof -
  let ?s = "start_system [] :: int system"
  obtain p es where m: "receive_at CopyForward sample_tm 0 (Some sample_request) accepted = Inr (one_complete p [7] True, es)"
    using first_request by blast
  have r1: "reachable CopyForward sample_tm int_fp sample_cfg [] (?s\<lparr>mgr := one_complete p [7] True\<rparr>)"
    using read_steps [OF accepted_reachable, where fd = 7 and a = 0 and avail = "Some sample_request"] m
    by (simp add: start_system_def accepted_def lock_free_def)
  let ?m = "one_complete p [] False"
  let ?s2 = "?s\<lparr>mgr := ?m, wpc := (wpc ?s)(0 := WTaken 7)\<rparr>" and ?s3 = "?s\<lparr>mgr := ?m, wpc := (wpc ?s)(0 := WLocked 7)\<rparr>"
    and ?s4 = "?s\<lparr>mgr := ?m, wpc := (wpc ?s)(0 := WHung 7)\<rparr>"
  have r2: "reachable CopyForward sample_tm int_fp sample_cfg [] ?s2"
    using take_steps [OF r1, where w = 0] by (simp add: start_system_def one_complete_taken)
  have w: "0 < unat (max_worker sample_cfg)" by (simp add: sample_cfg_def)
  have "lock_free sample_cfg ?s2" by (simp add: lock_free_def start_system_def)
  from reachable.step [OF r2 sys_step.lock [OF w _ this, of 7]] have r3: "reachable CopyForward sample_tm int_fp sample_cfg [] ?s3" by simp
  have "work int_fp sample_cfg silent_network 7 ?m = Inr None"
    by (simp add: work_def getClientMap_def deref_def correctgps_worker_def read_array_def sample_keys complete_client_def
        SetSend2CarServer_def GetSend2CarServer_def Send2CarServer_def Connect_def no_network_def silent_network_def)
  then have "work int_fp sample_cfg silent_network 7 (mgr ?s3) = Inr None" by simp
  from reachable.step [OF r3 sys_step.hang [OF w _ this]] have r4: "reachable CopyForward sample_tm int_fp sample_cfg [] ?s4" by simp
  have h: "wpc ?s4 0 = WHung 7" by simp
  have "clientqueue (mgr ?s4) = [(7, 0)]" by (simp add: one_complete_def accepted_def)
  then show ?thesis using hung_worker_stops_server [OF r4 w h] r4 h by (intro exI [of _ ?s4]) auto
qed

end
