(* ===== verification/StalePointers.thy ===== *)
theory StalePointers
  imports Interleaving
begin

text \<open>
  Where the interleaved system can leave defined behaviour, and in which ways. The operations on a client, on the tables and on the
  car server connection never follow a pointer to a client, so that in a reachable state only a pointer that a thread has
  kept, or the search of the map without its lock, can meet freed memory, and only the parsing of received bytes and the service
  of a request have faults of their own.
\<close>

section \<open>Operations that follow no client pointer\<close>

text \<open>Their own faults are those of arrays, copies, assertions, unwritten values and format strings.\<close>

definition own :: "'a res \<Rightarrow> bool" where
  "own r \<longleftrightarrow> (\<forall>e. r = Inl e \<longrightarrow> e \<in> {OutOfBounds, Overlap, AssertFail, Indeterminate, FormatArgs})"

named_theorems own_intros \<open>introduction rules for operations with no faults but their own\<close>

lemma own_basic [own_intros]:
  "own (Inr x)" "own (Inl OutOfBounds)" "own (Inl Overlap)" "own (Inl AssertFail)" "own (Inl Indeterminate)"
  "own (Inl FormatArgs)" "own (guard b AssertFail)" "own (guard b OutOfBounds)"
  by (simp_all add: own_def guard_def)

lemma own_rbind [own_intros]: "own m \<Longrightarrow> (\<And>x. own (f x)) \<Longrightarrow> own (rbind m f)"
  by (cases m) (auto simp: own_def)

lemma own_if [own_intros]: "own a \<Longrightarrow> own b \<Longrightarrow> own (if P then a else b)"
  by simp

lemma own_Let [own_intros]: "(\<And>x. own (f x)) \<Longrightarrow> own (Let v f)"
  by (simp add: Let_def)

lemma own_option [own_intros]: "own a \<Longrightarrow> (\<And>x. own (f x)) \<Longrightarrow> own (case v of None \<Rightarrow> a | Some x \<Rightarrow> f x)"
  by (cases v) auto

lemma own_prod [own_intros]: "(\<And>a b. own (f a b)) \<Longrightarrow> own (case p of (a, b) \<Rightarrow> f a b)"
  by (cases p) auto

lemma own_bool [own_intros]: "own a \<Longrightarrow> own b \<Longrightarrow> own (case v of True \<Rightarrow> a | False \<Rightarrow> b)"
  by (cases v) auto

lemma own_arrays [own_intros]: "own (rd cap a i)" "own (wr cap a i v)" "own (memcpy mode cap a d s n)" "own (fits cap t)"
  by (simp_all add: own_def rd_def wr_def memcpy_def fits_def split: copy_sem.splits)

lemma own_vsprintf [own_intros]: "own (vsprintf fmt args)"
proof (induction fmt args rule: vsprintf.induct)
  case (3 c d fmt args)
  then show ?case
    by (cases args) (auto intro!: own_intros split: arg.splits simp del: vsprintf.simps simp add: vsprintf.simps(3))
qed (auto simp: own_def)

lemma own_log [own_intros]: "own (log_msg fmt ap)"
  unfolding log_msg_def log_doit_def by (intro own_intros)

lemma own_match_at [own_intros]: "own (match_at p i kw)"
  by (induction kw arbitrary: i) (auto intro!: own_intros)

lemma own_find_kw [own_intros]: "own (find_kw p kw x len)"
proof (induction p kw x len rule: find_kw.induct)
  case (1 p kw x len)
  with own_match_at [of p x kw] show ?case by (subst find_kw.simps) (cases "match_at p x kw", auto simp: own_def)
qed

lemma own_dot_scan [own_intros]: "own (dot_scan p d lim)"
proof (induction p d lim rule: dot_scan.induct)
  case (1 p d lim)
  then show ?case by (subst dot_scan.simps) (cases "rd IOBUF_SIZE p d", auto simp: own_def rd_def split: if_splits)
qed

lemma own_fields [own_intros]:
  "own (copy_out p s n)" "own (get_coord p x)" "own (get_serial j len c)" "own (get_md5 j len c)" "own (get_xbaidu j len c)"
  "own (get_ybaidu j len c)" "own (parse_fields j len c)" "own (keep_tail mode i len c)" "own (buf_text c)" "own (getnowdate ltm)"
proof -
  show c: "own (copy_out p s n)" for p s n by (simp add: copy_out_def own_def)
  show g: "own (get_coord p x)" for p x unfolding get_coord_def by (intro own_intros c)
  show "own (get_serial j len c)" "own (get_md5 j len c)" "own (get_xbaidu j len c)" "own (get_ybaidu j len c)" for c
    unfolding get_serial_def get_md5_def get_xbaidu_def get_ybaidu_def by (intro own_intros c g)+
  then show "own (parse_fields j len c)" unfolding parse_fields_def by (intro own_intros)
  show "own (keep_tail mode i len c)" unfolding keep_tail_def by (intro own_intros)
  show "own (buf_text c)" "own (getnowdate ltm)" unfolding buf_text_def getnowdate_def by (intro own_intros)+
qed

lemma own_parse [own_intros]: "own (parse mode ltm c n)"
proof -
  have "own (log_request ltm c)" for c :: "'a CClient" unfolding log_request_def by (intro own_intros)
  then show ?thesis unfolding parse_def by (intro own_intros)
qed

lemma own_chang2uint [own_intros]: "own (chang2uint str)"
proof -
  have "own (chang2uint_loop str ui i dot j)" for ui i dot j
    by (induction str arbitrary: ui i dot j) (auto intro!: own_intros)
  moreover have "own (atoi_buf n b)" for n b unfolding atoi_buf_def by (intro own_intros)
  ultimately show ?thesis unfolding chang2uint_def by (intro own_intros)
qed

lemma own_worker [own_intros]: "own (correctgps_worker fp c info)"
  unfolding correctgps_worker_def read_array_def getGpsxy_def by (intro own_intros)

lemma own_recv_loop [own_intros]: "own (recv_loop out rs n len b)"
proof (induction rs arbitrary: n len b)
  case (Cons r rs)
  have "own (reply_complete b)" for b unfolding reply_complete_def strstr_fb_def by (intro own_intros)
  then show ?case using Cons by (cases r) (simp only: recv_loop.simps, intro own_intros)
qed (simp add: own_def)

lemma own_send [own_intros]: "own (Send2CarServer fp g net c)"
proof -
  have "own (Send fp g s c)" for s unfolding Send_def by (intro own_intros)
  moreover have "own (Recv g rs s)" for rs s unfolding Recv_def by (intro own_intros)
  moreover have "own (sendback c data)" for data unfolding sendback_def by (intro own_intros)
  ultimately show ?thesis unfolding Send2CarServer_def by (intro own_intros)
qed

section \<open>Threads\<close>

lemma work_own:
  assumes "mgr_inv g s" and "infomap s = Some info"
  shows "own (work fp g' net fd s)"
proof (cases "map_of (getClientMap s) fd")
  case None
  then show ?thesis by (simp add: work_def own_def)
next
  case (Some a)
  then obtain c where "heap s a = Some c" using mgr_inv_lookup [OF assms(1), of fd a] by (auto simp: getClientMap_def)
  then have "deref s a = Inr c" by (simp add: deref_def)
  then show ?thesis using Some unfolding work_def by (simp only: assms(2) option.case rbind.simps) (intro own_intros)
qed

text \<open>
  Where the main thread and the workers can meet memory that has been freed: the main thread in the middle of a search of
  a map that has been changed since it began, either of them with the pointer of a client that has been deleted.
\<close>

definition main_stale :: "'d system \<Rightarrow> bool" where
  "main_stale s \<longleftrightarrow> (\<exists>fd q. mpc s = MFinding fd q \<and> clientqueue (mgr s) \<noteq> q)
     \<or> (\<exists>a. (mpc s = MReading a \<or> (\<exists>n. mpc s = MParsing a n)) \<and> heap (mgr s) a = None)"

definition worker_stale :: "Ccfg \<Rightarrow> 'd system \<Rightarrow> bool" where
  "worker_stale g s \<longleftrightarrow> (\<exists>w a fd. w < unat (max_worker g) \<and> wpc s w = WKill a fd \<and> heap (mgr s) a = None)"

text \<open>The faults of the steps, one by one.\<close>

lemma sys_step_fault:
  assumes "reachable mode ltm fp g info s" and "sys_step mode ltm fp g s (Inl e)"
  shows "(e = UseAfterFree \<and> (main_stale s \<or> worker_stale g s))
     \<or> (e \<in> {OutOfBounds, Overlap, AssertFail, Indeterminate, FormatArgs}
        \<and> ((\<exists>a n c. mpc s = MParsing a n \<and> heap (mgr s) a = Some c) \<or> (\<exists>w fd. w < unat (max_worker g) \<and> wpc s w = WLocked fd)))"
proof -
  have inv: "mgr_inv g (mgr s)" and info: "infomap (mgr s) = Some info" using reachable_inv [OF assms(1)] by (simp_all add: sys_inv_def)
  show ?thesis using assms(2)
  proof (cases rule: sys_step.cases)
    case (accept now fd)
    then show ?thesis using AddToQueue_spec [OF inv, of now fd] by (auto simp: rbind_Inl_pair eq_commute [of "Inl _"])
  next
    case (hangup fd)
    then show ?thesis using DoKill_spec [OF inv, of fd] by (auto simp: rbind_Inl_pair eq_commute [of "Inl _"])
  next
    case (find_race fd q)
    then show ?thesis by (auto simp: main_stale_def)
  next
    case (recv a avail)
    then have "e = UseAfterFree \<and> heap (mgr s) a = None" by (cases "heap (mgr s) a") (simp_all add: deref_def case_prod_beta Let_def)
    then show ?thesis using recv(2) by (auto simp: main_stale_def)
  next
    case (parse a n)
    show ?thesis
    proof (cases "heap (mgr s) a")
      case None
      then have "e = UseAfterFree" using parse by (simp add: deref_def)
      then show ?thesis using None parse(2) by (auto simp: main_stale_def)
    next
      case (Some c)
      then have "Client.parse mode ltm c n = Inl e" using parse by (simp add: deref_def rbind_Inl_pair eq_commute [of "Inl _"])
      then show ?thesis using own_parse [of mode ltm c n] Some parse(2) by (auto simp: own_def)
    qed
  next
    case (effect x es)
    then show ?thesis using run_effects_spec [OF inv, of "[x]"] by (auto simp: rbind_Inl_pair eq_commute [of "Inl _"])
  next
    case (serve_fault w fd net)
    then show ?thesis using work_own [OF inv info, of fp g net fd] by (auto simp: own_def)
  next
    case (kill_read w a fd)
    then have "e = UseAfterFree \<and> heap (mgr s) a = None" by (cases "heap (mgr s) a") (simp_all add: deref_def)
    then show ?thesis using kill_read by (auto simp: worker_stale_def)
  next
    case (kill w k fd)
    then show ?thesis using DoKill_spec [OF inv, of k] by (auto simp: rbind_Inl_pair eq_commute [of "Inl _"])
  qed
qed

lemma stale_step:
  assumes "main_stale s \<or> worker_stale g s"
  shows "sys_step mode ltm fp g s (Inl UseAfterFree)"
  using assms
proof
  assume "main_stale s"
  then consider fd q where "mpc s = MFinding fd q" "clientqueue (mgr s) \<noteq> q"
    | a where "mpc s = MReading a" "heap (mgr s) a = None" | a n where "mpc s = MParsing a n" "heap (mgr s) a = None"
    by (auto simp: main_stale_def)
  then show ?thesis
  proof cases
    case 1
    then show ?thesis by (rule sys_step.find_race)
  next
    case 2
    then show ?thesis using sys_step.recv [of s a mode ltm fp g None] by (simp add: deref_def)
  next
    case 3
    then show ?thesis using sys_step.parse [of s a n mode ltm fp g] by (simp add: deref_def)
  qed
next
  assume "worker_stale g s"
  then obtain w a fd where w: "w < unat (max_worker g)" "wpc s w = WKill a fd" "heap (mgr s) a = None"
    by (auto simp: worker_stale_def)
  then show ?thesis using sys_step.kill_read [OF w(1,2), of mode ltm fp] by (simp add: deref_def)
qed

text \<open>
  C12. Freed memory is used exactly in four places: a reachable state has a step that uses freed memory if and only if the main thread
  is in the middle of its unlocked search while the map has been changed, or is about to receive into or to parse a client
  that has been deleted since it found it, or a worker is about to read the descriptor of a client that has been deleted since
  it served it. Accepting, hanging up, waking up, taking a message, serving and killing never do.
\<close>

theorem use_after_free_sources:
  assumes "reachable mode ltm fp g info s"
  shows "sys_step mode ltm fp g s (Inl UseAfterFree) \<longleftrightarrow>
     (\<exists>fd q. mpc s = MFinding fd q \<and> clientqueue (mgr s) \<noteq> q)
     \<or> (\<exists>a. (mpc s = MReading a \<or> (\<exists>n. mpc s = MParsing a n)) \<and> heap (mgr s) a = None)
     \<or> (\<exists>w a fd. w < unat (max_worker g) \<and> wpc s w = WKill a fd \<and> heap (mgr s) a = None)"
proof -
  have "sys_step mode ltm fp g s (Inl UseAfterFree) \<longleftrightarrow> main_stale s \<or> worker_stale g s"
    using sys_step_fault [OF assms, of UseAfterFree] stale_step [of s g mode ltm fp] by blast
  then show ?thesis unfolding main_stale_def worker_stale_def by (simp only: disj_assoc)
qed

text \<open>A search can meet a node that a worker frees: a worker kills the client it has served while the main thread searches.\<close>

lemma search_race_reachable:
  "\<exists>t :: int system. reachable mode sample_tm int_fp sample_cfg [] t \<and> (\<exists>q. mpc t = MFinding 7 q \<and> clientqueue (mgr t) \<noteq> q)"
proof -
  obtain s :: "int system" where s: "reachable mode sample_tm int_fp sample_cfg [] s" "mpc s = MIdle" "about_to_kill s {0}" "lock_free sample_cfg s"
    using one_serves_reachable by blast
  let ?q = "clientqueue (mgr s)"
  let ?s = "s\<lparr>mpc := MFinding 7 ?q\<rparr>"
  have r: "reachable mode sample_tm int_fp sample_cfg [] ?s" by (rule reachable.step [OF s(1) sys_step.find_begin [OF s(2)]])
  have a: "about_to_kill ?s {0}" "lock_free sample_cfg ?s" using s(3,4) by (simp_all add: about_to_kill_def lock_free_def)
  obtain u t :: "int system" where t: "sys_step mode sample_tm int_fp sample_cfg ?s (Inr u)" "sys_step mode sample_tm int_fp sample_cfg u (Inr t)"
    "mpc t = mpc ?s" "map_of (clientqueue (mgr t)) 7 = None" using kill_frees [OF r a(1) _ _ a(2), of 0] by auto
  have "map_of ?q 7 = Some 0" using s(3) by (simp add: about_to_kill_def)
  then have "clientqueue (mgr t) \<noteq> ?q" using t(4) by auto
  then show ?thesis using reachable.step [OF reachable.step [OF r t(1)] t(2)] t(3) by auto
qed

theorem use_after_free_sources_witness:
  "\<exists>t :: int system. reachable CopyForward sample_tm int_fp sample_cfg [] t \<and> (\<exists>q. mpc t = MFinding 7 q \<and> clientqueue (mgr t) \<noteq> q)
     \<and> sys_step CopyForward sample_tm int_fp sample_cfg t (Inl UseAfterFree)"
proof -
  obtain t :: "int system" where t: "reachable CopyForward sample_tm int_fp sample_cfg [] t" "\<exists>q. mpc t = MFinding 7 q \<and> clientqueue (mgr t) \<noteq> q"
    using search_race_reachable by blast
  then show ?thesis using use_after_free_sources [OF t(1)] by blast
qed

text \<open>
  C13. What can go wrong, and where: a step that faults in a reachable state is one of the following. It uses freed memory, in one of the
  places just named; or it is the parsing of received bytes into a live client, or the service of a request by the worker that
  holds the lock, with one of the faults that these have. So accepting, hanging up, the calls of the manager, waking up, taking a
  message, the lock and the deletion never fault. A worker that waits for the car server without end is no fault but a state
  of its own (\<open>hung_worker_stops_server\<close>).
\<close>

theorem step_faults:
  assumes "reachable mode ltm fp g info s" and "sys_step mode ltm fp g s (Inl e)"
  shows "(e = UseAfterFree
        \<and> ((\<exists>fd q. mpc s = MFinding fd q \<and> clientqueue (mgr s) \<noteq> q)
         \<or> (\<exists>a. (mpc s = MReading a \<or> (\<exists>n. mpc s = MParsing a n)) \<and> heap (mgr s) a = None)
         \<or> (\<exists>w a fd. w < unat (max_worker g) \<and> wpc s w = WKill a fd \<and> heap (mgr s) a = None)))
     \<or> (e \<in> {OutOfBounds, Overlap, AssertFail, Indeterminate, FormatArgs}
        \<and> ((\<exists>a n c. mpc s = MParsing a n \<and> heap (mgr s) a = Some c) \<or> (\<exists>w fd. w < unat (max_worker g) \<and> wpc s w = WLocked fd)))"
  using sys_step_fault [OF assms] unfolding main_stale_def worker_stale_def by (simp only: disj_assoc)

theorem step_faults_witness:
  "\<exists>t :: int system. reachable CopyForward sample_tm int_fp sample_cfg [] t
     \<and> sys_step CopyForward sample_tm int_fp sample_cfg t (Inl UseAfterFree)
     \<and> ((\<exists>fd q. mpc t = MFinding fd q \<and> clientqueue (mgr t) \<noteq> q)
         \<or> (\<exists>a. (mpc t = MReading a \<or> (\<exists>n. mpc t = MParsing a n)) \<and> heap (mgr t) a = None)
         \<or> (\<exists>w a fd. w < unat (max_worker sample_cfg) \<and> wpc t w = WKill a fd \<and> heap (mgr t) a = None))"
proof -
  obtain t :: "int system" where r: "reachable CopyForward sample_tm int_fp sample_cfg [] t" and q: "\<exists>q. mpc t = MFinding 7 q \<and> clientqueue (mgr t) \<noteq> q"
    using search_race_reachable by blast
  then have f: "sys_step CopyForward sample_tm int_fp sample_cfg t (Inl UseAfterFree)"
    by (intro stale_step) (auto simp: main_stale_def)
  have "UseAfterFree \<notin> {OutOfBounds, Overlap, AssertFail, Indeterminate, FormatArgs}" by simp
  with step_faults [OF r f] r f show ?thesis by blast
qed

end
