(* ===== verification/ClientTypes.thy ===== *)
theory ClientTypes
  imports Interleaving
begin

text \<open>
  The types of \<open>CClient.h\<close> as an invariant. The model keeps a character array as the bytes in front of its terminator, of any
  number; here every client of every reachable state is shown to hold no more of them than its array has room for, and
  to have the fields that its status promises.
\<close>

section \<open>A well-typed client\<close>

text \<open>
  \<open>serial[SERIAL_LEN + 1]\<close>, \<open>md5[MD5_LEN + 1]\<close>, \<open>xbaidu[16]\<close> and \<open>ybaidu[16]\<close> hold their bytes and a terminator. With status 1 (all data
  received) the serial number and the digest are complete; with status 2 (corrected) the coordinates sent are there as well.
  The objects the manager makes have no coordinates before that: it does not reuse one.
\<close>

definition client_wt :: "'d CClient \<Rightarrow> bool" where
  "client_wt c \<longleftrightarrow> buf_inv c \<and> length (serial c) \<le> SERIAL_LEN
     \<and> (\<forall>m. md5 c = Some m \<longrightarrow> length m = MD5_LEN)
     \<and> (\<forall>v. xbaidu c = Some v \<or> ybaidu c = Some v \<longrightarrow> length v < GPS_LEN)
     \<and> status c \<le> 2 \<and> (status c \<noteq> 0 \<longrightarrow> length (serial c) = SERIAL_LEN \<and> md5 c \<noteq> None)
     \<and> (status c = 2 \<longrightarrow> xbaidu c \<noteq> None \<and> ybaidu c \<noteq> None) \<and> (status c = 0 \<longrightarrow> xbaidu c = None)"

lemma client_wt_new [simp]: "client_wt (new_CClient now fd)"
  by (simp add: client_wt_def buf_inv_def new_CClient_def ini_def)

lemma copy_out_length: "copy_out p s n = Inr t \<Longrightarrow> length t = n"
  by (auto simp: copy_out_def slice_def split: if_splits)

lemma dot_scan_le: "dot_scan p d lim = Inr r \<Longrightarrow> d \<le> lim \<Longrightarrow> d \<le> r \<and> r \<le> lim"
proof (induction p d lim rule: dot_scan.induct)
  case (1 p d lim)
  from 1(2) obtain x where x: "rd IOBUF_SIZE p d = Inr x"
    "(if x \<noteq> CHR '' '' \<and> x \<noteq> CHR ''&'' \<and> d < lim then dot_scan p (Suc d) lim else Inr d) = Inr r"
    by (subst (asm) dot_scan.simps) auto
  show ?case
  proof (cases "x \<noteq> CHR '' '' \<and> x \<noteq> CHR ''&'' \<and> d < lim")
    case True
    then show ?thesis using 1(1) [OF True] x(2) by simp
  next
    case False
    then have "r = d" using x(2) by (simp split: if_splits)
    then show ?thesis using 1(3) by simp
  qed
qed

lemma get_coord_length: "get_coord p x = Inr (Some v) \<Longrightarrow> length v < GPS_LEN"
proof -
  assume "get_coord p x = Inr (Some v)"
  then obtain r where "dot_scan p (x + 7) (x + 7 + GPS_LEN) = Inr r" "r < x + 7 + GPS_LEN" "length v = r - (x + 7)"
    unfolding get_coord_def by (auto dest!: copy_out_length split: if_splits)
  then show ?thesis using dot_scan_le [of p "x + 7" "x + 7 + GPS_LEN" r] by linarith
qed

section \<open>Every operation keeps clients well typed\<close>

lemma parse_fields_wt:
  assumes "parse_fields j len c = Inr (c', es)" and "client_wt c"
  shows "client_wt c'"
proof -
  obtain c1 c2 c3 e1 c4 e2 where s: "get_serial j len c = Inr c1" "get_md5 j len c1 = Inr c2"
    "get_xbaidu j len c2 = Inr (c3, e1)" "get_ybaidu j len c3 = Inr (c4, e2)" "c' = c4\<lparr>status := 1\<rparr>"
    using assms(1) by (auto simp: parse_fields_def)
  have "client_wt c1 \<and> length (serial c1) = SERIAL_LEN"
    using s(1) assms(2) by (auto simp: get_serial_def client_wt_def buf_inv_def dest!: copy_out_length)
  then have "client_wt (c2\<lparr>status := 1\<rparr>)"
    using s(2) by (auto simp: get_md5_def client_wt_def buf_inv_def dest!: copy_out_length)
  then have "client_wt (c3\<lparr>status := 1\<rparr>)"
    using s(3) by (auto simp: get_xbaidu_def client_wt_def buf_inv_def dest!: get_coord_length split: option.splits)
  then have "client_wt (c4\<lparr>status := 1\<rparr>)"
    using s(4) by (auto simp: get_ybaidu_def client_wt_def buf_inv_def dest!: get_coord_length split: option.splits if_splits)
  then show ?thesis using s(5) by simp
qed

text \<open>The buffer has its own invariant; the other fields are touched by the extraction only.\<close>

lemma client_wt_buffer:
  "client_wt c \<Longrightarrow> buf_inv (c\<lparr>offset := n, iobuf := p\<rparr>) \<Longrightarrow> client_wt (c\<lparr>offset := n, iobuf := p\<rparr>)"
  by (simp add: client_wt_def)

lemma parse_wt:
  assumes "parse mode ltm c n = Inr (c', es)" and "client_wt c"
  shows "client_wt c'"
proof -
  have inv: "buf_inv c'" using parse_inv [OF assms(1)] assms(2) by (simp add: client_wt_def buf_inv_def)
  consider (buffer) off q where "c' = c\<lparr>offset := off, iobuf := q\<rparr>"
    | (fields) p j len es' where "parse_fields j len (c\<lparr>iobuf := p\<rparr>) = Inr (c', es')" "p MAXBUF = NUL"
  proof (cases "0 < n")
    case False
    then show thesis using assms(1) buffer [of "iobuf c" "offset c"] by (auto simp: parse_def)
  next
    case True
    let ?len = "n + offset c" and ?p = "(iobuf c)(n + offset c := NUL)"
    have nul: "?p MAXBUF = NUL" using assms(2) by (simp add: client_wt_def buf_inv_def)
    obtain l i where l: "log_request ltm c = Inr l" "?len < IOBUF_SIZE" "find_kw ?p kw_navto 0 ?len = Inr i"
      using assms(1) True by (auto simp: parse_def Let_def)
    consider "c' = c\<lparr>iobuf := ?p\<rparr>" | "keep_tail mode i ?len (c\<lparr>iobuf := ?p\<rparr>) = Inr c'"
      | es' where "parse_fields (i + 6) ?len (c\<lparr>iobuf := ?p\<rparr>) = Inr (c', es')"
      using assms(1) True l by (auto simp: parse_def Let_def split: if_splits prod.splits)
    then show thesis
    proof cases
      case 1
      then show thesis using buffer [of ?p "offset c"] by simp
    next
      case 2
      then show thesis using buffer by (auto simp: keep_tail_def Let_def)
    next
      case 3
      then show thesis using fields nul by blast
    qed
  qed
  then show ?thesis
  proof cases
    case buffer
    then show ?thesis using client_wt_buffer [OF assms(2)] inv by simp
  next
    case fields
    have "client_wt (c\<lparr>iobuf := p\<rparr>)" using assms(2) fields(2) by (simp add: client_wt_def buf_inv_def)
    then show ?thesis by (rule parse_fields_wt [OF fields(1)])
  qed
qed

lemma recv_into_wt:
  assumes "recv_into c avail = (c', r)" and "client_wt c"
  shows "client_wt c'"
proof -
  have "buf_inv c'" using recv_into_inv [OF assms(1)] assms(2) by (simp add: client_wt_def)
  moreover have "\<exists>p. c' = c\<lparr>iobuf := p\<rparr>"
  proof (cases "\<exists>bs. avail = Some bs \<and> take (MAXBUF - offset c) bs \<noteq> []")
    case False
    then have "c' = c\<lparr>iobuf := iobuf c\<rparr>" using assms(1) by (auto simp: recv_into_def Let_def split: option.splits)
    then show ?thesis by blast
  next
    case True
    then show ?thesis using assms(1) by (auto simp: recv_into_def Let_def)
  qed
  ultimately show ?thesis using assms(2) by (auto simp: client_wt_def)
qed

text \<open>A client whose coordinates never came stops the worker; otherwise it leaves a corrected one.\<close>

lemma worker_wt:
  assumes "correctgps_worker fp c info = Inr c'" and "client_wt c"
  shows "client_wt c'"
proof -
  obtain x y gx gy where "xbaidu c = Some x" "ybaidu c = Some y" "c' = SetSend2CarServer (c\<lparr>xgps := gx, ygps := gy\<rparr>)"
    using assms(1) by (auto simp: correctgps_worker_def read_array_def Let_def split: option.splits)
  then show ?thesis using assms(2) by (auto simp: client_wt_def buf_inv_def SetSend2CarServer_def)
qed

section \<open>Clients of the whole system\<close>

definition heap_wt :: "'d manager \<Rightarrow> bool" where
  "heap_wt s \<longleftrightarrow> (\<forall>a c. heap s a = Some c \<longrightarrow> client_wt c)"

lemma heap_wt_update: "heap_wt s \<Longrightarrow> client_wt c \<Longrightarrow> heap_wt (s\<lparr>heap := (heap s)(a \<mapsto> c)\<rparr>)"
  by (simp add: heap_wt_def)

lemma heap_wt_fields [simp]:
  "heap_wt (s\<lparr>clientqueue := q\<rparr>) = heap_wt s" "heap_wt (s\<lparr>msglist := m\<rparr>) = heap_wt s" "heap_wt (s\<lparr>test_cond := b\<rparr>) = heap_wt s"
  "heap_wt (s\<lparr>fresh := n\<rparr>) = heap_wt s"
  by (simp_all add: heap_wt_def)

lemma delete_client_wt: "delete_client a s = Inr (s', es) \<Longrightarrow> heap_wt s \<Longrightarrow> heap_wt s'"
  by (auto simp: delete_client_def heap_wt_def split: if_splits)

lemma DoKill_wt: "DoKill fd s = Inr (s', es) \<Longrightarrow> heap_wt s \<Longrightarrow> heap_wt s'"
  by (auto simp: DoKill_def Let_def dest: delete_client_wt split: option.splits)

lemma AddToQueue_wt:
  assumes "AddToQueue g now fd s = Inr (s', es)" and "heap_wt s"
  shows "heap_wt s'"
proof -
  obtain pc s1 e where n: "GetNewClient g now fd s = (pc, s1, e)" by (metis prod_cases3)
  then have "heap_wt s1" using assms(2) by (auto simp: GetNewClient_def heap_wt_def split: if_splits)
  then show ?thesis using assms(1) n by (auto simp: AddToQueue_def Let_def dest: delete_client_wt split: option.splits)
qed

lemma run_effects_wt: "run_effects es s = Inr (s', es') \<Longrightarrow> heap_wt s \<Longrightarrow> heap_wt s'"
  by (induction es s arbitrary: s' es' rule: run_effects.induct) (auto simp: notificationthreads_def dest: DoKill_wt)

lemma work_wt:
  assumes "work fp g net fd s = Inr (Some (pc, s', es))" and "heap_wt s"
  shows "heap_wt s'"
proof (cases "map_of (getClientMap s) fd")
  case None
  then show ?thesis using assms by (simp add: work_def)
next
  case (Some a)
  then obtain c c' info where c: "heap s a = Some c" "correctgps_worker fp c info = Inr c'" "s' = s\<lparr>heap := (heap s)(a \<mapsto> c')\<rparr>"
    using assms(1) by (auto simp: work_def deref_def Let_def split: option.splits if_splits)
  then show ?thesis using worker_wt [OF c(2)] assms(2) by (simp add: heap_wt_def)
qed

lemma take_front_heap: "take_front fd s = (fd', s') \<Longrightarrow> heap s' = heap s"
  by (auto simp: take_front_def split: list.splits)

lemma sys_step_wt:
  assumes "sys_step mode ltm fp g s (Inr t)" and wt: "heap_wt (mgr s)"
  shows "heap_wt (mgr t)"
  using assms(1)
proof (cases rule: sys_step_mgr)
  case same
  then show ?thesis using wt by simp
next
  case (add now fd es)
  from AddToQueue_wt [OF add(1) wt] show ?thesis .
next
  case (kill fd es)
  from DoKill_wt [OF kill(1) wt] show ?thesis .
next
  case (recv a c c' avail r)
  then have "client_wt c'" using recv_into_wt [OF recv(3)] wt by (simp add: heap_wt_def)
  with recv(4) show ?thesis using heap_wt_update [OF wt] by simp
next
  case (parse a n c c' es)
  then have "client_wt c'" using parse_wt [OF parse(3)] wt by (simp add: heap_wt_def)
  with parse(4) show ?thesis using heap_wt_update [OF wt] by simp
next
  case (effect e es e')
  from run_effects_wt [OF effect(3) wt] show ?thesis .
next
  case flag
  then show ?thesis using wt by simp
next
  case (pop fd fd')
  then have "heap (mgr t) = heap (mgr s)" by (rule take_front_heap)
  then show ?thesis using wt by (simp add: heap_wt_def)
next
  case (work w fd net pc es)
  from work_wt [OF work(2) wt] show ?thesis .
qed

lemma reachable_wt: "reachable mode ltm fp g info s \<Longrightarrow> heap_wt (mgr s)"
proof (induction rule: reachable.induct)
  case start
  then show ?case by (simp add: start_system_def new_manager_def setinfomap_def heap_wt_def)
next
  case (step s t)
  then show ?case using sys_step_wt by blast
qed

text \<open>
  C15. Every client of the server is well typed: in every reachable state of the main thread and the workers, whatever was received and
  in whatever pieces, the arrays of every client hold at most what they have room for, its buffer ends with a NUL and holds at most
  92 bytes of an incomplete request, and its status tells which fields it has.
\<close>

theorem clients_well_typed:
  assumes "reachable mode ltm fp g info s" and "heap (mgr s) a = Some c"
  shows "offset c \<le> 92 \<and> iobuf c MAXBUF = NUL \<and> length (serial c) \<le> SERIAL_LEN
     \<and> (\<forall>m. md5 c = Some m \<longrightarrow> length m = MD5_LEN)
     \<and> (\<forall>v. xbaidu c = Some v \<or> ybaidu c = Some v \<longrightarrow> length v < GPS_LEN)
     \<and> (status c = 0 \<or> (status c = 1 \<or> status c = 2 \<and> xbaidu c \<noteq> None \<and> ybaidu c \<noteq> None)
         \<and> length (serial c) = SERIAL_LEN \<and> md5 c \<noteq> None)"
proof -
  have "client_wt c" using reachable_wt [OF assms(1)] assms(2) by (simp add: heap_wt_def)
  then show ?thesis by (auto simp: client_wt_def buf_inv_def)
qed

theorem clients_well_typed_witness:
  "\<exists>s :: int system. reachable CopyForward sample_tm int_fp sample_cfg [] s
     \<and> (\<exists>c. heap (mgr s) 0 = Some c \<and> length (serial c) \<le> SERIAL_LEN)"
proof -
  let ?s = "start_system [] \<lparr>mgr := accepted\<rparr>"
  have "heap (mgr ?s) 0 = Some (new_CClient 0 7)" by (simp add: accepted_def)
  from clients_well_typed [OF accepted_reachable this] accepted_reachable this show ?thesis by blast
qed

end
