(* ===== verification/RemoteFaults.thy ===== *)
theory RemoteFaults
  imports Client
begin

text \<open>
  What the very first bytes of a peer can do before any of them is parsed: the log line of \<open>parse\<close> is made of them, serves as its
  own format string and is formatted into the 4096 bytes of the logger.
\<close>

lemma slice_fresh: "length bs \<le> n \<Longrightarrow> slice (store (\<lambda>_. NUL) 0 bs) 0 n = bs @ replicate (n - length bs) NUL"
  by (rule nth_equalityI) (auto simp: nth_append store_def)

lemma cstr_padded: "NUL \<notin> set s \<Longrightarrow> cstr (s @ NUL # t) = s"
  by (induction s) (auto simp: cstr_def)

lemma buf_text_fresh:
  assumes "NUL \<notin> set bs" and "length bs \<le> MAXBUF"
  shows "buf_text ((new_CClient now fd)\<lparr>iobuf := store (\<lambda>_. NUL) 0 bs\<rparr>) = Inr bs"
proof -
  have "slice (store (\<lambda>_. NUL) 0 bs) 0 IOBUF_SIZE = bs @ NUL # replicate (MAXBUF - length bs) NUL"
    using assms(2) slice_fresh [of bs IOBUF_SIZE] by (simp add: Suc_diff_le replicate_Suc [symmetric] del: replicate_Suc)
  then show ?thesis using cstr_padded [OF assms(1)] by (simp add: buf_text_def)
qed

lemma vsprintf_directive: "pct \<notin> set u \<Longrightarrow> ch \<noteq> pct \<Longrightarrow> vsprintf (u @ pct # ch # v) [] = Inl FormatArgs"
proof (induction u)
  case (Cons c u)
  then show ?case by (cases "u @ pct # ch # v") auto
qed simp

text \<open>The first piece on a new connection is logged whole, before it is looked at.\<close>

lemma receive_first:
  assumes "getnowdate ltm = Inr d" and "bs \<noteq> []" and "NUL \<notin> set bs" and "length bs \<le> MAXBUF"
    and "log_msg (''[get]['' @ d @ ''][''  @ bs @ ''].'') [] = Inl e"
  shows "receive mode ltm (new_CClient now fd) (Some bs) = Inl e"
proof -
  let ?c = "(new_CClient now fd)\<lparr>iobuf := store (\<lambda>_. NUL) 0 bs\<rparr> :: 'a CClient"
  have "log_request ltm ?c = Inl e" using assms(1,5) by (simp add: log_request_def buf_text_fresh [OF assms(3,4)])
  then have "parse mode ltm ?c (length bs) = Inl e" by (simp add: parse_def)
  moreover have "iobuf (new_CClient now fd :: 'a CClient) = (\<lambda>_. NUL)" by simp
  ultimately show ?thesis using assms(2,4) by (simp add: receive_def Let_def)
qed

text \<open>
  C20. Two ways in which the first bytes of any peer leave defined behaviour. A percent sign that is not doubled reads an argument that
  is not there; otherwise a piece that fills the receive buffer but for about thirty bytes does not fit the buffer of the logger
  together with the date and the brackets.
\<close>

theorem first_piece_faults:
  assumes "getnowdate ltm = Inr d" and "NUL \<notin> set bs" and "length bs \<le> MAXBUF"
    and "(\<exists>u ch v. bs = u @ pct # ch # v \<and> pct \<notin> set u \<and> ch \<noteq> pct) \<or> pct \<notin> set bs \<and> 4085 \<le> length bs + length d"
  shows "receive mode ltm (new_CClient now fd) (Some bs) = Inl (if pct \<in> set bs then FormatArgs else OutOfBounds)"
proof (rule receive_first [OF assms(1) _ assms(2,3)])
  have d: "pct \<notin> set d" "NUL \<notin> set d" "length d < 20" using getnowdate_chars [OF assms(1)] by auto
  show "bs \<noteq> []" using assms(4) d(3) by auto
  let ?m = "''[get]['' @ d @ ''][''  @ bs @ ''].''"
  have c: "cstr ?m = ?m" by (rule cstr_no_nul) (use assms(2) d in auto)
  show "log_msg ?m [] = Inl (if pct \<in> set bs then FormatArgs else OutOfBounds)"
  proof (cases "pct \<in> set bs")
    case True
    then obtain u ch v where bs: "bs = u @ pct # ch # v" "pct \<notin> set u" "ch \<noteq> pct" using assms(4) by auto
    have "vsprintf ((''[get]['' @ d @ ''][''  @ u) @ pct # ch # (v @ ''].'')) [] = Inl FormatArgs"
      by (rule vsprintf_directive) (use bs d in \<open>auto simp: pct_def\<close>)
    then have "vsprintf (cstr ?m) [] = Inl FormatArgs" unfolding c using bs(1) by simp
    then show ?thesis using True by (simp add: log_msg_def log_doit_def)
  next
    case False
    then have "pct \<notin> set ?m" "4095 \<le> length ?m" using assms(4) d by (auto simp: pct_def)
    then show ?thesis using log_msg_plain [of ?m "[]"] c False by simp
  qed
qed

theorem first_piece_faults_witness:
  "receive CopyForward sample_tm (new_CClient 0 7 :: int CClient) (Some ''GET /%6Eavto'') = Inl FormatArgs
   \<and> receive CopyForward sample_tm (new_CClient 0 7 :: int CClient) (Some (replicate 4096 (CHR ''A''))) = Inl OutOfBounds"
proof
  let ?b = "''GET /%6Eavto''" and ?l = "replicate 4096 (CHR ''A'')"
  have "?b = ''GET /'' @ pct # CHR ''6'' # ''Eavto''" by (simp add: pct_def)
  moreover have "pct \<notin> set ''GET /''" "CHR ''6'' \<noteq> pct" by (simp_all add: pct_def)
  ultimately have "\<exists>u ch v. ?b = u @ pct # ch # v \<and> pct \<notin> set u \<and> ch \<noteq> pct" by blast
  then show "receive CopyForward sample_tm (new_CClient 0 7 :: int CClient) (Some ?b) = Inl FormatArgs"
    using first_piece_faults [OF sample_tm_date, of ?b CopyForward 0 7] by (simp add: pct_def)
  have "NUL \<notin> set ?l" "pct \<notin> set ?l" by (simp_all add: pct_def)
  then show "receive CopyForward sample_tm (new_CClient 0 7 :: int CClient) (Some ?l) = Inl OutOfBounds"
    using first_piece_faults [OF sample_tm_date, of ?l CopyForward 0 7] by simp
qed

end
