(* ===== verification/Poller.thy ===== *)
theory Poller
  imports Manager
begin

text \<open>
  The event poller (\<open>SelEpolKqEvPrt.h\<close>, \<open>SelEpolKqEvPrt.cpp\<close>) in its epoll configuration. The kernel's side
  is the set of open descriptors and the interest list of the epoll instance: an option can be set only on
  an open descriptor, a descriptor is added once, only a member can be removed, and closing a descriptor
  takes it out of the list. Beyond that each call may still fail, which is an input.
\<close>

unbundle bit_operations_syntax

section \<open>The kernel's side\<close>

record epoll_event =
  ev_events :: "32 word"
  ev_fd :: int

definition EPOLLIN :: "32 word" where "EPOLLIN = 0x001"
definition EPOLLERR :: "32 word" where "EPOLLERR = 0x008"
definition EPOLLRDHUP :: "32 word" where "EPOLLRDHUP = 0x2000"
definition EPOLLET :: "32 word" where "EPOLLET = 0x80000000"
definition EINTR :: nat where "EINTR = 4"
definition EINVAL :: nat where "EINVAL = 22"

record kern =
  openfds :: "int list"
  interest :: "(int \<times> 32 word) list"

definition sys_close :: "int \<Rightarrow> kern \<Rightarrow> kern" where
  "sys_close fd k = \<lparr>openfds = filter (\<lambda>x. x \<noteq> fd) (openfds k), interest = filter (\<lambda>x. fst x \<noteq> fd) (interest k)\<rparr>"

definition sys_setsockopt :: "bool \<Rightarrow> int \<Rightarrow> kern \<Rightarrow> bool" where
  "sys_setsockopt ok fd k \<longleftrightarrow> ok \<and> fd \<in> set (openfds k)"

definition epoll_add :: "bool \<Rightarrow> int \<Rightarrow> 32 word \<Rightarrow> kern \<Rightarrow> kern option" where
  "epoll_add ok fd m k =
     (if ok \<and> fd \<in> set (openfds k) \<and> fd \<notin> fst ` set (interest k) then Some (k\<lparr>interest := (fd, m) # interest k\<rparr>) else None)"

definition epoll_del :: "int \<Rightarrow> kern \<Rightarrow> kern option" where
  "epoll_del fd k =
     (if fd \<in> fst ` set (interest k) then Some (k\<lparr>interest := filter (\<lambda>x. fst x \<noteq> fd) (interest k)\<rparr>) else None)"

section \<open>The poller\<close>

definition MAXDESCRIPTORS :: nat where "MAXDESCRIPTORS = 1024"

record SelEpolKqEvPrt =
  psockfd :: int
  curfds :: int
  ev :: epoll_event
  events :: "nat \<Rightarrow> epoll_event"
  epoll_handle :: int

text \<open>The answers of the two \<open>setsockopt\<close> calls and of \<open>epoll_ctl\<close> in one registration.\<close>

record reg_answers =
  linger_ok :: bool
  rcvtimeo_ok :: bool
  ctl_ok :: bool

definition registerForEvent ::
  "reg_answers \<Rightarrow> int \<Rightarrow> SelEpolKqEvPrt \<Rightarrow> kern \<Rightarrow> bool \<times> SelEpolKqEvPrt \<times> kern \<times> effect list" where
  "registerForEvent ans descriptor p k =
     (if \<not> sys_setsockopt (linger_ok ans) descriptor k then
        (False, p, sys_close descriptor k, [EPerror ''SelEpolKqEvPrt 1 setsockopt()'', EClose descriptor])
      else if \<not> sys_setsockopt (rcvtimeo_ok ans) descriptor k then
        (False, p, sys_close descriptor k, [EPerror ''SelEpolKqEvPrt 2 setsockopt()'', EClose descriptor])
      else
        let e = \<lparr>ev_events = EPOLLIN OR EPOLLRDHUP OR EPOLLERR OR EPOLLET, ev_fd = descriptor\<rparr>;
            p = p\<lparr>ev := e\<rparr> in
        case epoll_add (ctl_ok ans \<and> epoll_handle p \<noteq> -1) descriptor (ev_events e) k of
          None \<Rightarrow> (False, p, k, [EPerror ''epoll'', say ''Error adding to epoll cntl list.''])
        | Some k \<Rightarrow> (True, p\<lparr>curfds := curfds p + 1\<rparr>, k, []))"

definition unRegisterForEvent :: "int \<Rightarrow> SelEpolKqEvPrt \<Rightarrow> kern \<Rightarrow> bool \<times> SelEpolKqEvPrt \<times> kern" where
  "unRegisterForEvent descriptor p k =
     (if descriptor \<le> 0 then (False, p, k)
      else case epoll_del descriptor k of
          Some k \<Rightarrow> (True, p\<lparr>curfds := curfds p - 1\<rparr>, k)
        | None \<Rightarrow> (True, p, k))"

text \<open>\<open>reRegisterServerSock\<close> is empty in the epoll configuration.\<close>

definition reRegisterServerSock :: "SelEpolKqEvPrt \<Rightarrow> SelEpolKqEvPrt" where
  "reRegisterServerSock p = p"

definition initialize ::
  "int \<Rightarrow> reg_answers \<Rightarrow> int \<Rightarrow> SelEpolKqEvPrt \<Rightarrow> kern \<Rightarrow> 'd manager \<Rightarrow> SelEpolKqEvPrt \<times> kern \<times> 'd manager \<times> effect list" where
  "initialize handle ans sockfd p k s =
     (let p = p\<lparr>psockfd := sockfd, curfds := 1, epoll_handle := handle\<rparr>;
          (s, e1) = (if handle = -1 then
              let (s, e) = setallthreadexitflag 106 s in (s, [EPerror ''epoll_create'', say ''epoll create error.''] @ e)
            else (s, [say ''epoll create ok.'']));
          (b, p, k, e2) = registerForEvent ans sockfd p k in
      (p, k, s, e1 @ e2 @ (if b then [say (''registerForEvent('' @ print_int sockfd @ '') ok.'')] else [])))"

text \<open>
  What \<open>epoll_wait\<close> answers: an error number or the ready events, of which it stores at most \<open>maxevents\<close>,
  that is \<open>curfds\<close>. Each round of the loop reads the exit flag first, which a signal may set between rounds.
  \<open>None\<close> is a loop that has not ended yet.
\<close>

datatype wait_answer = WaitError nat | Ready "epoll_event list"

definition store_events :: "epoll_event list \<Rightarrow> SelEpolKqEvPrt \<Rightarrow> SelEpolKqEvPrt res" where
  "store_events evs p =
     rbind (guard (length evs \<le> MAXDESCRIPTORS) OutOfBounds) (\<lambda>_. Inr (p\<lparr>events := store (events p) 0 evs\<rparr>))"

definition epoll_wait :: "wait_answer \<Rightarrow> SelEpolKqEvPrt \<Rightarrow> (nat + nat \<times> SelEpolKqEvPrt) res" where
  "epoll_wait a p =
     (if curfds p \<le> 0 then Inr (Inl EINVAL)
      else case a of
          WaitError e \<Rightarrow> Inr (Inl e)
        | Ready evs \<Rightarrow> (let evs = take (nat (curfds p)) evs in
            rbind (store_events evs p) (\<lambda>p. Inr (Inr (length evs, p)))))"

fun wait_loop :: "int \<Rightarrow> (bool \<times> wait_answer) list \<Rightarrow> SelEpolKqEvPrt \<Rightarrow> (int \<times> SelEpolKqEvPrt \<times> effect list) option res" where
  "wait_loop numEvents [] p = Inr None"
| "wait_loop numEvents ((stopping, a) # rest) p =
     (if stopping then Inr (Some (numEvents, p, []))
      else rbind (epoll_wait a p) (\<lambda>r. case r of
          Inl errno \<Rightarrow> if errno = EINTR then wait_loop (-1) rest p
            else Inr (Some (-1, p, [EPerror ''epoll_wait'', say ''epoll wait error.'']))
        | Inr (n, p) \<Rightarrow> Inr (Some (int n, p, []))))"

definition getEvents :: "(bool \<times> wait_answer) list \<Rightarrow> SelEpolKqEvPrt \<Rightarrow> (int \<times> SelEpolKqEvPrt \<times> effect list) option res" where
  "getEvents answers p = wait_loop (-1) answers p"

definition getEpollEvent :: "int \<Rightarrow> SelEpolKqEvPrt \<Rightarrow> epoll_event option" where
  "getEpollEvent i p = (if -1 < i \<and> i < int MAXDESCRIPTORS then Some (events p (nat i)) else None)"

definition getDescriptor :: "int \<Rightarrow> SelEpolKqEvPrt \<Rightarrow> int" where
  "getDescriptor i p = (if -1 < i \<and> i < int MAXDESCRIPTORS then ev_fd (events p (nat i)) else -1)"

definition isListeningDescriptor :: "int \<Rightarrow> SelEpolKqEvPrt \<Rightarrow> bool" where
  "isListeningDescriptor descriptor p \<longleftrightarrow> descriptor = psockfd p"

section \<open>The number of registered descriptors\<close>

text \<open>
  The interest list holds open descriptors, each once, and \<open>curfds\<close> is at least one more than its length.
\<close>

definition poll_inv :: "SelEpolKqEvPrt \<times> kern \<Rightarrow> bool" where
  "poll_inv = (\<lambda>(p, k). distinct (map fst (interest k)) \<and> (\<forall>x\<in>set (interest k). fst x \<in> set (openfds k))
     \<and> 1 + int (length (interest k)) \<le> curfds p)"

lemma poll_inv_close: "poll_inv (p, k) \<Longrightarrow> poll_inv (p, sys_close fd k)"
  using length_filter_le [of "\<lambda>x. fst x \<noteq> fd" "interest k"]
  by (auto simp: poll_inv_def sys_close_def distinct_map_filter simp del: length_filter_le)

lemma poll_inv_register:
  assumes "poll_inv (p, k)" and "registerForEvent ans fd p k = (b, p', k', es)"
  shows "poll_inv (p', k')"
proof -
  have "poll_inv (p\<lparr>ev := e\<rparr>, k)" for e using assms(1) by (simp add: poll_inv_def)
  moreover have "poll_inv (p\<lparr>ev := e, curfds := curfds p + 1\<rparr>, k1)" if "epoll_add ok fd m k = Some k1" for e ok m k1
    using assms(1) that by (fastforce simp: poll_inv_def epoll_add_def split: if_splits)
  ultimately show ?thesis using assms poll_inv_close [OF assms(1), of fd]
    by (auto simp: registerForEvent_def Let_def split: if_splits option.splits)
qed

lemma filter_key_length:
  "distinct (map fst xs) \<Longrightarrow> key \<in> fst ` set xs \<Longrightarrow> Suc (length (filter (\<lambda>x. fst x \<noteq> key) xs)) = length xs"
proof (induction xs)
  case Nil
  then show ?case by simp
next
  case (Cons x xs)
  show ?case
  proof (cases "fst x = key")
    case True
    then have "filter (\<lambda>x. fst x \<noteq> key) xs = xs" using Cons.prems(1) by (auto simp: image_iff intro!: filter_True)
    with True show ?thesis by simp
  next
    case False
    with Cons show ?thesis by auto
  qed
qed

lemma poll_inv_unregister:
  assumes "poll_inv (p, k)" and "unRegisterForEvent fd p k = (b, p', k')"
  shows "poll_inv (p', k')"
proof -
  have "poll_inv (p\<lparr>curfds := curfds p - 1\<rparr>, k1)" if "epoll_del fd k = Some k1" for k1
    using assms(1) that filter_key_length [of "interest k" fd]
    by (fastforce simp: poll_inv_def epoll_del_def distinct_map_filter split: if_splits)
  then show ?thesis using assms by (auto simp: unRegisterForEvent_def split: if_splits option.splits)
qed

text \<open>The poller as a machine: its own calls, and descriptors closed or opened by the rest of the program.\<close>

datatype poll_event = PRegister reg_answers int | PUnregister int | PClosed int | POpened int

definition poll_step :: "SelEpolKqEvPrt \<times> kern \<Rightarrow> poll_event \<Rightarrow> (SelEpolKqEvPrt \<times> kern) res" where
  "poll_step = (\<lambda>(p, k) e. case e of
      PRegister ans fd \<Rightarrow> (let (b, p, k, es) = registerForEvent ans fd p k in Inr (p, k))
    | PUnregister fd \<Rightarrow> (let (b, p, k) = unRegisterForEvent fd p k in Inr (p, k))
    | PClosed fd \<Rightarrow> Inr (p, sys_close fd k)
    | POpened fd \<Rightarrow> Inr (p, k\<lparr>openfds := fd # openfds k\<rparr>))"

lemma poll_step_inv: "poll_inv s \<Longrightarrow> poll_step s e = Inr s' \<Longrightarrow> poll_inv s'"
  by (cases e)
    (auto simp: poll_step_def poll_inv_close split: prod.splits intro: poll_inv_register poll_inv_unregister,
     auto simp: poll_inv_def)

interpretation poll: total_machine poll_step poll_inv
  by unfold_locales (erule (1) poll_step_inv, auto simp: poll_step_def no_fault_def split: prod.splits poll_event.splits)

text \<open>
  Whatever is registered, unregistered, opened and closed, every watched descriptor is open and is watched once, and
  \<open>curfds\<close> exceeds the number of watched descriptors: \<open>epoll_wait\<close> is never called with \<open>maxevents\<close> below one.
\<close>

theorem poller_invariant:
  "\<exists>p' k'. run_steps poll_step (p\<lparr>curfds := 1\<rparr>, k\<lparr>interest := []\<rparr>) es = Inr (p', k')
     \<and> distinct (map fst (interest k')) \<and> set (map fst (interest k')) \<subseteq> set (openfds k')
     \<and> int (length (interest k')) < curfds p' \<and> epoll_wait (Ready evs) p' \<noteq> Inr (Inl EINVAL)"
proof -
  have i: "poll_inv (p\<lparr>curfds := 1\<rparr>, k\<lparr>interest := []\<rparr>)" by (simp add: poll_inv_def)
  obtain p' k' where r: "run_steps poll_step (p\<lparr>curfds := 1\<rparr>, k\<lparr>interest := []\<rparr>) es = Inr (p', k')"
    using poll.run_safe [OF i, of es] by (auto simp: no_fault_def)
  have "poll_inv (p', k')" by (rule poll.run_inv [OF i r])
  then show ?thesis using r by (auto simp: poll_inv_def epoll_wait_def Let_def rbind_eq_Inl split: wait_answer.splits)
qed

section \<open>Slots that are never given back\<close>

text \<open>
  A served connection: it is accepted and registered, its read event takes it out and puts it back, and the
  worker closes it. The kernel forgets it then, the poller does not.
\<close>

definition all_ok :: reg_answers where "all_ok = \<lparr>linger_ok = True, rcvtimeo_ok = True, ctl_ok = True\<rparr>"

definition served :: "int \<Rightarrow> poll_event list" where
  "served fd = [POpened fd, PRegister all_ok fd, PUnregister fd, PRegister all_ok fd, PClosed fd]"

lemma served_step:
  assumes "0 < fd" and "fd \<notin> set (openfds k)" and "poll_inv (p, k)" and "epoll_handle p \<noteq> -1"
  shows "\<exists>p'. run_steps poll_step (p, k) (served fd) = Inr (p', k) \<and> curfds p' = curfds p + 1 \<and> epoll_handle p' = epoll_handle p"
proof -
  have n: "\<forall>x\<in>set (interest k). fst x \<noteq> fd" "fd \<notin> fst ` set (interest k)" using assms(2,3) by (auto simp: poll_inv_def)
  then have f: "filter (\<lambda>x. fst x \<noteq> fd) (interest k) = interest k" by (simp add: filter_id_conv)
  have g: "filter (\<lambda>x. x \<noteq> fd) (openfds k) = openfds k" using assms(2) by (auto simp: filter_id_conv)
  show ?thesis using assms n f g
    by (simp add: served_def poll_step_def registerForEvent_def unRegisterForEvent_def sys_setsockopt_def all_ok_def
        epoll_add_def epoll_del_def sys_close_def)
qed

text \<open>
  C18. Every connection that a worker serves and closes leaves \<open>curfds\<close> one higher than before, although the interest list is
  unchanged: the size passed to \<open>epoll_wait\<close> grows by one for each request, past the 1024 entries of \<open>events\<close>.
\<close>

theorem served_connections_leak:
  assumes "\<forall>fd\<in>set fds. 0 < fd \<and> fd \<notin> set (openfds k)" and "poll_inv (p, k)" and "epoll_handle p \<noteq> -1"
  shows "\<exists>p'. run_steps poll_step (p, k) (concat (map served fds)) = Inr (p', k) \<and> curfds p' = curfds p + int (length fds)"
  using assms
proof (induction fds arbitrary: p)
  case Nil
  then show ?case by simp
next
  case (Cons fd fds)
  obtain p1 where p1: "run_steps poll_step (p, k) (served fd) = Inr (p1, k)" "curfds p1 = curfds p + 1" "epoll_handle p1 = epoll_handle p"
    using served_step [of fd k p] Cons.prems by auto
  have "poll_inv (p1, k)" by (rule poll.run_inv [OF Cons.prems(2) p1(1)])
  then obtain p2 where "run_steps poll_step (p1, k) (concat (map served fds)) = Inr (p2, k)" "curfds p2 = curfds p1 + int (length fds)"
    using Cons.IH [of p1] Cons.prems p1 by auto
  with p1 show ?case by (auto simp: run_steps_append)
qed

definition idle_poller :: SelEpolKqEvPrt where
  "idle_poller = \<lparr>psockfd = 3, curfds = 2, ev = \<lparr>ev_events = 0, ev_fd = 0\<rparr>, events = (\<lambda>_. \<lparr>ev_events = 0, ev_fd = 0\<rparr>), epoll_handle = 4\<rparr>"

definition idle_kern :: kern where
  "idle_kern = \<lparr>openfds = [3, 4], interest = [(3, EPOLLIN)]\<rparr>"

theorem served_connections_leak_witness:
  "\<exists>p'. run_steps poll_step (idle_poller, idle_kern) (concat (map served (replicate 1023 7))) = Inr (p', idle_kern)
     \<and> int MAXDESCRIPTORS < curfds p'"
proof -
  have "\<forall>fd\<in>set (replicate 1023 (7::int)). 0 < fd \<and> fd \<notin> set (openfds idle_kern)" by (simp add: idle_kern_def)
  moreover have "poll_inv (idle_poller, idle_kern)" "epoll_handle idle_poller \<noteq> -1"
    by (simp_all add: poll_inv_def idle_poller_def idle_kern_def)
  ultimately obtain p' where "run_steps poll_step (idle_poller, idle_kern) (concat (map served (replicate 1023 7))) = Inr (p', idle_kern)"
    "curfds p' = curfds idle_poller + int (length (replicate 1023 (7::int)))"
    using served_connections_leak by blast
  then show ?thesis by (simp add: idle_poller_def MAXDESCRIPTORS_def)
qed

section \<open>Waiting for events\<close>

definition interrupted :: "bool \<times> wait_answer \<Rightarrow> bool" where
  "interrupted a \<longleftrightarrow> a = (False, WaitError EINTR)"

lemma wait_loop_interrupted:
  "0 < curfds p \<Longrightarrow> (\<forall>a\<in>set pre. interrupted a) \<Longrightarrow> wait_loop (-1) (pre @ rest) p = wait_loop (-1) rest p"
  by (induction pre) (auto simp: interrupted_def epoll_wait_def)

lemma epoll_wait_ready:
  assumes "0 < curfds p"
  shows "epoll_wait (Ready evs) p =
    (if MAXDESCRIPTORS < length evs \<and> int MAXDESCRIPTORS < curfds p then Inl OutOfBounds
     else let n = min (length evs) (nat (curfds p)) in Inr (Inr (n, p\<lparr>events := store (events p) 0 (take n evs)\<rparr>)))"
proof -
  have t: "take (nat (curfds p)) evs = take (min (length evs) (nat (curfds p))) evs" by (simp add: min_def)
  show ?thesis
  proof (cases "MAXDESCRIPTORS < length evs \<and> int MAXDESCRIPTORS < curfds p")
    case True
    then have "\<not> min (length evs) (nat (curfds p)) \<le> MAXDESCRIPTORS" by linarith
    then show ?thesis using assms True by (simp add: epoll_wait_def store_events_def)
  next
    case False
    then have "min (length evs) (nat (curfds p)) \<le> MAXDESCRIPTORS" by linarith
    then show ?thesis using assms False by (simp add: epoll_wait_def store_events_def Let_def flip: t)
  qed
qed

text \<open>
  C19. \<open>getEvents\<close> keeps waiting exactly as long as it is interrupted and the exit flag is clear. It ends at the first other
  answer: with -1 on exit or an error, else with the events stored; a burst of more than 1024 events overruns \<open>events\<close>
  exactly when \<open>curfds\<close> has passed 1024.
\<close>

theorem getEvents_outcome:
  assumes "0 < curfds p" and "\<forall>a\<in>set pre. interrupted a" and "\<not> interrupted (stopping, a)"
  shows "getEvents pre p = Inr None \<and> getEvents (pre @ (stopping, a) # rest) p =
      (if stopping then Inr (Some (-1, p, []))
       else case a of
         WaitError e \<Rightarrow> Inr (Some (-1, p, [EPerror ''epoll_wait'', say ''epoll wait error.'']))
       | Ready evs \<Rightarrow>
           if MAXDESCRIPTORS < length evs \<and> int MAXDESCRIPTORS < curfds p then Inl OutOfBounds
           else let n = min (length evs) (nat (curfds p)) in
             Inr (Some (int n, p\<lparr>events := store (events p) 0 (take n evs)\<rparr>, [])))"
proof (rule conjI)
  show "getEvents pre p = Inr None"
    using wait_loop_interrupted [OF assms(1,2), of "[]"] by (simp add: getEvents_def)
next
  have g: "getEvents (pre @ (stopping, a) # rest) p = wait_loop (-1) ((stopping, a) # rest) p"
    unfolding getEvents_def by (rule wait_loop_interrupted [OF assms(1,2)])
  have "epoll_wait (WaitError e) p = Inr (Inl e)" for e using assms(1) by (simp add: epoll_wait_def)
  then show "getEvents (pre @ (stopping, a) # rest) p = (if stopping then Inr (Some (-1, p, []))
       else case a of
         WaitError e \<Rightarrow> Inr (Some (-1, p, [EPerror ''epoll_wait'', say ''epoll wait error.'']))
       | Ready evs \<Rightarrow>
           if MAXDESCRIPTORS < length evs \<and> int MAXDESCRIPTORS < curfds p then Inl OutOfBounds
           else let n = min (length evs) (nat (curfds p)) in
             Inr (Some (int n, p\<lparr>events := store (events p) 0 (take n evs)\<rparr>, [])))"
    using assms(3) unfolding g by (cases a) (auto simp: epoll_wait_ready [OF assms(1)] interrupted_def Let_def)
qed

theorem getEvents_outcome_witness:
  "getEvents [(False, WaitError EINTR)] idle_poller = Inr None
   \<and> getEvents [(False, WaitError EINTR), (True, Ready [])] idle_poller = Inr (Some (-1, idle_poller, []))"
  using getEvents_outcome [of idle_poller "[(False, WaitError EINTR)]" True "Ready []" "[]"]
  by (simp add: idle_poller_def interrupted_def)

end
