(* ===== verification/Listener.thy ===== *)
theory Listener
  imports Poller
begin

text \<open>
  \<open>Cserver::createListener\<close> (\<open>Cserver.cpp\<close>): the listening socket. The answers of the socket calls for each
  address, of \<open>getaddrinfo\<close> and of \<open>listen\<close> are inputs; open descriptors are those of the kernel state of
  \<open>Poller\<close>, and whether the address list is still allocated is part of the result.
\<close>

section \<open>Creation\<close>

record addr_answers =
  a_sock :: int
  a_reuse :: bool
  a_defer :: bool
  a_bind :: bool

datatype bind_result = Bound int | NotBound | Failed

text \<open>The loop over the addresses: the first one that can be bound, unless an option cannot be set before.\<close>

fun bind_loop :: "addr_answers list \<Rightarrow> kern \<Rightarrow> 'd manager \<Rightarrow> bind_result \<times> kern \<times> 'd manager \<times> effect list" where
  "bind_loop [] k s = (NotBound, k, s, [])"
| "bind_loop (p # ps) k s =
     (if a_sock p = -1 then bind_loop ps k s
      else let sockfd = a_sock p; k = k\<lparr>openfds := sockfd # openfds k\<rparr> in
        if \<not> a_reuse p then
          (let (s, e) = setallthreadexitflag 202 s in (Failed, k, s, EPerror ''1 setsockopt'' # e))
        else if \<not> a_defer p then
          (let (s, e) = setallthreadexitflag 203 s in (Failed, k, s, EPerror ''2 setsockopt'' # e))
        else if \<not> a_bind p then
          (let (r, k, s, e) = bind_loop ps (sys_close sockfd k) s in
           (r, k, s, EClose sockfd # EPerror ''server: bind'' # e))
        else (Bound sockfd, k, s, []))"

text \<open>
  \<open>gai\<close> is \<open>getaddrinfo\<close> for a host (null for the empty address) and a port: the error text or the addresses.
  The result is the descriptor or -1, whether the socket was made non-blocking, whether the address list is
  still allocated, and the states.
\<close>

definition createListener ::
  "(string option \<Rightarrow> string \<Rightarrow> string + addr_answers list) \<Rightarrow> bool \<Rightarrow> string \<Rightarrow> string \<Rightarrow> bool \<Rightarrow> kern \<Rightarrow> 'd manager
   \<Rightarrow> int \<times> bool \<times> bool \<times> kern \<times> 'd manager \<times> effect list" where
  "createListener gai listen_ok ipAddress port block k s =
     (case gai (if ipAddress = [] then None else Some ipAddress) port of
        Inl err \<Rightarrow> (let (s, e) = setallthreadexitflag 201 s in
          (-1, False, False, k, s, say (''getaddrinfo: '' @ err @ ''.'') # e))
      | Inr servinfo \<Rightarrow> (let (r, k, s, e) = bind_loop servinfo k s in
          case r of
            Failed \<Rightarrow> (-1, False, True, k, s, e)
          | NotBound \<Rightarrow> (let (s, e') = setallthreadexitflag 204 s in
              (-1, False, True, k, s, e @ EStderr (''server: failed to bind'' @ [CHR 0x0A]) # e'))
          | Bound sockfd \<Rightarrow>
              if \<not> listen_ok then
                (let (s, e') = setallthreadexitflag 205 s in
                 (-1, False, False, sys_close sockfd k, s, e @ EPerror ''listen'' # EClose sockfd # e'))
              else (sockfd, \<not> block, False, k, s, e)))"

section \<open>What is left open\<close>

definition fresh_socket :: "kern \<Rightarrow> addr_answers \<Rightarrow> bool" where
  "fresh_socket k a \<longleftrightarrow> a_sock a = -1 \<or> 0 \<le> a_sock a \<and> a_sock a \<notin> set (openfds k) \<and> a_sock a \<notin> fst ` set (interest k)"

lemma close_opened:
  assumes "fresh_socket k a" and "a_sock a \<noteq> -1"
  shows "sys_close (a_sock a) (k\<lparr>openfds := a_sock a # openfds k\<rparr>) = k"
proof -
  have "\<forall>x\<in>set (openfds k). x \<noteq> a_sock a" "\<forall>x\<in>set (interest k). fst x \<noteq> a_sock a"
    using assms by (force simp: fresh_socket_def image_iff)+
  then show ?thesis by (simp add: sys_close_def filter_id_conv)
qed

text \<open>An address the loop skips, and one that ends it.\<close>

definition skipped :: "addr_answers \<Rightarrow> bool" where
  "skipped a \<longleftrightarrow> a_sock a = -1 \<or> a_reuse a \<and> a_defer a \<and> \<not> a_bind a"

text \<open>Where the loop ends, and the states it ends in.\<close>

definition bind_end :: "addr_answers list \<Rightarrow> kern \<Rightarrow> 'd manager \<Rightarrow> bind_result \<times> kern \<times> 'd manager" where
  "bind_end ps k s = (case find (\<lambda>a. \<not> skipped a) ps of
       None \<Rightarrow> (NotBound, k, s)
     | Some a \<Rightarrow> if a_reuse a \<and> a_defer a then (Bound (a_sock a), k\<lparr>openfds := a_sock a # openfds k\<rparr>, s)
         else (Failed, k\<lparr>openfds := a_sock a # openfds k\<rparr>, s\<lparr>allExitFlag := True\<rparr>))"

lemma bind_loop_skip:
  assumes "skipped a" and "fresh_socket k a" and "bind_loop ps k s = (r, k', s', e)"
  shows "\<exists>e'. bind_loop (a # ps) k s = (r, k', s', e')"
  using assms close_opened [OF assms(2)] by (cases "a_sock a = -1") (simp_all add: skipped_def Let_def)

lemma bind_loop_stop:
  assumes "\<not> skipped a"
  shows "\<exists>e. bind_loop (a # ps) k s = (if a_reuse a \<and> a_defer a then (Bound (a_sock a), k\<lparr>openfds := a_sock a # openfds k\<rparr>, s, e)
      else (Failed, k\<lparr>openfds := a_sock a # openfds k\<rparr>, s\<lparr>allExitFlag := True\<rparr>, e))"
  using assms by (cases "a_reuse a"; cases "a_defer a") (simp_all add: skipped_def setallthreadexitflag_def Let_def)

lemma bind_loop_spec:
  "\<forall>a\<in>set ps. fresh_socket k a \<Longrightarrow> \<exists>r k' s' e. bind_loop ps k s = (r, k', s', e) \<and> bind_end ps k s = (r, k', s')"
proof (induction ps)
  case Nil
  then show ?case by (simp add: bind_end_def)
next
  case (Cons a ps)
  show ?case
  proof (cases "skipped a")
    case True
    obtain r k' s' e where ih: "bind_loop ps k s = (r, k', s', e)" "bind_end ps k s = (r, k', s')" using Cons by auto
    have "bind_end (a # ps) k s = bind_end ps k s" using True by (simp add: bind_end_def)
    with ih bind_loop_skip [OF True _ ih(1)] Cons.prems show ?thesis by auto
  next
    case False
    then show ?thesis using bind_loop_stop [OF False, of ps k s] by (auto simp: bind_end_def simp del: bind_loop.simps)
  qed
qed

text \<open>
  C35. The listener is the first address that can be bound. It is returned exactly when it can also listen, with that one
  socket open and the address list freed; in every other case the result is -1 and the exit flag is set. A socket on
  which an option cannot be set stays open, and then, as when no address can be bound, the address list is not freed.
\<close>

theorem createListener_outcome:
  assumes "\<forall>a\<in>set ps. fresh_socket k a" and "gai (if ip = [] then None else Some ip) port = Inr ps"
  shows "\<exists>e. createListener gai listen_ok ip port block k s = (case find (\<lambda>a. \<not> skipped a) ps of
       None \<Rightarrow> (-1, False, True, k, s\<lparr>allExitFlag := True\<rparr>, e)
     | Some a \<Rightarrow>
         if \<not> (a_reuse a \<and> a_defer a) then (-1, False, True, k\<lparr>openfds := a_sock a # openfds k\<rparr>, s\<lparr>allExitFlag := True\<rparr>, e)
         else if \<not> listen_ok then (-1, False, False, k, s\<lparr>allExitFlag := True\<rparr>, e)
         else (a_sock a, \<not> block, False, k\<lparr>openfds := a_sock a # openfds k\<rparr>, s, e))"
proof -
  obtain r k' s' e where b: "bind_loop ps k s = (r, k', s', e)" "bind_end ps k s = (r, k', s')"
    using bind_loop_spec [OF assms(1)] by blast
  show ?thesis
  proof (cases "find (\<lambda>a. \<not> skipped a) ps")
    case None
    then show ?thesis using b assms(2) by (auto simp: createListener_def setallthreadexitflag_def bind_end_def)
  next
    case (Some a)
    then have a: "a \<in> set ps" "\<not> skipped a" by (auto simp: find_Some_iff)
    then have "a_sock a \<noteq> -1" by (simp add: skipped_def)
    with a(1) assms(1) have "sys_close (a_sock a) (k\<lparr>openfds := a_sock a # openfds k\<rparr>) = k" by (auto intro: close_opened)
    then show ?thesis using b assms(2) Some
      by (cases listen_ok) (auto simp: createListener_def setallthreadexitflag_def bind_end_def Let_def split: if_splits)
  qed
qed

theorem createListener_outcome_witness:
  "\<exists>e. createListener (\<lambda>_ _. Inr [\<lparr>a_sock = 5, a_reuse = True, a_defer = True, a_bind = False\<rparr>,
         \<lparr>a_sock = 6, a_reuse = True, a_defer = True, a_bind = True\<rparr>]) True [] ''9000'' False
       \<lparr>openfds = [0, 1, 2], interest = []\<rparr> (new_manager :: int manager)
     = (6, True, False, \<lparr>openfds = [6, 0, 1, 2], interest = []\<rparr>, new_manager, e)"
  using createListener_outcome [of "[\<lparr>a_sock = 5, a_reuse = True, a_defer = True, a_bind = False\<rparr>,
         \<lparr>a_sock = 6, a_reuse = True, a_defer = True, a_bind = True\<rparr>]" "\<lparr>openfds = [0, 1, 2], interest = []\<rparr>"
      "\<lambda>_ _. Inr [\<lparr>a_sock = 5, a_reuse = True, a_defer = True, a_bind = False\<rparr>,
         \<lparr>a_sock = 6, a_reuse = True, a_defer = True, a_bind = True\<rparr>]" "[]" "''9000''" True False "new_manager :: int manager"]
  by (simp add: fresh_socket_def skipped_def)

end
