(* ===== verification/Daemon.thy ===== *)
theory Daemon
  imports Client
begin

text \<open>
  \<open>becomeDaemon\<close> (\<open>become_daemon.h\<close>, \<open>become_daemon.cpp\<close>): the steps by which the server leaves its terminal. A process
  has a file table, a working directory, a file mode mask, and is or is not a session leader with a
  controlling terminal. The answers of the system calls that may fail are inputs; \<open>open\<close> takes the lowest
  free descriptor.
\<close>

unbundle bit_operations_syntax

section \<open>A process\<close>

record process =
  files :: "(nat \<times> string) list"
  cwd :: string
  umask_bits :: nat
  session_leader :: bool
  controlling_tty :: bool

text \<open>The flags, octal in the source.\<close>

definition BD_NO_CHDIR :: "32 word" where "BD_NO_CHDIR = 1"
definition BD_NO_CLOSE_FILES :: "32 word" where "BD_NO_CLOSE_FILES = 2"
definition BD_NO_REOPEN_STD_FDS :: "32 word" where "BD_NO_REOPEN_STD_FDS = 4"
definition BD_NO_UMASK0 :: "32 word" where "BD_NO_UMASK0 = 8"
definition BD_MAX_CLOSE :: int where "BD_MAX_CLOSE = 8192"

definition flag :: "32 word \<Rightarrow> 32 word \<Rightarrow> bool" where
  "flag flags m \<longleftrightarrow> flags AND m \<noteq> 0"

definition close_fd :: "nat \<Rightarrow> process \<Rightarrow> process" where
  "close_fd fd p = p\<lparr>files := filter (\<lambda>x. fst x \<noteq> fd) (files p)\<rparr>"

text \<open>The lowest descriptor not in use is among the first \<open>length (files p) + 1\<close>.\<close>

definition lowest_free :: "process \<Rightarrow> nat" where
  "lowest_free p = hd (filter (\<lambda>n. n \<notin> fst ` set (files p)) [0..<Suc (length (files p))])"

definition open_file :: "bool \<Rightarrow> string \<Rightarrow> process \<Rightarrow> int \<times> process" where
  "open_file ok name p = (if ok then (int (lowest_free p), p\<lparr>files := (lowest_free p, name) # files p\<rparr>) else (-1, p))"

definition dup2 :: "bool \<Rightarrow> nat \<Rightarrow> nat \<Rightarrow> process \<Rightarrow> int \<times> process" where
  "dup2 ok old new p = (case map_of (files p) old of
      Some f \<Rightarrow> if ok then (int new, (close_fd new p)\<lparr>files := (new, f) # files (close_fd new p)\<rparr>) else (-1, p)
    | None \<Rightarrow> (-1, p))"

section \<open>Becoming a daemon\<close>

text \<open>The answers of the calls: \<open>fork\<close> twice, \<open>setsid\<close>, \<open>sysconf\<close>, \<open>open\<close>, \<open>dup2\<close> twice; \<open>d_err\<close> is \<open>strerror(errno)\<close>.\<close>

record daemon_answers =
  d_fork1 :: int
  d_setsid :: bool
  d_fork2 :: int
  d_open_max :: int
  d_open :: bool
  d_dup1 :: bool
  d_dup2 :: bool
  d_err :: string

datatype daemon_result = Exits nat | Returns int process

definition say_err :: "string \<Rightarrow> string \<Rightarrow> effect" where
  "say_err err m = ELog (LOG_ERR, m @ '':'' @ err @ [CHR 0x0A])"

fun close_loop :: "nat \<Rightarrow> nat \<Rightarrow> process \<Rightarrow> process" where
  "close_loop fd 0 p = p"
| "close_loop fd (Suc n) p = close_loop (Suc fd) n (close_fd fd p)"

definition close_all :: "int \<Rightarrow> process \<Rightarrow> process" where
  "close_all open_max p =
     (let maxfd = (if open_max = -1 then BD_MAX_CLOSE else open_max) in close_loop 0 (nat maxfd) p)"

definition reopen_std :: "daemon_answers \<Rightarrow> process \<Rightarrow> int \<times> process \<times> effect list" where
  "reopen_std ans p =
     (let (fd, p) = open_file (d_open ans) ''/dev/null'' (close_fd 0 p) in
      if fd \<noteq> 0 then (-1, p, [say_err (d_err ans) ''[cksettling>> fd != STDIN_FILENO]''])
      else let (r1, p) = dup2 (d_dup1 ans) 0 1 p in
      if r1 \<noteq> 1 then (-1, p, [say_err (d_err ans) ''[cksettling>> dup2 >>!= STDIN_FILENO]''])
      else let (r2, p) = dup2 (d_dup2 ans) 0 2 p in
      if r2 \<noteq> 2 then (-1, p, [say_err (d_err ans) ''[cksettling>> dup2 2 >>!= STDIN_FILENO]''])
      else (0, p, []))"

definition becomeDaemon :: "daemon_answers \<Rightarrow> 32 word \<Rightarrow> process \<Rightarrow> daemon_result \<times> effect list" where
  "becomeDaemon ans flags p =
     (let e0 = [say ''[cksettling>> becomeDaemon begin...]''] in
      if d_fork1 ans < 0 then (Returns (-1) p, e0 @ [say_err (d_err ans) ''[cksettling>> fork fail''])
      else if d_fork1 ans \<noteq> 0 then (Exits 0, e0 @ [say ''[cksettling>> while parent]''])
      else let p = p\<lparr>session_leader := False\<rparr> in
      if \<not> d_setsid ans then (Returns (-1) p, e0 @ [say_err (d_err ans) ''[cksettling>> setsid() fail]''])
      else let p = p\<lparr>session_leader := True, controlling_tty := False\<rparr> in
      if d_fork2 ans < 0 then (Returns (-1) p, e0 @ [say_err (d_err ans) ''[cksettling>> fork(2) fail]''])
      else if d_fork2 ans \<noteq> 0 then (Exits 0, e0 @ [say ''[cksettling>> while parent2]''])
      else let p = p\<lparr>session_leader := False\<rparr>;
          p = (if \<not> flag flags BD_NO_UMASK0 then p\<lparr>umask_bits := 0\<rparr> else p);
          p = (if \<not> flag flags BD_NO_CHDIR then p\<lparr>cwd := ''/''\<rparr> else p);
          p = (if \<not> flag flags BD_NO_CLOSE_FILES then close_all (d_open_max ans) p else p);
          (r, p, e1) = (if \<not> flag flags BD_NO_REOPEN_STD_FDS then reopen_std ans p else (0, p, [])) in
      if r \<noteq> 0 then (Returns (-1) p, e0 @ e1)
      else (Returns 0 p, e0 @ e1 @ [say ''[cksettling>> becomeDaemon ok]'']))"

section \<open>The daemon the server becomes\<close>

lemma close_loop_files:
  "close_loop fd n p = p\<lparr>files := filter (\<lambda>x. \<not> (fd \<le> fst x \<and> fst x < fd + n)) (files p)\<rparr>"
proof (induction n arbitrary: fd p)
  case 0
  have "filter (\<lambda>x. fst x < fd \<or> fd \<le> fst x) (files p) = files p" by (auto simp: filter_id_conv)
  then show ?case by (simp add: not_le not_less)
next
  case (Suc n)
  have "filter (\<lambda>x. \<not> (Suc fd \<le> fst x \<and> fst x < Suc fd + n)) (filter (\<lambda>x. fst x \<noteq> fd) (files p))
      = filter (\<lambda>x. \<not> (fd \<le> fst x \<and> fst x < fd + Suc n)) (files p)"
    by (auto intro!: filter_cong)
  then show ?case unfolding close_loop.simps Suc by (simp add: close_fd_def)
qed

text \<open>With every descriptor below the limit closed, \<open>/dev/null\<close> becomes the three standard descriptors.\<close>

lemma reopen_std_ok:
  assumes "\<forall>x\<in>set (files p). 2 < fst x" and "d_open ans" "d_dup1 ans" "d_dup2 ans"
  shows "reopen_std ans p =
     (0, p\<lparr>files := (2, ''/dev/null'') # (1, ''/dev/null'') # (0, ''/dev/null'') # files p\<rparr>, [])"
proof -
  have n: "filter (\<lambda>x. fst x \<noteq> i) (files p) = files p" if "i \<le> 2" for i
    using assms(1) that by (auto simp: filter_id_conv)
  have "0 \<notin> fst ` set (files p)" using assms(1) by fastforce
  then have l: "lowest_free p = 0" by (simp add: lowest_free_def upt_conv_Cons del: upt_Suc)
  have c: "close_fd 0 p = p" using n [of 0] by (simp add: close_fd_def)
  let ?n = "''/dev/null''"
  have d: "dup2 True 0 1 (p\<lparr>files := (0, ?n) # files p\<rparr>) = (1, p\<lparr>files := (1, ?n) # (0, ?n) # files p\<rparr>)"
    "dup2 True 0 2 (p\<lparr>files := (1, ?n) # (0, ?n) # files p\<rparr>) = (2, p\<lparr>files := (2, ?n) # (1, ?n) # (0, ?n) # files p\<rparr>)"
    using n [of 1] n [of 2] by (simp_all add: dup2_def close_fd_def)
  then show ?thesis using assms l by (simp add: reopen_std_def c open_file_def)
qed

text \<open>
  C36. Started as the server starts it (only the working directory kept), the process that returns 0 has no controlling
  terminal and is no session leader, creates files without a mask, keeps its directory, and its open descriptors below the
  limit are exactly the three standard ones on \<open>/dev/null\<close>; its ancestors have exited.
\<close>

theorem becomeDaemon_server:
  assumes "d_setsid ans" "d_open ans" "d_dup1 ans" "d_dup2 ans" and "d_fork1 ans = 0" "d_fork2 ans = 0"
    and "3 \<le> (if d_open_max ans = -1 then BD_MAX_CLOSE else d_open_max ans)"
  shows "\<exists>q. fst (becomeDaemon ans BD_NO_CHDIR p) = Returns 0 q \<and> \<not> session_leader q \<and> \<not> controlling_tty q
     \<and> umask_bits q = 0 \<and> cwd q = cwd p
     \<and> (\<forall>fd f. int fd < (if d_open_max ans = -1 then BD_MAX_CLOSE else d_open_max ans) \<longrightarrow>
          ((fd, f) \<in> set (files q) \<longleftrightarrow> fd \<le> 2 \<and> f = ''/dev/null''))"
proof -
  let ?m = "if d_open_max ans = -1 then BD_MAX_CLOSE else d_open_max ans"
  let ?p = "p\<lparr>controlling_tty := False, session_leader := False, umask_bits := 0\<rparr>"
  let ?q = "close_all (d_open_max ans) ?p"
  have c: "?q = close_loop 0 (nat ?m) ?p" by (simp add: close_all_def)
  have e: "?q = ?p\<lparr>files := filter (\<lambda>x. \<not> fst x < nat ?m) (files p)\<rparr>"
    unfolding c close_loop_files by simp
  have q: "files ?q = filter (\<lambda>x. \<not> fst x < nat ?m) (files p)" by (subst e) simp
  have "\<forall>x\<in>set (files ?q). 2 < fst x" using q assms(7) by auto
  note r = reopen_std_ok [OF this assms(2-4)]
  have fl: "\<not> flag BD_NO_CHDIR BD_NO_UMASK0" "flag BD_NO_CHDIR BD_NO_CHDIR" "\<not> flag BD_NO_CHDIR BD_NO_CLOSE_FILES"
    "\<not> flag BD_NO_CHDIR BD_NO_REOPEN_STD_FDS"
    by (simp_all add: flag_def BD_NO_CHDIR_def BD_NO_UMASK0_def BD_NO_CLOSE_FILES_def BD_NO_REOPEN_STD_FDS_def)
  let ?f = "(2, ''/dev/null'') # (1, ''/dev/null'') # (0, ''/dev/null'') # files ?q"
  have "fst (becomeDaemon ans BD_NO_CHDIR p) = Returns 0 (?q\<lparr>files := ?f\<rparr>)"
    using assms(1,5,6) by (simp add: becomeDaemon_def Let_def fl r)
  moreover have "((fd, f) \<in> set ?f \<longleftrightarrow> fd \<le> 2 \<and> f = ''/dev/null'')" if "int fd < ?m" for fd f
    using that q by (auto simp: le_Suc_eq numeral_2_eq_2)
  moreover have "cwd ?q = cwd p" "umask_bits ?q = 0" "\<not> session_leader ?q" "\<not> controlling_tty ?q"
    by (subst e, simp)+
  ultimately show ?thesis by (intro exI [of _ "?q\<lparr>files := ?f\<rparr>"]) simp
qed

definition shell_process :: process where
  "shell_process = \<lparr>files = [(0, ''tty''), (1, ''tty''), (2, ''tty''), (5, ''sock'')], cwd = ''/srv'', umask_bits = 18,
     session_leader = False, controlling_tty = True\<rparr>"

theorem becomeDaemon_server_witness:
  "\<exists>q. fst (becomeDaemon \<lparr>d_fork1 = 0, d_setsid = True, d_fork2 = 0, d_open_max = -1, d_open = True, d_dup1 = True,
        d_dup2 = True, d_err = []\<rparr> BD_NO_CHDIR shell_process) = Returns 0 q \<and> cwd q = ''/srv'' \<and> (5, ''sock'') \<notin> set (files q)"
  using becomeDaemon_server [of "\<lparr>d_fork1 = 0, d_setsid = True, d_fork2 = 0, d_open_max = -1, d_open = True, d_dup1 = True,
        d_dup2 = True, d_err = []\<rparr>" shell_process]
  by (auto simp: BD_MAX_CLOSE_def shell_process_def)

end
