(* ===== verification/Loader.thy ===== *)
theory Loader
  imports Config Correctit
begin

text \<open>
  The database loader (\<open>dbdo.cpp\<close>): settings and connection, the query wrapper, and \<open>getdb\<close>, which
  reads the table of offsets in batches and fills the \<open>INFO_MAP\<close>. The MySQL client library is
  not part of the sources: what its calls return is an argument of the definitions. A row is
  what \<open>mysql_fetch_row\<close> gives, four fields that may be null. Log lines that are constants
  of the program are left out; those made of data are formatted.
\<close>

section \<open>Settings and connection\<close>

record Cdbdo =
  db_conn :: bool
  m_strServerName :: string
  m_strUserName :: string
  m_strPassword :: string
  m_strDBName :: string
  m_port :: "32 word"
  db_configFilename :: string
  db_kvmap :: kvmap

definition new_Cdbdo :: Cdbdo where
  "new_Cdbdo = \<lparr>db_conn = False, m_strServerName = ''localhost'', m_strUserName = ''test'', m_strPassword = ''test'',
     m_strDBName = ''baidumaps'', m_port = 3306, db_configFilename = [], db_kvmap = []\<rparr>"

text \<open>The flag is \<open>setallthreadexitflag(408)\<close>.\<close>

definition db_readConfigFile :: "(string \<Rightarrow> string option) \<Rightarrow> char \<Rightarrow> Cdbdo \<Rightarrow> (bool \<times> Cdbdo \<times> bool) res" where
  "db_readConfigFile fs below d =
     (if db_configFilename d = [] then Inr (False, d, True)
      else rbind (file_to_items below (fs (cstr (db_configFilename d))) (db_kvmap d)) (\<lambda>r.
        let kvm = snd r in
        Inr (True, d\<lparr>db_kvmap := kvm,
          m_strServerName := cfg_str kvm ''db_host_ip'' (m_strServerName d),
          m_strDBName := cfg_str kvm ''db_name'' (m_strDBName d),
          m_strUserName := cfg_str kvm ''db_user'' (m_strUserName d),
          m_strPassword := cfg_str kvm ''db_psw'' (m_strPassword d),
          m_port := cfg_int kvm ''db_port'' (m_port d)\<rparr>, False)))"

text \<open>
  \<open>init\<close> is whether \<open>mysql_init\<close> gives a handle, \<open>connect\<close> whether \<open>mysql_real_connect\<close> succeeds for a
  server, user, password, database and port. Without a handle the connect is called on a
  null pointer, and a success would be followed by a write through it.
\<close>

definition DataBaseIni ::
  "(string \<Rightarrow> string option) \<Rightarrow> char \<Rightarrow> string option \<Rightarrow> bool \<Rightarrow> (string \<Rightarrow> string \<Rightarrow> string \<Rightarrow> string \<Rightarrow> 32 word \<Rightarrow> bool) \<Rightarrow>
   Cdbdo \<Rightarrow> (bool \<times> Cdbdo \<times> bool) res" where
  "DataBaseIni fs below dir init connect d = (case dir of
      None \<Rightarrow> Inl (Thrown ''basic_string'')
    | Some exedir \<Rightarrow>
        rbind (db_readConfigFile fs below (d\<lparr>db_configFilename := exedir @ CONFIG_FILE\<rparr>)) (\<lambda>(ok, d, ex).
        if db_conn d then Inr (True, d, ex)
        else
          let d = d\<lparr>db_conn := init\<rparr> in
          if \<not> connect (cstr (m_strServerName d)) (cstr (m_strUserName d)) (cstr (m_strPassword d)) (cstr (m_strDBName d)) (m_port d)
          then Inr (False, d, ex)
          else if init then Inr (True, d, ex) else Inl NullDeref))"

definition BBT_DisConn :: "Cdbdo \<Rightarrow> Cdbdo" where
  "BBT_DisConn d = (if db_conn d then d\<lparr>db_conn := False\<rparr> else d)"

text \<open>\<open>BBT_DOSQL\<close>: the statement and the server's error text become format strings of the log.\<close>

definition BBT_DOSQL :: "int \<Rightarrow> string \<Rightarrow> string \<Rightarrow> int \<Rightarrow> string \<Rightarrow> (bool \<times> (nat \<times> string) list) res" where
  "BBT_DOSQL query_rc errno_text mysql_error now psql =
     (if query_rc \<noteq> 0 then
        rbind (fits 16 (print_int now)) (\<lambda>buf.
        rbind (log_sys errno_text (''[error][SQL]['' @ buf @ ''][''  @ psql @ ''].'') []) (\<lambda>l1.
        rbind (log_sys errno_text (''[error][EXEC SQL]err:'' @ mysql_error @ ''.'') []) (\<lambda>l2.
        Inr (False, [l1, l2]))))
      else Inr (True, [(LOG_INFO, ''[log][EXEC SQL]ok.'' @ [CHR 0x0A])]))"

text \<open>\<open>checklink\<close>: the \<open>n\<close>-th ping and the error text after it; four failures in a row give up.\<close>

function checklink_loop :: "string \<Rightarrow> (nat \<Rightarrow> bool) \<Rightarrow> (nat \<Rightarrow> string) \<Rightarrow> nat \<Rightarrow> bool res" where
  "checklink_loop errno_text ping err n =
     (if ping n then Inr True
      else rbind (log_sys errno_text (''[error][SQL]'' @ err n @ ''.'') []) (\<lambda>_.
        if 3 < Suc n then Inr False else checklink_loop errno_text ping err (Suc n)))"
  by pat_completeness auto
termination
  by (relation "measure (\<lambda>(e, p, r, n). 4 - n)") auto

declare checklink_loop.simps [simp del]

definition checklink :: "string \<Rightarrow> (nat \<Rightarrow> bool) \<Rightarrow> (nat \<Rightarrow> string) \<Rightarrow> bool res" where
  "checklink errno_text ping err = checklink_loop errno_text ping err 0"

section \<open>Queries\<close>

type_synonym row = "string option \<times> string option \<times> string option \<times> string option"

abbreviation CR_UNKNOWN_ERROR :: int where
  "CR_UNKNOWN_ERROR \<equiv> 2000"

abbreviation CR_SERVER_GONE_ERROR :: int where
  "CR_SERVER_GONE_ERROR \<equiv> 2006"

abbreviation CR_SERVER_LOST :: int where
  "CR_SERVER_LOST \<equiv> 2013"

abbreviation CR_COMMANDS_OUT_OF_SYNC :: int where
  "CR_COMMANDS_OUT_OF_SYNC \<equiv> 2014"

text \<open>
  The cases of the switch fall through into one another; the result is the value of \<open>*boolresult\<close>
  afterwards, the stored result, and the number of error lines logged.
\<close>

definition getResult :: "int \<Rightarrow> row list option \<Rightarrow> bool \<Rightarrow> bool \<times> row list option \<times> nat" where
  "getResult query_rc stored boolresult =
     (if query_rc = CR_COMMANDS_OUT_OF_SYNC then (False, stored, 4)
      else if query_rc = CR_SERVER_GONE_ERROR then (False, stored, 3)
      else if query_rc = CR_SERVER_LOST then (False, stored, 2)
      else if query_rc = CR_UNKNOWN_ERROR then (False, stored, 1)
      else (boolresult, stored, 0))"

section \<open>Filling the table\<close>

definition upd_info :: "32 word \<Rightarrow> 'd CXArray \<Rightarrow> 'd INFO_MAP \<Rightarrow> 'd INFO_MAP" where
  "upd_info key a info = map (\<lambda>(k, b). if k = key then (k, a) else (k, b)) info"

definition add_point :: "'d fpops \<Rightarrow> copy_sem \<Rightarrow> 'd INFO_MAP \<Rightarrow> 32 word \<times> 32 word \<times> 'd \<times> 'd \<Rightarrow> 'd INFO_MAP res" where
  "add_point fp mode info = (\<lambda>(key, lngkey, dx, dy).
     case map_of info key of
       None \<Rightarrow> rbind (append_entry mode (new_CXArray fp) lngkey dx dy) (\<lambda>a. Inr (ins_new key a info))
     | Some a \<Rightarrow> rbind (append_entry mode a lngkey dx dy) (\<lambda>a. Inr (upd_info key a info)))"

text \<open>The fields of a row in the order the code reads them; \<open>None\<close> at the first null one.\<close>

definition row_point :: "'d fpops \<Rightarrow> row \<Rightarrow> (32 word \<times> 32 word \<times> 'd \<times> 'd) option res" where
  "row_point fp = (\<lambda>(r0, r1, r2, r3).
     case r0 of None \<Rightarrow> Inr None | Some lat \<Rightarrow>
       rbind (chang2uint (cstr lat)) (\<lambda>key.
       case r1 of None \<Rightarrow> Inr None | Some lng \<Rightarrow>
         rbind (chang2uint (cstr lng)) (\<lambda>lngkey.
         case (r2, r3) of
           (Some ox, Some oy) \<Rightarrow> Inr (Some (key, lngkey, fp_atof fp (cstr ox), fp_atof fp (cstr oy)))
         | _ \<Rightarrow> Inr None)))"

text \<open>The rows of one result; a null field leaves the loop.\<close>

fun rows_loop :: "'d fpops \<Rightarrow> copy_sem \<Rightarrow> row list \<Rightarrow> 'd INFO_MAP \<Rightarrow> 'd INFO_MAP res" where
  "rows_loop fp mode [] info = Inr info"
| "rows_loop fp mode (r # rs) info =
     rbind (row_point fp r) (\<lambda>pt. case pt of
         None \<Rightarrow> Inr info
       | Some p \<Rightarrow> rbind (add_point fp mode info p) (rows_loop fp mode rs))"

abbreviation COUNT_PER_READ :: nat where
  "COUNT_PER_READ \<equiv> 10000000"

abbreviation MAX_RECORD :: nat where
  "MAX_RECORD \<equiv> 30000000"

definition limit_clause :: "nat \<Rightarrow> string" where
  "limit_clause m = dec m @ '','' @ dec COUNT_PER_READ @ '' ;''"

definition select_text :: "nat \<Rightarrow> string" where
  "select_text m = ''SELECT lat,lng,offsetlng,offsetlat FROM baidumaps  limit '' @ limit_clause m"

text \<open>
  The outer loop. \<open>query\<close> is what the database answers to a statement: the return code and the
  stored result. \<open>exits\<close> is the value of \<open>allExitFlag\<close> when the batch at \<open>m\<close> begins. The
  result says whether \<open>setallthreadexitflag(400)\<close> was called.
\<close>

function getdb_loop ::
  "'d fpops \<Rightarrow> copy_sem \<Rightarrow> (nat \<Rightarrow> bool) \<Rightarrow> (string \<Rightarrow> int \<times> row list option) \<Rightarrow> nat \<Rightarrow> 'd INFO_MAP \<Rightarrow> (bool \<times> 'd INFO_MAP) res" where
  "getdb_loop fp mode exits query m info =
     (if \<not> exits m \<and> m < MAX_RECORD then
        rbind (fits 30 (limit_clause m)) (\<lambda>offindex.
        let (rc, stored) = query (select_text m); (retn, result, n) = getResult rc stored True in
        case result of
          None \<Rightarrow> Inr (True, info)
        | Some rows \<Rightarrow>
            if \<not> retn then Inr (True, info)
            else rbind (rows_loop fp mode rows info) (getdb_loop fp mode exits query (m + COUNT_PER_READ)))
      else Inr (False, info))"
  by pat_completeness auto
termination
  by (relation "measure (\<lambda>(fp, mode, ex, q, m, info). MAX_RECORD - m)") auto

declare getdb_loop.simps [simp del]

definition getdb ::
  "'d fpops \<Rightarrow> copy_sem \<Rightarrow> bool res \<Rightarrow> (nat \<Rightarrow> bool) \<Rightarrow> (string \<Rightarrow> int \<times> row list option) \<Rightarrow> Cdbdo \<Rightarrow> 'd INFO_MAP \<Rightarrow>
   (bool \<times> Cdbdo \<times> 'd INFO_MAP) res" where
  "getdb fp mode link exits query d info =
     rbind link (\<lambda>ok.
     if \<not> ok then Inr (False, d, info)
     else rbind (getdb_loop fp mode exits query 0 info) (\<lambda>(failed, info).
       if failed then Inr (True, d, info) else Inr (False, BBT_DisConn d, info)))"

text \<open>\<open>loaddb\<close> checks the link once more and leaves the work to a thread that runs \<open>service\<close>: \<open>getdb\<close>.\<close>

definition loaddb ::
  "'d fpops \<Rightarrow> copy_sem \<Rightarrow> bool res \<Rightarrow> bool res \<Rightarrow> (nat \<Rightarrow> bool) \<Rightarrow> (string \<Rightarrow> int \<times> row list option) \<Rightarrow> Cdbdo \<Rightarrow> 'd INFO_MAP \<Rightarrow>
   (bool \<times> Cdbdo \<times> 'd INFO_MAP) res" where
  "loaddb fp mode link1 link2 exits query d info =
     rbind link1 (\<lambda>ok. if \<not> ok then Inr (False, d, info) else getdb fp mode link2 exits query d info)"

section \<open>The table refines the rows\<close>

definition entries_at :: "'d INFO_MAP \<Rightarrow> 32 word \<Rightarrow> (32 word \<times> 'd \<times> 'd) list" where
  "entries_at info y = (case map_of info y of None \<Rightarrow> [] | Some a \<Rightarrow> entries a)"

definition rows_at :: "32 word \<Rightarrow> (32 word \<times> 32 word \<times> 'd \<times> 'd) list \<Rightarrow> (32 word \<times> 'd \<times> 'd) list" where
  "rows_at y ps = map snd (filter (\<lambda>p. fst p = y) ps)"

text \<open>Each latitude has its longitudes in increasing order, and no more of them than a table holds.\<close>

definition loadable :: "(32 word \<times> 32 word \<times> 'd \<times> 'd) list \<Rightarrow> bool" where
  "loadable ps \<longleftrightarrow> (\<forall>y\<in>fst ` set ps. sorted_wrt (<) (map fst (rows_at y ps)) \<and> length (rows_at y ps) \<le> ARRAY_COUNT)"

lemma rows_at_Nil [simp]: "rows_at y [] = []"
  by (simp add: rows_at_def)

lemma rows_at_append: "rows_at y (ps @ qs) = rows_at y ps @ rows_at y qs"
  by (simp add: rows_at_def)

lemma rows_at_single: "rows_at y [(k, v)] = (if k = y then [v] else [])"
  by (simp add: rows_at_def)

lemma rows_at_other: "y \<notin> fst ` set ps \<Longrightarrow> rows_at y ps = []"
  by (auto simp: rows_at_def filter_empty_conv)

lemma map_of_upd_info:
  "map_of (upd_info key a info) = (if key \<in> fst ` set info then (map_of info)(key \<mapsto> a) else map_of info)"
  by (induction info) (auto simp: upd_info_def fun_eq_iff)

lemma map_fst_upd_info [simp]: "map fst (upd_info key a info) = map fst info"
  by (auto simp: upd_info_def)

lemma info_wf_upd: "info_wf fp info \<Longrightarrow> arr_wf fp a \<Longrightarrow> info_wf fp (upd_info key a info)"
  unfolding info_wf_def map_fst_upd_info by (auto simp: upd_info_def split: if_splits)

lemma info_wf_ins: "info_wf fp info \<Longrightarrow> arr_wf fp a \<Longrightarrow> info_wf fp (ins_new key a info)"
  using set_ins_new [of key a info] by (auto simp: info_wf_def intro: sorted_ins_new)

lemma add_point_spec:
  assumes wf: "info_wf fp info" and room: "length (entries_at info key) < ARRAY_COUNT"
    and below: "\<forall>e\<in>set (entries_at info key). fst e < x"
  shows "\<exists>info'. add_point fp mode info (key, x, dx, dy) = Inr info' \<and> info_wf fp info'
     \<and> entries_at info' = (entries_at info)(key := entries_at info key @ [(x, dx, dy)])"
proof (cases "map_of info key")
  case None
  obtain a where a: "append_entry mode (new_CXArray fp) x dx dy = Inr a" "arr_wf fp a" "entries a = [(x, dx, dy)]"
    using append_in_order_store [of fp "new_CXArray fp" x mode dx dy] by (auto simp: all_below_def arr_keys_entries)
  have "key \<notin> fst ` set info" using None by (simp add: map_of_eq_None_iff)
  moreover have "sorted_wrt (<) (map fst info)" using wf by (simp add: info_wf_def)
  ultimately have "map_of (ins_new key a info) = (map_of info)(key \<mapsto> a)" by (simp add: map_of_ins_new)
  then have "entries_at (ins_new key a info) = (entries_at info)(key := entries_at info key @ [(x, dx, dy)])"
    using None a(3) by (auto simp: entries_at_def fun_eq_iff)
  moreover have "add_point fp mode info (key, x, dx, dy) = Inr (ins_new key a info)"
    using None a(1) by (simp add: add_point_def)
  ultimately show ?thesis using info_wf_ins [OF wf a(2)] by blast
next
  case (Some a)
  have ea: "entries_at info key = entries a" using Some by (simp add: entries_at_def)
  have "arr_wf fp a" by (rule info_wf_lookup [OF wf Some])
  moreover have "index a < ARRAY_COUNT" using room ea by simp
  moreover have "all_below a x" using below ea by (auto simp: all_below_def arr_keys_entries)
  ultimately obtain a' where a': "append_entry mode a x dx dy = Inr a'" "arr_wf fp a'" "entries a' = entries a @ [(x, dx, dy)]"
    using append_in_order_store [of fp a x mode dx dy] by blast
  have "key \<in> fst ` set info" using Some by (metis map_of_eq_None_iff option.distinct(1))
  then have "map_of (upd_info key a' info) = (map_of info)(key \<mapsto> a')" by (simp add: map_of_upd_info)
  then have "entries_at (upd_info key a' info) = (entries_at info)(key := entries_at info key @ [(x, dx, dy)])"
    using ea a'(3) by (auto simp: entries_at_def fun_eq_iff)
  moreover have "add_point fp mode info (key, x, dx, dy) = Inr (upd_info key a' info)"
    using Some a'(1) by (simp add: add_point_def)
  ultimately show ?thesis using info_wf_upd [OF wf a'(2)] by blast
qed

lemma loadable_next:
  assumes "loadable (qs @ (k, x, v) # ps)"
  shows "length (rows_at k qs) < ARRAY_COUNT" "\<forall>e\<in>set (rows_at k qs). fst e < x"
proof -
  have "sorted_wrt (<) (map fst (rows_at k (qs @ (k, x, v) # ps)))" "length (rows_at k (qs @ (k, x, v) # ps)) \<le> ARRAY_COUNT"
    using assms by (auto simp: loadable_def)
  then show "length (rows_at k qs) < ARRAY_COUNT" "\<forall>e\<in>set (rows_at k qs). fst e < x"
    by (auto simp: rows_at_append rows_at_def sorted_wrt_append)
qed

lemma run_points:
  assumes "info_wf fp info" and "entries_at info = (\<lambda>y. rows_at y qs)" and "loadable (qs @ ps)"
  shows "\<exists>info'. run_steps (add_point fp mode) info ps = Inr info' \<and> info_wf fp info'
     \<and> entries_at info' = (\<lambda>y. rows_at y (qs @ ps))"
  using assms
proof (induction ps arbitrary: info qs)
  case Nil
  then show ?case by simp
next
  case (Cons p ps)
  obtain k x dx dy where p: "p = (k, x, dx, dy)" by (metis prod_cases4)
  note nxt = loadable_next [of qs k x "(dx, dy)" ps]
  have "length (entries_at info k) < ARRAY_COUNT" "\<forall>e\<in>set (entries_at info k). fst e < x"
    using nxt Cons.prems(2,3) p by simp_all
  then obtain info1 where i1: "add_point fp mode info p = Inr info1" "info_wf fp info1"
    "entries_at info1 = (entries_at info)(k := entries_at info k @ [(x, dx, dy)])"
    using add_point_spec [OF Cons.prems(1), of k x mode dx dy] p by auto
  have "entries_at info1 = (\<lambda>y. rows_at y (qs @ [p]))"
    using i1(3) Cons.prems(2) p by (auto simp: fun_eq_iff rows_at_append rows_at_single)
  with Cons.IH [OF i1(2), of "qs @ [p]"] Cons.prems(3) i1(1) show ?case by simp
qed

text \<open>Rows that parse: the loop over them is the run over their points.\<close>

lemma rows_loop_points:
  "list_all2 (\<lambda>r p. row_point fp r = Inr (Some p)) rs ps \<Longrightarrow>
   rows_loop fp mode rs info = run_steps (add_point fp mode) info ps"
proof (induction arbitrary: info rule: list_all2_induct)
  case Nil
  then show ?case by simp
next
  case (Cons r rs p ps)
  then show ?case by (cases "add_point fp mode info p") simp_all
qed

lemma rows_loop_append:
  assumes "list_all2 (\<lambda>r p. row_point fp r = Inr (Some p)) rs ps"
  shows "rows_loop fp mode (rs @ qs) info = rbind (rows_loop fp mode rs info) (rows_loop fp mode qs)"
  using assms
proof (induction arbitrary: info rule: list_all2_induct)
  case Nil
  then show ?case by simp
next
  case (Cons r rs p ps)
  then show ?case by (cases "add_point fp mode info p") simp_all
qed

lemma table_of_entries_at: "table_of info y x = map_of (entries_at info y) x"
  by (simp add: table_of_def entries_at_def split: option.split)

definition points_map :: "(32 word \<times> 32 word \<times> 'd \<times> 'd) list \<Rightarrow> (32 word \<times> 32 word) \<rightharpoonup> ('d \<times> 'd)" where
  "points_map ps = map_of (map (\<lambda>(y, x, v). ((y, x), v)) ps)"

lemma map_of_rows_at: "map_of (rows_at y ps) x = points_map ps (y, x)"
  by (induction ps) (auto simp: rows_at_def points_map_def)

lemma load_points:
  assumes "list_all2 (\<lambda>r p. row_point fp r = Inr (Some p)) rs ps" and "loadable ps"
  shows "\<exists>info. rows_loop fp mode rs [] = Inr info \<and> info_wf fp info \<and> (\<forall>y x. table_of info y x = points_map ps (y, x))"
proof -
  have "entries_at ([] :: 'a INFO_MAP) = (\<lambda>y. rows_at y [])" by (simp add: entries_at_def fun_eq_iff)
  then obtain info where "run_steps (add_point fp mode) [] ps = Inr info" "info_wf fp info" "entries_at info = (\<lambda>y. rows_at y ps)"
    using run_points [of fp "[]" "[]" ps mode] assms(2) by auto
  then show ?thesis using rows_loop_points [OF assms(1)] by (auto simp: table_of_entries_at map_of_rows_at)
qed

section \<open>Batches\<close>

lemma limit_clause_fits: "m < 10 ^ 8 \<Longrightarrow> fits 30 (limit_clause m) = Inr (limit_clause m)"
  using length_dec_le [of 8 m] length_dec_le [of 8 COUNT_PER_READ] by (simp add: fits_def limit_clause_def)

lemma select_text_inj: "select_text m = select_text n \<longleftrightarrow> m = n"
proof
  assume "select_text m = select_text n"
  then have "dec m = dec n" by (simp add: select_text_def limit_clause_def)
  then show "m = n" by (metis dec_val_dec)
qed simp

lemma getdb_batch:
  assumes "\<not> exits m" and "m < MAX_RECORD" and "query (select_text m) = (0, Some rows)"
  shows "getdb_loop fp mode exits query m info = rbind (rows_loop fp mode rows info) (getdb_loop fp mode exits query (m + COUNT_PER_READ))"
  using assms limit_clause_fits [of m] by (subst getdb_loop.simps) (simp add: getResult_def)

lemma getdb_end: "\<not> m < MAX_RECORD \<Longrightarrow> getdb_loop fp mode exits query m info = Inr (False, info)"
  by (subst getdb_loop.simps) simp

text \<open>
  C8. Loading the whole table: the loader asks for three batches of ten million rows; when every
  row is complete and each latitude's longitudes come in increasing order, at most 6600 of them, the
  load never faults, disconnects, and leaves well-formed tables in which exactly the rows of the three
  batches are found, each with its offsets.
\<close>

theorem load_database:
  assumes running: "\<And>m. \<not> exits m"
    and batches: "query (select_text 0) = (0, Some r0)" "query (select_text 10000000) = (0, Some r1)"
      "query (select_text 20000000) = (0, Some r2)"
    and points: "list_all2 (\<lambda>r p. row_point fp r = Inr (Some p)) (r0 @ r1 @ r2) ps" and ok: "loadable ps"
  shows "\<exists>info. loaddb fp mode (Inr True) (Inr True) exits query d [] = Inr (False, BBT_DisConn d, info)
     \<and> info_wf fp info \<and> (\<forall>y x. table_of info y x = points_map ps (y, x))"
proof -
  obtain p0 p1 p2 where p: "list_all2 (\<lambda>r p. row_point fp r = Inr (Some p)) r0 p0"
    "list_all2 (\<lambda>r p. row_point fp r = Inr (Some p)) r1 p1"
    using points by (auto simp: list_all2_append1)
  obtain info where info: "rows_loop fp mode (r0 @ r1 @ r2) [] = Inr info" "info_wf fp info"
    "\<forall>y x. table_of info y x = points_map ps (y, x)"
    using load_points [OF points ok, of mode] by blast
  have e3: "getdb_loop fp mode exits query 30000000 = (\<lambda>i. Inr (False, i))"
    by (rule ext) (simp add: getdb_end)
  have e2: "getdb_loop fp mode exits query 20000000 = (\<lambda>i. rbind (rows_loop fp mode r2 i) (\<lambda>i. Inr (False, i)))"
    by (rule ext) (simp add: getdb_batch [of exits 20000000 query r2] running batches(3) e3)
  have e1: "getdb_loop fp mode exits query 10000000 =
      (\<lambda>i. rbind (rows_loop fp mode r1 i) (\<lambda>i. rbind (rows_loop fp mode r2 i) (\<lambda>i. Inr (False, i))))"
    by (rule ext) (simp add: getdb_batch [of exits 10000000 query r1] running batches(2) e2)
  have "getdb_loop fp mode exits query 0 [] =
      rbind (rows_loop fp mode r0 []) (\<lambda>i. rbind (rows_loop fp mode r1 i) (\<lambda>i. rbind (rows_loop fp mode r2 i) (\<lambda>i. Inr (False, i))))"
    by (simp add: getdb_batch [of exits 0 query r0] running batches(1) e1)
  also have "\<dots> = rbind (rows_loop fp mode (r0 @ r1 @ r2) []) (\<lambda>i. Inr (False, i))"
    by (simp only: rows_loop_append [OF p(1)] rows_loop_append [OF p(2)] rbind_assoc)
  finally have "getdb_loop fp mode exits query 0 [] = Inr (False, info)" using info(1) by simp
  then have "loaddb fp mode (Inr True) (Inr True) exits query d [] = Inr (False, BBT_DisConn d, info)"
    by (simp add: loaddb_def getdb_def)
  with info(2,3) show ?thesis by blast
qed

definition sample_rows :: "row list" where
  "sample_rows = [(Some ''22.54'', Some ''0.10'', Some ''1'', Some ''2''), (Some ''22.54'', Some ''0.30'', Some ''3'', Some ''4''),
     (Some ''22.55'', Some ''0.10'', Some ''5'', Some ''6'')]"

definition sample_points :: "(32 word \<times> 32 word \<times> int \<times> int) list" where
  "sample_points = [(2254, 10, 1, 2), (2254, 30, 3, 4), (2255, 10, 5, 6)]"

lemma sample_rows_points: "list_all2 (\<lambda>r p. row_point int_fp r = Inr (Some p)) (sample_rows @ [] @ []) sample_points"
proof -
  have k: "chang2uint ''22.54'' = Inr 2254" "chang2uint ''22.55'' = Inr 2255" "chang2uint ''0.10'' = Inr 10" "chang2uint ''0.30'' = Inr 30"
    by code_simp+
  have f: "fst (strtol 32 ''1'') = 1" "fst (strtol 32 ''2'') = 2" "fst (strtol 32 ''3'') = 3" "fst (strtol 32 ''4'') = 4"
    "fst (strtol 32 ''5'') = 5" "fst (strtol 32 ''6'') = 6" by code_simp+
  show ?thesis by (simp add: sample_rows_def sample_points_def row_point_def k f)
qed

lemma sample_points_loadable: "loadable sample_points"
  by (simp add: loadable_def sample_points_def rows_at_def)

theorem load_database_witness:
  "\<exists>info. loaddb int_fp CopyStrict (Inr True) (Inr True) (\<lambda>_. False)
       (\<lambda>q. (0, Some (if q = select_text 0 then sample_rows else []))) new_Cdbdo [] = Inr (False, BBT_DisConn new_Cdbdo, info)
     \<and> info_wf int_fp info \<and> table_of info 2254 30 = Some (3, 4) \<and> table_of info 2254 31 = None"
proof -
  have ne: "select_text 10000000 \<noteq> select_text 0" "select_text 20000000 \<noteq> select_text 0"
    by (simp_all add: select_text_inj)
  have "\<exists>info. loaddb int_fp CopyStrict (Inr True) (Inr True) (\<lambda>_. False)
       (\<lambda>q. (0, Some (if q = select_text 0 then sample_rows else []))) new_Cdbdo [] = Inr (False, BBT_DisConn new_Cdbdo, info)
     \<and> info_wf int_fp info \<and> (\<forall>y x. table_of info y x = points_map sample_points (y, x))"
    by (rule load_database [OF _ _ _ _ sample_rows_points sample_points_loadable]) (simp_all add: ne)
  then show ?thesis by (auto simp: points_map_def sample_points_def)
qed

text \<open>
  A null field in a row ends its batch without an error: the rows before it are loaded, the rows
  behind it are dropped, and the loader goes on with the next batch.
\<close>

theorem null_field_ends_batch:
  assumes "list_all2 (\<lambda>r p. row_point fp r = Inr (Some p)) good ps" and "row_point fp bad = Inr None"
  shows "rows_loop fp mode (good @ bad # rest) info = rows_loop fp mode good info"
  using rows_loop_append [OF assms(1), of mode "bad # rest" info] assms(2) by (cases "rows_loop fp mode good info") simp_all

theorem null_field_ends_batch_witness:
  "rows_loop int_fp CopyStrict (sample_rows @ (Some ''22.55'', Some ''0.11'', None, Some ''1'') # sample_rows) []
   = rows_loop int_fp CopyStrict sample_rows []"
proof (rule null_field_ends_batch)
  show "list_all2 (\<lambda>r p. row_point int_fp r = Inr (Some p)) sample_rows sample_points"
    using sample_rows_points by simp
  have "chang2uint ''22.55'' = Inr 2255" "chang2uint ''0.11'' = Inr 11" by code_simp+
  then show "row_point int_fp (Some ''22.55'', Some ''0.11'', None, Some ''1'') = Inr None" by (simp add: row_point_def)
qed

text \<open>
  The link check ends after at most four pings: it reports a link exactly when one of the first
  four answers, provided the error texts can be logged.
\<close>

theorem checklink_four_pings:
  assumes "\<And>n. \<exists>l. log_sys errno_text (''[error][SQL]'' @ err n @ ''.'') [] = Inr l"
  shows "checklink errno_text ping err = Inr (\<exists>n<4. ping n)"
proof -
  obtain l where l: "log_sys errno_text (''[error][SQL]'' @ err n @ ''.'') [] = Inr (l n)" for n using assms by metis
  have "(\<exists>n<4. ping n) \<longleftrightarrow> ping 0 \<or> ping 1 \<or> ping 2 \<or> ping 3"
    by (auto simp: less_Suc_eq numeral_eq_Suc)
  moreover have "checklink_loop errno_text ping err 0 = Inr (ping 0 \<or> ping 1 \<or> ping 2 \<or> ping 3)"
    using l [of 0] l [of 1] l [of 2] l [of 3]
    by (simp add: checklink_loop.simps [of _ _ _ 0] checklink_loop.simps [of _ _ _ "Suc 0"]
        checklink_loop.simps [of _ _ _ "Suc (Suc 0)"] checklink_loop.simps [of _ _ _ "Suc (Suc (Suc 0))"] numeral_eq_Suc)
  ultimately show ?thesis by (simp add: checklink_def)
qed

theorem checklink_four_pings_witness:
  "checklink ''lost'' (\<lambda>n. n = 3) (\<lambda>_. ''gone'') = Inr True \<and> checklink ''lost'' (\<lambda>n. n = 4) (\<lambda>_. ''gone'') = Inr False"
proof -
  have "\<exists>l. log_sys ''lost'' (''[error][SQL]'' @ ''gone'' @ ''.'') [] = Inr l"
    by (simp add: log_sys_def log_doit_def vsprintf_plain pct_def fits_def)
  then show ?thesis
    using checklink_four_pings [of "''lost''" "\<lambda>_. ''gone''" "\<lambda>n. n = 3"]
      checklink_four_pings [of "''lost''" "\<lambda>_. ''gone''" "\<lambda>n. n = 4"] by simp
qed

end
