(* ===== verification/Mainloop.thy ===== *)
theory Mainloop
  imports Listener Daemon Loader Config
begin

text \<open>
  The main program (\<open>gps.cpp\<close>): start-up, signal handlers, the event loop and its dispatch to the client manager and
  the poller. The event loop is the main thread alone: each call on the manager is one step, the steps of
  the workers are in the theories \<open>Manager\<close> and \<open>Interleaving\<close>.
\<close>

unbundle bit_operations_syntax

section \<open>State and signals\<close>

record 'd program =
  pmgr :: "'d manager"
  ppoll :: SelEpolKqEvPrt
  pkern :: kern
  listenfd :: int
  termReceived :: bool
  hupmReceived :: bool

abbreviation (input) SIGHUP :: int where "SIGHUP \<equiv> 1"
abbreviation (input) SIGTERM :: int where "SIGTERM \<equiv> 15"

definition sig_term :: "int \<Rightarrow> 'd program \<Rightarrow> 'd program" where
  "sig_term signo s =
     (if signo = SIGTERM then s\<lparr>termReceived := True, pmgr := (pmgr s)\<lparr>allExitFlag := True\<rparr>\<rparr>
      else if signo = SIGHUP then s\<lparr>hupmReceived := True, pmgr := (pmgr s)\<lparr>allExitFlag := True\<rparr>\<rparr>
      else s)"

section \<open>One event\<close>

text \<open>Descriptors that the manager closes are closed in the kernel.\<close>

fun kern_effects :: "effect list \<Rightarrow> kern \<Rightarrow> kern" where
  "kern_effects [] k = k"
| "kern_effects (EClose fd # es) k = kern_effects es (sys_close fd k)"
| "kern_effects (e # es) k = kern_effects es k"

text \<open>What the outside answers while one event is handled: \<open>accept\<close>, the clock, the bytes read, the registration.\<close>

record io =
  io_accept :: "int option"
  io_now :: int
  io_ltm :: tm
  io_avail :: "string option"
  io_reg :: reg_answers

definition register_or_log :: "reg_answers \<Rightarrow> int \<Rightarrow> 'd program \<Rightarrow> 'd program \<times> effect list" where
  "register_or_log ans fd s =
     (let (ok, p, k, e) = registerForEvent ans fd (reRegisterServerSock (ppoll s)) (pkern s) in
      (s\<lparr>ppoll := p, pkern := k\<rparr>, e @ (if ok then [] else [say (''registerForEvent('' @ print_int fd @ '') fail'')])))"

definition accept_event :: "Ccfg \<Rightarrow> io \<Rightarrow> 'd program \<Rightarrow> ('d program \<times> effect list) res" where
  "accept_event g i s = (case io_accept i of
      None \<Rightarrow> Inr (s, [])
    | Some new_fd \<Rightarrow>
        rbind (AddToQueue g (io_now i) new_fd (pmgr s)) (\<lambda>(m, e1).
        let k = (pkern s)\<lparr>openfds := new_fd # openfds (pkern s)\<rparr>;
            (s, e2) = register_or_log (io_reg i) new_fd (s\<lparr>pmgr := m, pkern := kern_effects e1 k\<rparr>) in
        Inr (s, e1 @ e2)))"

definition unregister :: "int \<Rightarrow> 'd program \<Rightarrow> 'd program" where
  "unregister fd s = (let (b, p, k) = unRegisterForEvent fd (ppoll s) (pkern s) in s\<lparr>ppoll := p, pkern := k\<rparr>)"

definition read_event :: "copy_sem \<Rightarrow> io \<Rightarrow> int \<Rightarrow> 'd program \<Rightarrow> ('d program \<times> effect list) res" where
  "read_event mode i fd s =
     rbind (DoRead mode (io_ltm i) fd (io_avail i) (pmgr s)) (\<lambda>(m, e1).
     let (s, e2) = register_or_log (io_reg i) fd (s\<lparr>pmgr := m, pkern := kern_effects e1 (pkern s)\<rparr>) in
     Inr (s, e1 @ e2))"

definition hangup_event :: "int \<Rightarrow> 'd program \<Rightarrow> ('d program \<times> effect list) res" where
  "hangup_event fd s =
     (let s = unregister fd s in
      rbind (DoKill fd (pmgr s)) (\<lambda>(m, e). Inr (s\<lparr>pmgr := m, pkern := kern_effects e (pkern s)\<rparr>, e)))"

definition connection_event :: "copy_sem \<Rightarrow> io \<Rightarrow> int \<Rightarrow> int \<Rightarrow> 'd program \<Rightarrow> ('d program \<times> effect list) res" where
  "connection_event mode i n descriptor s =
     (let s = unregister descriptor s in
      case getEpollEvent n (ppoll s) of
        None \<Rightarrow> Inl NullDeref
      | Some e \<Rightarrow>
          rbind (if ev_events e AND EPOLLIN \<noteq> 0 then read_event mode i descriptor s else Inr (s, [])) (\<lambda>(s, e1).
          rbind (if ev_events e AND EPOLLRDHUP \<noteq> 0 \<or> ev_events e AND EPOLLERR \<noteq> 0 then hangup_event descriptor s
                 else Inr (s, [])) (\<lambda>(s, e2).
          Inr (s, e1 @ e2))))"

definition dispatch :: "copy_sem \<Rightarrow> Ccfg \<Rightarrow> io \<Rightarrow> int \<Rightarrow> 'd program \<Rightarrow> ('d program \<times> effect list) res" where
  "dispatch mode g i n s =
     (let descriptor = getDescriptor n (ppoll s) in
      if descriptor = listenfd s then accept_event g i s
      else if descriptor \<noteq> -1 then connection_event mode i n descriptor s
      else Inr (s, []))"

fun event_loop :: "copy_sem \<Rightarrow> Ccfg \<Rightarrow> (int \<Rightarrow> io) \<Rightarrow> int \<Rightarrow> nat \<Rightarrow> 'd program \<Rightarrow> ('d program \<times> effect list) res" where
  "event_loop mode g ios n 0 s = Inr (s, [])"
| "event_loop mode g ios n (Suc left) s =
     rbind (dispatch mode g (ios n) n s) (\<lambda>(s, e1).
     rbind (event_loop mode g ios (n + 1) left s) (\<lambda>(s, e2). Inr (s, e1 @ e2)))"

section \<open>The loop\<close>

text \<open>
  A turn of the loop: the rounds of \<open>getEvents\<close>, each with the signals that arrive before its test of the flag, the error
  number after them, the answers for each event, the signals that arrive from the end of the wait on until \<open>hupmReceived\<close> is
  tested (nothing in between reads what a signal sets), and those that arrive between that test and the test of the loop.
  A signal that interrupts \<open>epoll_wait\<close> is one of the next round. The signals of the rounds that take place are delivered.
  A signal during \<open>sleep(1)\<close> is one of the first round of the next turn.
\<close>

record turn =
  t_rounds :: "(int list \<times> wait_answer) list"
  t_errno :: nat
  t_io :: "int \<Rightarrow> io"
  t_late :: "int list"
  t_end :: "int list"

definition stops :: "int list \<Rightarrow> bool" where
  "stops sigs \<longleftrightarrow> SIGTERM \<in> set sigs \<or> SIGHUP \<in> set sigs"

fun flag_rounds :: "bool \<Rightarrow> (int list \<times> wait_answer) list \<Rightarrow> (bool \<times> wait_answer) list" where
  "flag_rounds b [] = []"
| "flag_rounds b ((sigs, a) # r) = (b \<or> stops sigs, a) # flag_rounds (b \<or> stops sigs) r"

definition rounds_run :: "SelEpolKqEvPrt \<Rightarrow> (bool \<times> wait_answer) list \<Rightarrow> nat" where
  "rounds_run p as = Suc (length (takeWhile (\<lambda>a. interrupted a \<and> 0 < curfds p) as))"

definition EBADF :: nat where "EBADF = 9"
definition EFAULT :: nat where "EFAULT = 14"

definition wait_failed :: "nat \<Rightarrow> effect list" where
  "wait_failed errno = [say ''Interruption Signal Received.'',
     if errno = EBADF then say ''.Inavlid fd.''
     else if errno = EFAULT then say '':The memory area pointed to by events is not accessible.''
     else if errno = EINVAL then say '':not a poll file descriptor, or maxevents is less than or equal to zero.''
     else say '':not an epoll file descriptor.'']"

text \<open>The flag in the result is \<open>goto RESTART\<close>; \<open>None\<close> when \<open>getEvents\<close> is still waiting.\<close>

definition main_turn :: "copy_sem \<Rightarrow> Ccfg \<Rightarrow> turn \<Rightarrow> 'd program \<Rightarrow> (bool \<times> 'd program \<times> effect list) option res" where
  "main_turn mode g t s =
     (let as = flag_rounds (allExitFlag (pmgr s)) (t_rounds t) in
      rbind (getEvents as (ppoll s)) (\<lambda>r. case r of
          None \<Rightarrow> Inr None
        | Some (nfds, p, e0) \<Rightarrow>
            let s = fold sig_term (concat (map fst (take (rounds_run (ppoll s) as) (t_rounds t)))) s;
                e1 = (if nfds = -1 then wait_failed (t_errno t) else []) in
            rbind (event_loop mode g (t_io t) 0 (nat nfds) (s\<lparr>ppoll := p\<rparr>)) (\<lambda>(s, e2).
            let s = fold sig_term (t_late t) s in
            if hupmReceived s then Inr (Some (True, s\<lparr>hupmReceived := False\<rparr>, e0 @ e1 @ e2))
            else Inr (Some (False, fold sig_term (t_end t) s, e0 @ e1 @ e2)))))"

text \<open>
  The loop over a list of turns; the first flag of the result says whether it has ended. The destructor of the
  manager runs when \<open>main\<close> returns.
\<close>

fun main_loop :: "copy_sem \<Rightarrow> Ccfg \<Rightarrow> turn list \<Rightarrow> bool \<Rightarrow> 'd program \<Rightarrow> (bool \<times> 'd program \<times> effect list) res" where
  "main_loop mode g ts restart s =
     (if \<not> restart \<and> (termReceived s \<or> allExitFlag (pmgr s)) then
        rbind (delete_manager (pmgr s)) (\<lambda>(m, e).
          Inr (True, s\<lparr>pmgr := m, pkern := kern_effects e (pkern s)\<rparr>, say ''[correctgps]ended.'' # e))
      else case ts of
          [] \<Rightarrow> Inr (False, s, [])
        | t # ts \<Rightarrow> rbind (main_turn mode g t s) (\<lambda>r. case r of
              None \<Rightarrow> Inr (False, s, [])
            | Some (again, s, e) \<Rightarrow> rbind (main_loop mode g ts again s) (\<lambda>(done, s, e'). Inr (done, s, e @ e'))))"

declare main_loop.simps [simp del]

section \<open>Start-up\<close>







section \<open>What the loop keeps\<close>

definition prog_inv :: "Ccfg \<Rightarrow> 'd program \<Rightarrow> bool" where
  "prog_inv g s \<longleftrightarrow> mgr_inv g (pmgr s) \<and> poll_inv (ppoll s, pkern s)"

lemma poll_inv_effects: "poll_inv (p, k) \<Longrightarrow> poll_inv (p, kern_effects es k)"
  by (induction es k rule: kern_effects.induct) (auto intro: poll_inv_close)

lemma poll_inv_open [simp]: "poll_inv (p, k) \<Longrightarrow> poll_inv (p, k\<lparr>openfds := fd # openfds k\<rparr>)"
  by (simp add: poll_inv_def)

lemma register_or_log_inv:
  assumes "poll_inv (ppoll s, pkern s)" and "register_or_log ans fd s = (s', e)"
  shows "poll_inv (ppoll s', pkern s') \<and> pmgr s' = pmgr s \<and> listenfd s' = listenfd s"
  using assms by (auto simp: register_or_log_def reRegisterServerSock_def split: prod.splits intro: poll_inv_register)

lemma unregister_inv: "prog_inv g s \<Longrightarrow> prog_inv g (unregister fd s)"
  by (auto simp: unregister_def prog_inv_def split: prod.splits intro: poll_inv_unregister)

lemma accept_event_inv:
  assumes inv: "prog_inv g s" and "accept_event g i s = Inr (s', e)"
  shows "prog_inv g s'"
proof (cases "io_accept i")
  case None
  then show ?thesis using assms by (simp add: accept_event_def)
next
  case (Some fd)
  obtain m e1 where a: "AddToQueue g (io_now i) fd (pmgr s) = Inr (m, e1)" "mgr_inv g m"
    using AddToQueue_spec [of g "pmgr s" "io_now i" fd] inv by (auto simp: prog_inv_def)
  let ?s = "s\<lparr>pmgr := m, pkern := kern_effects e1 ((pkern s)\<lparr>openfds := fd # openfds (pkern s)\<rparr>)\<rparr>"
  obtain s2 e2 where r: "register_or_log (io_reg i) fd ?s = (s2, e2)" by (cases "register_or_log (io_reg i) fd ?s")
  have "poll_inv (ppoll ?s, pkern ?s)" using inv by (simp add: prog_inv_def poll_inv_effects)
  from register_or_log_inv [OF this r] assms(2) Some a r show ?thesis by (simp add: accept_event_def prog_inv_def)
qed

lemma read_event_inv:
  assumes inv: "prog_inv g s" and "read_event mode i fd s = Inr (s', e)"
  shows "prog_inv g s'"
proof -
  obtain m e1 where a: "DoRead mode (io_ltm i) fd (io_avail i) (pmgr s) = Inr (m, e1)"
    using assms(2) by (auto simp: read_event_def)
  have m: "mgr_inv g m" using DoRead_inv [OF _ a] inv by (auto simp: prog_inv_def)
  let ?s = "s\<lparr>pmgr := m, pkern := kern_effects e1 (pkern s)\<rparr>"
  obtain s2 e2 where r: "register_or_log (io_reg i) fd ?s = (s2, e2)" by (cases "register_or_log (io_reg i) fd ?s")
  have "poll_inv (ppoll ?s, pkern ?s)" using inv by (simp add: prog_inv_def poll_inv_effects)
  from register_or_log_inv [OF this r] assms(2) a m r show ?thesis by (simp add: read_event_def prog_inv_def)
qed

lemma hangup_event_spec:
  assumes inv: "prog_inv g s"
  shows "\<exists>s' e. hangup_event fd s = Inr (s', e) \<and> prog_inv g s' \<and> map_of (clientqueue (pmgr s')) fd = None"
proof -
  let ?s = "unregister fd s"
  have i: "prog_inv g ?s" by (rule unregister_inv [OF inv])
  obtain m e where "DoKill fd (pmgr ?s) = Inr (m, e)" "mgr_inv g m" "map_of (clientqueue m) fd = None"
    using DoKill_spec [of g "pmgr ?s" fd] i by (auto simp: prog_inv_def)
  then show ?thesis using i by (simp add: hangup_event_def Let_def prog_inv_def poll_inv_effects)
qed

lemma connection_event_inv:
  assumes inv: "prog_inv g s" and "connection_event mode i n fd s = Inr (s', e)"
  shows "prog_inv g s'"
proof -
  have u: "prog_inv g (unregister fd s)" by (rule unregister_inv [OF inv])
  obtain ev :: epoll_event and s1 e1 s2 e2 where
    r: "(if ev_events ev AND EPOLLIN \<noteq> 0 then read_event mode i fd (unregister fd s) else Inr (unregister fd s, [])) = Inr (s1, e1)"
    and h: "(if ev_events ev AND EPOLLRDHUP \<noteq> 0 \<or> ev_events ev AND EPOLLERR \<noteq> 0 then hangup_event fd s1 else Inr (s1, [])) = Inr (s2, e2)"
    and s': "s' = s2"
    using assms(2) unfolding connection_event_def Let_def by (auto split: option.splits)
  have i1: "prog_inv g s1" using r u by (auto split: if_splits intro: read_event_inv [OF u])
  show ?thesis using h s' i1 hangup_event_spec [OF i1, of fd] by (auto split: if_splits)
qed

lemma dispatch_inv: "prog_inv g s \<Longrightarrow> dispatch mode g i n s = Inr (s', e) \<Longrightarrow> prog_inv g s'"
  by (auto simp: dispatch_def Let_def split: if_splits intro: accept_event_inv connection_event_inv)

lemma event_loop_inv: "prog_inv g s \<Longrightarrow> event_loop mode g ios n c s = Inr (s', e) \<Longrightarrow> prog_inv g s'"
proof (induction c arbitrary: n s e)
  case 0
  then show ?case by simp
next
  case (Suc c)
  then obtain s1 e1 e2 where "dispatch mode g (ios n) n s = Inr (s1, e1)" "event_loop mode g ios (n + 1) c s1 = Inr (s', e2)" by auto
  with Suc show ?case using dispatch_inv by blast
qed

lemma sig_term_inv: "prog_inv g s \<Longrightarrow> prog_inv g (fold sig_term sigs s)"
  by (induction sigs arbitrary: s) (auto simp: sig_term_def prog_inv_def)

lemma epoll_wait_curfds: "epoll_wait a p = Inr (Inr (n, p')) \<Longrightarrow> curfds p' = curfds p"
  by (cases a) (auto simp: epoll_wait_def store_events_def Let_def split: if_splits)

lemma wait_loop_curfds: "wait_loop n as p = Inr (Some (m, p', e)) \<Longrightarrow> curfds p' = curfds p"
proof (induction n as p rule: wait_loop.induct)
  case (2 n stopping a rest p)
  show ?case
  proof (cases "epoll_wait a p")
    case (Inr r)
    then show ?thesis using 2 by (cases r) (auto split: if_splits dest: epoll_wait_curfds)
  qed (use 2 in \<open>auto split: if_splits\<close>)
qed simp

text \<open>The parts of a turn that returns.\<close>

lemma main_turn_run:
  fixes s s1 :: "'d program"
  assumes "main_turn mode g t s = Inr (Some (again, s1, e))"
  defines "as \<equiv> flag_rounds (allExitFlag (pmgr s)) (t_rounds t)"
  obtains nfds q e0 s2 e2 where "getEvents as (ppoll s) = Inr (Some (nfds, q, e0))"
    and "event_loop mode g (t_io t) 0 (nat nfds)
       ((fold sig_term (concat (map fst (take (rounds_run (ppoll s) as) (t_rounds t)))) s)\<lparr>ppoll := q\<rparr>) = Inr (s2, e2)"
    and "s1 = (if again then (fold sig_term (t_late t) s2)\<lparr>hupmReceived := False\<rparr> else fold sig_term (t_end t) (fold sig_term (t_late t) s2))"
proof -
  obtain nfds q e0 where n: "getEvents as (ppoll s) = Inr (Some (nfds, q, e0))"
  proof (cases "getEvents as (ppoll s)")
    case (Inr r)
    then show thesis using assms(1) that unfolding main_turn_def as_def [symmetric] Let_def by (cases r) auto
  qed (use assms(1) in \<open>simp add: main_turn_def as_def [symmetric]\<close>)
  let ?s = "(fold sig_term (concat (map fst (take (rounds_run (ppoll s) as) (t_rounds t)))) s)\<lparr>ppoll := q\<rparr>"
  obtain s2 e2 where ev: "event_loop mode g (t_io t) 0 (nat nfds) ?s = Inr (s2, e2)"
    using assms(1) unfolding main_turn_def as_def [symmetric] Let_def n
    by (cases "event_loop mode g (t_io t) 0 (nat nfds) ?s") auto
  have "s1 = (if again then (fold sig_term (t_late t) s2)\<lparr>hupmReceived := False\<rparr> else fold sig_term (t_end t) (fold sig_term (t_late t) s2))"
    using assms(1) unfolding main_turn_def as_def [symmetric] Let_def n rbind.simps option.case prod.case ev
    by (cases "hupmReceived (fold sig_term (t_late t) s2)") auto
  with n ev show thesis by (rule that)
qed

lemma main_turn_inv:
  assumes inv: "prog_inv g s" and "main_turn mode g t s = Inr (Some (again, s', e))"
  shows "prog_inv g s'"
proof -
  let ?as = "flag_rounds (allExitFlag (pmgr s)) (t_rounds t)"
  let ?s = "fold sig_term (concat (map fst (take (rounds_run (ppoll s) ?as) (t_rounds t)))) s"
  obtain nfds p e0 s1 e2 where g: "getEvents ?as (ppoll s) = Inr (Some (nfds, p, e0))"
    "event_loop mode g (t_io t) 0 (nat nfds) (?s\<lparr>ppoll := p\<rparr>) = Inr (s1, e2)"
    "s' = (if again then (fold sig_term (t_late t) s1)\<lparr>hupmReceived := False\<rparr> else fold sig_term (t_end t) (fold sig_term (t_late t) s1))"
    by (rule main_turn_run [OF assms(2)])
  have "curfds p = curfds (ppoll s)" using wait_loop_curfds g(1) by (auto simp: getEvents_def)
  moreover have "ppoll ?s = ppoll s" for sigs
    by (rule fold_invariant [where P = "\<lambda>x. ppoll x = ppoll s" and Q = "\<lambda>_. True"]) (auto simp: sig_term_def)
  moreover have "prog_inv g ?s" by (rule sig_term_inv [OF inv])
  ultimately have "prog_inv g (?s\<lparr>ppoll := p\<rparr>)" by (simp add: prog_inv_def poll_inv_def)
  from sig_term_inv [OF event_loop_inv [OF this g(2)], of "t_late t"] sig_term_inv [of g _ "t_end t"] g(3)
  show ?thesis by (auto simp: prog_inv_def)
qed

text \<open>The loop as a machine over turns.\<close>

definition turn_step :: "copy_sem \<Rightarrow> Ccfg \<Rightarrow> 'd program \<Rightarrow> turn \<Rightarrow> 'd program res" where
  "turn_step mode g s t = rbind (main_turn mode g t s) (\<lambda>r. case r of None \<Rightarrow> Inr s | Some (again, s, e) \<Rightarrow> Inr s)"

interpretation loop: invariant_machine "turn_step mode g" "prog_inv g" for mode g
proof unfold_locales
  fix s s' :: "'d program" and t
  assume "prog_inv g s" "turn_step mode g s t = Inr s'"
  then show "prog_inv g s'"
    using main_turn_inv [of g s mode t] by (auto simp: turn_step_def split: option.splits)
qed

text \<open>
  C16. Through any number of turns, with any events, answers and signals, that do not end in a fault: the clients of the map
  are live clients of their descriptors and within the configured number, every watched descriptor is open and watched
  once, and \<open>epoll_wait\<close> is asked for at least one event.
\<close>

theorem mainloop_invariant:
  assumes "run_steps (turn_step mode g) s ts = Inr s'" and "mgr_inv g (pmgr s)" and "poll_inv (ppoll s, pkern s)"
  shows "(\<forall>fd a. map_of (clientqueue (pmgr s')) fd = Some a \<longrightarrow> (\<exists>c. heap (pmgr s') a = Some c \<and> cfd c = fd))
     \<and> length (clientqueue (pmgr s')) \<le> unat (max_clients g)
     \<and> distinct (map fst (interest (pkern s'))) \<and> fst ` set (interest (pkern s')) \<subseteq> set (openfds (pkern s'))
     \<and> 1 \<le> curfds (ppoll s')"
proof -
  have "prog_inv g s" using assms(2,3) by (simp add: prog_inv_def)
  from loop.run_inv [OF this assms(1)] have m: "mgr_inv g (pmgr s')" and p: "poll_inv (ppoll s', pkern s')"
    by (simp_all add: prog_inv_def)
  show ?thesis using m p mgr_inv_lookup [OF m] by (auto simp: mgr_inv_def poll_inv_def)
qed

definition idle_program :: "int program" where
  "idle_program = \<lparr>pmgr = setinfomap [] new_manager, ppoll = idle_poller, pkern = idle_kern, listenfd = 3,
     termReceived = False, hupmReceived = False\<rparr>"

definition quiet_io :: io where
  "quiet_io = \<lparr>io_accept = Some 7, io_now = 0, io_ltm = sample_tm, io_avail = None, io_reg = all_ok\<rparr>"

lemma idle_program_inv: "mgr_inv sample_cfg (pmgr idle_program)" "poll_inv (ppoll idle_program, pkern idle_program)"
  by (simp_all add: idle_program_def setinfomap_def poll_inv_def idle_poller_def idle_kern_def)

text \<open>A new connection on descriptor 7.\<close>

definition accept_turn :: turn where
  "accept_turn = \<lparr>t_rounds = [([], Ready [\<lparr>ev_events = EPOLLIN, ev_fd = 3\<rparr>])], t_errno = 0, t_io = (\<lambda>_. quiet_io),
     t_late = [], t_end = []\<rparr>"

lemma accept_turn_run:
  "\<exists>s. turn_step mode sample_cfg idle_program accept_turn = Inr s \<and> clientqueue (pmgr s) = [(7, 0)]
     \<and> map fst (interest (pkern s)) = [7, 3] \<and> curfds (ppoll s) = 3"
  by (simp add: turn_step_def main_turn_def accept_turn_def idle_program_def idle_poller_def idle_kern_def setinfomap_def
      new_manager_def getEvents_def epoll_wait_def store_events_def MAXDESCRIPTORS_def rounds_run_def interrupted_def stops_def
      dispatch_def getDescriptor_def store_def accept_event_def quiet_io_def AddToQueue_def GetNewClient_def say_def
      register_or_log_def registerForEvent_def reRegisterServerSock_def sys_setsockopt_def all_ok_def epoll_add_def Let_def)

theorem mainloop_invariant_witness:
  "\<exists>s. run_steps (turn_step CopyStrict sample_cfg) idle_program [accept_turn] = Inr s \<and> map_of (clientqueue (pmgr s)) 7 = Some 0
     \<and> (\<exists>c. heap (pmgr s) 0 = Some c \<and> cfd c = 7) \<and> 1 \<le> curfds (ppoll s)"
proof -
  obtain s where s: "turn_step CopyStrict sample_cfg idle_program accept_turn = Inr s" "clientqueue (pmgr s) = [(7, 0)]"
    using accept_turn_run by blast
  have r: "run_steps (turn_step CopyStrict sample_cfg) idle_program [accept_turn] = Inr s" using s(1) by simp
  have q: "map_of (clientqueue (pmgr s)) 7 = Some 0" using s(2) by simp
  from mainloop_invariant [OF r idle_program_inv] q r show ?thesis by blast
qed

section \<open>Single events\<close>

lemma close_effect_closes: "EClose fd \<in> set es \<Longrightarrow> fd \<notin> set (openfds (kern_effects es k))"
proof (induction es k rule: kern_effects.induct)
  case (2 fd' es k)
  have "fd \<notin> set (openfds k') \<Longrightarrow> fd \<notin> set (openfds (kern_effects es' k'))" for es' k'
    by (induction es' k' rule: kern_effects.induct) (auto simp: sys_close_def)
  with 2 show ?case by (auto simp: sys_close_def)
qed auto

lemma unregister_watched:
  assumes "0 < fd" and "fd \<in> fst ` set (interest (pkern s))"
  shows "unregister fd s = s\<lparr>ppoll := (ppoll s)\<lparr>curfds := curfds (ppoll s) - 1\<rparr>,
     pkern := (pkern s)\<lparr>interest := filter (\<lambda>x. fst x \<noteq> fd) (interest (pkern s))\<rparr>\<rparr>"
  using assms by (simp add: unregister_def unRegisterForEvent_def epoll_del_def)

lemma unregister_unwatched: "fd \<notin> fst ` set (interest (pkern s)) \<Longrightarrow> unregister fd s = s"
  by (simp add: unregister_def unRegisterForEvent_def epoll_del_def)

text \<open>The event at position \<open>n\<close> is one of a connection.\<close>

definition at_connection :: "int \<Rightarrow> int \<Rightarrow> 32 word \<Rightarrow> 'd program \<Rightarrow> bool" where
  "at_connection n fd m s \<longleftrightarrow> getEpollEvent n (ppoll s) = Some \<lparr>ev_events = m, ev_fd = fd\<rparr> \<and> 0 < fd \<and> fd \<noteq> listenfd s
     \<and> fd \<in> fst ` set (interest (pkern s))"

lemma dispatch_connection:
  assumes "at_connection n fd m s"
  shows "dispatch mode g i n s =
     rbind (if m AND EPOLLIN \<noteq> 0 then read_event mode i fd (unregister fd s) else Inr (unregister fd s, [])) (\<lambda>(s, e1).
     rbind (if m AND EPOLLRDHUP \<noteq> 0 \<or> m AND EPOLLERR \<noteq> 0 then hangup_event fd s else Inr (s, [])) (\<lambda>(s, e2).
     Inr (s, e1 @ e2)))"
proof -
  have d: "getDescriptor n (ppoll s) = fd" "fd \<noteq> listenfd s" "fd \<noteq> -1"
    using assms by (auto simp: at_connection_def getEpollEvent_def getDescriptor_def split: if_splits)
  moreover have "getEpollEvent n (ppoll (unregister fd s)) = Some \<lparr>ev_events = m, ev_fd = fd\<rparr>"
    using assms by (simp add: at_connection_def unregister_watched getEpollEvent_def split: if_splits)
  ultimately show ?thesis by (simp add: dispatch_def connection_event_def Let_def)
qed

text \<open>
  C32. A hang-up on a connection, without bytes to read, takes it down completely: its client is deleted, its descriptor
  is closed and no longer watched, and its slot is given back.
\<close>

theorem hangup_cleans_up:
  assumes inv: "mgr_inv g (pmgr s)" and at: "at_connection n fd m s" and m: "m AND EPOLLIN = 0" "m AND EPOLLRDHUP \<noteq> 0"
    and c: "map_of (clientqueue (pmgr s)) fd = Some a"
  shows "\<exists>s' e. dispatch mode g i n s = Inr (s', e) \<and> map_of (clientqueue (pmgr s')) fd = None \<and> heap (pmgr s') a = None
     \<and> fd \<notin> set (openfds (pkern s')) \<and> fd \<notin> fst ` set (interest (pkern s')) \<and> curfds (ppoll s') = curfds (ppoll s) - 1"
proof -
  have f: "0 < fd" "fd \<in> fst ` set (interest (pkern s))" using at by (auto simp: at_connection_def)
  let ?u = "unregister fd s"
  have u: "pmgr ?u = pmgr s" "curfds (ppoll ?u) = curfds (ppoll s) - 1" "fd \<notin> fst ` set (interest (pkern ?u))"
    using f by (auto simp: unregister_watched)
  obtain m' e where k: "DoKill fd (pmgr s) = Inr (m', e)" "map_of (clientqueue m') fd = None" "heap m' a = None" "EClose fd \<in> set e"
    using DoKill_spec [OF inv, of fd] c f(1) by auto
  have "fd \<notin> fst ` set (interest k') \<Longrightarrow> fd \<notin> fst ` set (interest (kern_effects es k'))" for es k'
    by (induction es k' rule: kern_effects.induct) (auto simp: sys_close_def)
  with u(3) have "fd \<notin> fst ` set (interest (kern_effects e (pkern ?u)))" by blast
  moreover have "dispatch mode g i n s = Inr (?u\<lparr>pmgr := m', pkern := kern_effects e (pkern ?u)\<rparr>, e)"
    using dispatch_connection [OF at] m k(1) u by (simp add: hangup_event_def unregister_unwatched Let_def)
  ultimately show ?thesis using k u close_effect_closes [OF k(4)] by simp
qed

text \<open>
  C33. When a read event meets the end of the stream or an error, the client is deleted and its descriptor closed while the
  event is handled; the registration that follows fails on the closed descriptor and closes the number a second time.
\<close>

theorem end_of_stream_closes_twice:
  assumes inv: "mgr_inv g (pmgr s)" and at: "at_connection n fd m s" and m: "m AND EPOLLIN \<noteq> 0" "m AND EPOLLRDHUP = 0" "m AND EPOLLERR = 0"
    and c: "map_of (clientqueue (pmgr s)) fd = Some a" and "io_avail i = None \<or> io_avail i = Some []"
  shows "\<exists>s' e. dispatch mode g i n s = Inr (s', e) \<and> map_of (clientqueue (pmgr s')) fd = None
     \<and> count_list e (EClose fd) = 2"
proof -
  have f: "0 < fd" "fd \<in> fst ` set (interest (pkern s))" using at by (auto simp: at_connection_def)
  let ?u = "unregister fd s"
  have u: "pmgr ?u = pmgr s" using f by (simp add: unregister_watched)
  obtain cl where cl: "heap (pmgr s) a = Some cl" "cfd cl = fd" using mgr_inv_lookup [OF inv c] by auto
  let ?m = "(pmgr s)\<lparr>heap := (heap (pmgr s))(a := None), clientqueue := map_erase fd (clientqueue (pmgr s))\<rparr>"
  have "\<exists>e. DoRead mode (io_ltm i) fd (io_avail i) (pmgr s) = Inr (?m, e) \<and> count_list e (EClose fd) = 1 \<and> EClose fd \<in> set e"
    using assms(7) c cl f(1)
    by (auto simp: DoRead_def receive_at_def deref_def receive_def say_def DoKill_def delete_client_def Close_def)
  then obtain e where e: "DoRead mode (io_ltm i) fd (io_avail i) (pmgr s) = Inr (?m, e)" "count_list e (EClose fd) = 1" "EClose fd \<in> set e"
    by blast
  have "map_of (map_erase fd (clientqueue (pmgr s))) fd = None" by (auto simp: map_of_eq_None_iff map_erase_set)
  then show ?thesis using dispatch_connection [OF at] m e u close_effect_closes [OF e(3)]
    by (simp add: read_event_def register_or_log_def registerForEvent_def sys_setsockopt_def say_def)
qed

text \<open>
  A connection that was accepted when the manager was full has no client. Its read events read nothing and register it
  again as it was, so that the bytes stay and the event comes back at once: only the peer's hang-up ends the turn of events.
\<close>

theorem refused_connection_spins:
  assumes at: "at_connection n fd m s" and m: "m AND EPOLLIN \<noteq> 0" "m AND EPOLLRDHUP = 0" "m AND EPOLLERR = 0"
    and c: "map_of (clientqueue (pmgr s)) fd = None" and ok: "io_reg i = all_ok" "poll_inv (ppoll s, pkern s)" "epoll_handle (ppoll s) \<noteq> -1"
  shows "\<exists>s'. dispatch mode g i n s = Inr (s', [say (''CclientManager::DoRead('' @ print_int fd @ '')'')]) \<and> pmgr s' = pmgr s
     \<and> curfds (ppoll s') = curfds (ppoll s) \<and> events (ppoll s') = events (ppoll s)
     \<and> openfds (pkern s') = openfds (pkern s) \<and> fst ` set (interest (pkern s')) = fst ` set (interest (pkern s))"
proof -
  have f: "0 < fd" "fd \<in> fst ` set (interest (pkern s))" using at by (auto simp: at_connection_def)
  then have o: "fd \<in> set (openfds (pkern s))" using ok(2) by (auto simp: poll_inv_def)
  have "insert fd (fst ` {x \<in> set (interest (pkern s)). fst x \<noteq> fd}) = fst ` set (interest (pkern s))" using f(2) by force
  then show ?thesis using dispatch_connection [OF at] m c ok(1,3) f o
    by (simp add: unregister_watched read_event_def DoRead_def say_def register_or_log_def reRegisterServerSock_def
        registerForEvent_def sys_setsockopt_def all_ok_def epoll_add_def Let_def image_iff)
qed

text \<open>A program with one connection on descriptor 7 and one event for it.\<close>

definition event_program :: "int manager \<Rightarrow> 32 word \<Rightarrow> int program" where
  "event_program m f = idle_program\<lparr>pmgr := m, ppoll := idle_poller\<lparr>curfds := 3, events := (\<lambda>_. \<lparr>ev_events = f, ev_fd = 7\<rparr>)\<rparr>,
     pkern := \<lparr>openfds = [7, 3, 4], interest = [(7, EPOLLIN), (3, EPOLLIN)]\<rparr>\<rparr>"

lemma event_program_at: "at_connection 0 7 f (event_program m f)"
  by (simp add: at_connection_def event_program_def idle_program_def getEpollEvent_def MAXDESCRIPTORS_def)

lemma event_program_pmgr [simp]: "pmgr (event_program m f) = m"
  by (simp add: event_program_def)

lemma one_client_7: "map_of (clientqueue one_client) 7 = Some 0"
  by (simp add: one_client_def)

lemma event_masks:
  "EPOLLRDHUP AND EPOLLIN = 0" "EPOLLRDHUP AND EPOLLRDHUP \<noteq> 0" "EPOLLIN AND EPOLLIN \<noteq> 0" "EPOLLIN AND EPOLLRDHUP = 0"
  "EPOLLIN AND EPOLLERR = 0"
  by (simp_all add: EPOLLIN_def EPOLLRDHUP_def EPOLLERR_def)

theorem hangup_cleans_up_witness:
  "\<exists>s' e. dispatch CopyStrict sample_cfg quiet_io 0 (event_program one_client EPOLLRDHUP) = Inr (s', e)
     \<and> 7 \<notin> set (openfds (pkern s'))"
  using hangup_cleans_up [OF _ event_program_at [where m = one_client] event_masks(1,2), where g = sample_cfg and a = 0 and mode = CopyStrict and i = quiet_io] one_client_inv one_client_7 by auto

theorem end_of_stream_closes_twice_witness:
  "\<exists>s' e. dispatch CopyStrict sample_cfg quiet_io 0 (event_program one_client EPOLLIN) = Inr (s', e) \<and> count_list e (EClose 7) = 2"
proof -
  have "io_avail quiet_io = None \<or> io_avail quiet_io = Some []" by (simp add: quiet_io_def)
  then show ?thesis
    using end_of_stream_closes_twice [OF _ event_program_at [where m = one_client] event_masks(3-5), where g = sample_cfg and a = 0 and i = quiet_io and mode = CopyStrict] one_client_inv one_client_7
    by auto
qed

theorem refused_connection_spins_witness:
  "\<exists>s' e. dispatch CopyStrict sample_cfg quiet_io 0 (event_program (setinfomap [] new_manager) EPOLLIN) = Inr (s', e)
     \<and> pmgr s' = setinfomap [] new_manager"
proof -
  let ?s = "event_program (setinfomap [] new_manager) EPOLLIN"
  have "poll_inv (ppoll ?s, pkern ?s)" "epoll_handle (ppoll ?s) \<noteq> -1"
    by (simp_all add: event_program_def poll_inv_def idle_poller_def)
  moreover have "map_of (clientqueue (pmgr ?s)) 7 = None" by (simp add: setinfomap_def new_manager_def)
  moreover have "io_reg quiet_io = all_ok" by (simp add: quiet_io_def)
  ultimately show ?thesis
    using refused_connection_spins [OF event_program_at event_masks(3-5), of "setinfomap [] new_manager" quiet_io CopyStrict sample_cfg] by auto
qed

section \<open>Signals\<close>

lemma delete_all_ok:
  "distinct (map snd q) \<Longrightarrow> \<forall>e\<in>set q. heap s (snd e) \<noteq> None \<Longrightarrow> \<exists>s' e. delete_all q s = Inr (s', e)"
proof (induction q arbitrary: s)
  case Nil
  then show ?case by simp
next
  case (Cons x q)
  obtain fd a where x: "x = (fd, a)" by (cases x)
  obtain c where c: "heap s a = Some c" using Cons.prems(2) x by auto
  let ?s = "s\<lparr>heap := (heap s)(a := None)\<rparr>"
  have "\<forall>e\<in>set q. heap ?s (snd e) \<noteq> None" using Cons.prems x by force
  then obtain s' e where "delete_all q ?s = Inr (s', e)" using Cons.IH [of ?s] Cons.prems(1) by auto
  then show ?case using x c by (simp add: delete_client_def deref_def)
qed

lemma delete_manager_ok:
  assumes "mgr_inv g m"
  shows "\<exists>m' e. delete_manager m = Inr (m', e) \<and> clientqueue m' = []"
proof -
  have "\<forall>e\<in>set (clientqueue m). heap m (snd e) \<noteq> None" using assms by (force simp: mgr_inv_def)
  then obtain m' e where "delete_all (clientqueue m) m = Inr (m', e)"
    using delete_all_ok [of "clientqueue m" m] assms by (auto simp: mgr_inv_def)
  then show ?thesis by (simp add: delete_manager_def)
qed

text \<open>What signals change, and that handling events leaves \<open>termReceived\<close> alone.\<close>

lemma stops_simps [simp]: "\<not> stops []" "stops (s # sigs) \<longleftrightarrow> s = SIGTERM \<or> s = SIGHUP \<or> stops sigs"
  by (auto simp: stops_def)

lemma stops_append [simp]: "stops (a @ b) \<longleftrightarrow> stops a \<or> stops b"
  by (auto simp: stops_def)

lemma fold_sig_term [simp]:
  "termReceived (fold sig_term sigs s) \<longleftrightarrow> termReceived s \<or> SIGTERM \<in> set sigs"
  "hupmReceived (fold sig_term sigs s) \<longleftrightarrow> hupmReceived s \<or> SIGHUP \<in> set sigs"
  "allExitFlag (pmgr (fold sig_term sigs s)) \<longleftrightarrow> allExitFlag (pmgr s) \<or> stops sigs"
  "ppoll (fold sig_term sigs s) = ppoll s" "pkern (fold sig_term sigs s) = pkern s" "listenfd (fold sig_term sigs s) = listenfd s"
  "clientqueue (pmgr (fold sig_term sigs s)) = clientqueue (pmgr s)" "infomap (pmgr (fold sig_term sigs s)) = infomap (pmgr s)"
  "mgr_inv g (pmgr (fold sig_term sigs s)) = mgr_inv g (pmgr s)"
  by (induction sigs arbitrary: s) (auto simp: sig_term_def)

lemma register_or_log_term [simp]: "termReceived (fst (register_or_log ans fd s)) = termReceived s"
  by (simp add: register_or_log_def case_prod_beta Let_def)

lemma dispatch_term:
  assumes "dispatch mode g i n s = Inr (s', e)"
  shows "termReceived s' = termReceived s"
proof -
  have u: "termReceived (unregister fd x) = termReceived x" for fd and x :: "'a program"
    by (simp add: unregister_def split: prod.splits)
  have r: "termReceived x' = termReceived x" if "read_event mode i fd x = Inr (x', e')" for fd e' and x x' :: "'a program"
    using that by (auto simp: read_event_def Let_def case_prod_beta)
  have h: "termReceived x' = termReceived x" if "hangup_event fd x = Inr (x', e')" for fd e' and x x' :: "'a program"
    using that u by (auto simp: hangup_event_def Let_def)
  have a: "termReceived x' = termReceived x" if "accept_event g i x = Inr (x', e')" for e' and x x' :: "'a program"
    using that by (auto simp: accept_event_def Let_def case_prod_beta split: option.splits)
  have "termReceived x' = termReceived x" if "connection_event mode i n fd x = Inr (x', e')" for fd e' and x x' :: "'a program"
  proof -
    note run = that
    obtain ev :: epoll_event and s1 e1 s2 e2 where
      c: "(if ev_events ev AND EPOLLIN \<noteq> 0 then read_event mode i fd (unregister fd x) else Inr (unregister fd x, [])) = Inr (s1, e1)"
      "(if ev_events ev AND EPOLLRDHUP \<noteq> 0 \<or> ev_events ev AND EPOLLERR \<noteq> 0 then hangup_event fd s1 else Inr (s1, [])) = Inr (s2, e2)"
      "x' = s2"
      using run unfolding connection_event_def Let_def by (auto split: option.splits)
    have "termReceived s1 = termReceived x" using c(1) r [of fd "unregister fd x" s1 e1] u by (auto split: if_splits)
    moreover have "termReceived s2 = termReceived s1" using c(2) h [of fd s1 s2 e2] by (auto split: if_splits)
    ultimately show ?thesis using c(3) by simp
  qed
  with a assms show ?thesis by (auto simp: dispatch_def Let_def split: if_splits)
qed

lemma event_loop_term: "event_loop mode g ios n c s = Inr (s', e) \<Longrightarrow> termReceived s' = termReceived s"
  by (induction c arbitrary: n s e) (auto dest: dispatch_term)

text \<open>
  A turn whose wait is interrupted any number of times, without a signal that stops the program, and that then finds the exit
  flag set: it handles no event.
\<close>

lemma flag_rounds_interrupted:
  "\<forall>(x, y)\<in>set pre. y = WaitError EINTR \<and> \<not> stops x \<Longrightarrow>
   flag_rounds False (pre @ q) = map (\<lambda>_. (False, WaitError EINTR)) pre @ flag_rounds False q"
  by (induction pre) auto

lemma exiting_turn:
  assumes t: "t_rounds t = pre @ (sigs, a) # r" "\<forall>(x, y)\<in>set pre. y = WaitError EINTR \<and> \<not> stops x"
    and ex: "allExitFlag (pmgr s) \<or> stops sigs" "pre = [] \<or> \<not> allExitFlag (pmgr s)" and p: "0 < curfds (ppoll s)"
  shows "main_turn mode g t s = (let s' = fold sig_term (concat (map fst pre) @ sigs @ t_late t) s in
     Inr (Some (if hupmReceived s' then (True, s'\<lparr>hupmReceived := False\<rparr>, wait_failed (t_errno t))
       else (False, fold sig_term (t_end t) s', wait_failed (t_errno t)))))"
proof -
  let ?as = "flag_rounds (allExitFlag (pmgr s)) (t_rounds t)" and ?fr = "map (\<lambda>_. (False, WaitError EINTR)) pre"
  have as: "?as = ?fr @ (True, a) # flag_rounds True r"
    using ex flag_rounds_interrupted [OF t(2), of "(sigs, a) # r"] by (cases "allExitFlag (pmgr s)") (auto simp: t(1))
  have i: "\<forall>x\<in>set ?fr. interrupted x" by (auto simp: interrupted_def)
  have g: "getEvents ?as (ppoll s) = Inr (Some (-1, ppoll s, []))"
    unfolding as getEvents_def wait_loop_interrupted [OF p i] by simp
  have "takeWhile (\<lambda>a. interrupted a \<and> 0 < curfds (ppoll s)) ?as = ?fr"
    unfolding as using p i by (subst takeWhile_append2) (auto simp: interrupted_def)
  then have n: "take (rounds_run (ppoll s) ?as) (t_rounds t) = pre @ [(sigs, a)]" by (simp add: rounds_run_def t(1))
  have u: "ppoll x = q \<Longrightarrow> x\<lparr>ppoll := q\<rparr> = x" for x :: "'a program" and q by (cases x) simp
  show ?thesis unfolding main_turn_def Let_def g rbind.simps option.case prod.case n by (simp add: u)
qed

text \<open>Once the exit flag is set, the loop goes on only as long as signals come, and then ends with every client deleted.\<close>

lemma exit_turns:
  assumes "allExitFlag (pmgr s)" and "\<not> termReceived s" and "mgr_inv g (pmgr s)" and "0 < curfds (ppoll s)" and "restart \<longrightarrow> \<not> hupmReceived s"
    and "\<forall>t\<in>set us. t_rounds t \<noteq> [] \<and> SIGTERM \<notin> set (concat (map fst (t_rounds t)) @ t_late t @ t_end t)"
    and "t_rounds t2 = ([], a2) # r2" and "t_late t2 = []" and "t_end t2 = []"
  shows "\<exists>s' e. main_loop mode g (us @ t2 # ts) restart s = Inr (True, s', e) \<and> \<not> termReceived s' \<and> clientqueue (pmgr s') = []"
  using assms
proof (induction us arbitrary: s restart)
  case Nil
  have stop: "\<exists>s' e. main_loop mode g q False x = Inr (True, s', e) \<and> \<not> termReceived s' \<and> clientqueue (pmgr s') = []"
    if "allExitFlag (pmgr x)" "\<not> termReceived x" "mgr_inv g (pmgr x)" for q and x :: "'a program"
    using that delete_manager_ok [of g "pmgr x"] by (subst main_loop.simps) auto
  show ?case
  proof (cases restart)
    case False
    then show ?thesis using stop [of s "t2 # ts"] Nil.prems by simp
  next
    case True
    then have "main_turn mode g t2 s = Inr (Some (False, s, wait_failed (t_errno t2)))"
      using exiting_turn [of t2 "[]" "[]" a2 r2 s mode g] Nil.prems by (simp add: Let_def)
    then show ?thesis using stop [of s ts] Nil.prems True by (subst append_Nil, subst main_loop.simps) auto
  qed
next
  case (Cons u us)
  show ?case
  proof (cases restart)
    case False
    then show ?thesis using delete_manager_ok [OF Cons.prems(3)] Cons.prems(1,2) by (subst main_loop.simps) auto
  next
    case True
    obtain sigs a r where u: "t_rounds u = (sigs, a) # r" using Cons.prems(6) by (cases "t_rounds u") auto
    define s0 where "s0 = fold sig_term (sigs @ t_late u) s"
    define again where "again = hupmReceived s0"
    define s1 where "s1 = (if again then s0\<lparr>hupmReceived := False\<rparr> else fold sig_term (t_end u) s0)"
    have t: "main_turn mode g u s = Inr (Some (again, s1, wait_failed (t_errno u)))"
      using exiting_turn [of u "[]" sigs a r s mode g] u Cons.prems(1,4) by (simp add: Let_def s1_def again_def s0_def)
    have "SIGTERM \<notin> set (sigs @ t_late u @ t_end u)" using Cons.prems(6) u by simp
    then have "allExitFlag (pmgr s1)" "\<not> termReceived s1" "mgr_inv g (pmgr s1)" "0 < curfds (ppoll s1)" "again \<longrightarrow> \<not> hupmReceived s1"
      using Cons.prems(1-4) by (simp_all add: s1_def s0_def)
    from Cons.IH [OF this] Cons.prems(6-9) obtain s' e where
      "main_loop mode g (us @ t2 # ts) again s1 = Inr (True, s', e)" "\<not> termReceived s' \<and> clientqueue (pmgr s') = []" by auto
    then show ?thesis using t True by (subst append_Cons, subst main_loop.simps) auto
  qed
qed

text \<open>A turn in which \<open>SIGHUP\<close> arrives returns with the exit flag set, and asks for a restart with \<open>hupmReceived\<close> clear.\<close>

lemma sighup_turn:
  assumes hup: "(\<exists>pre sigs a r. t_rounds t = pre @ (sigs, a) # r \<and> (\<forall>(x, y)\<in>set pre. y = WaitError EINTR \<and> \<not> stops x) \<and> SIGHUP \<in> set sigs)
       \<or> (\<exists>again s1 e. main_turn mode g t s = Inr (Some (again, s1, e)) \<and> SIGHUP \<in> set (t_late t @ (if again then [] else t_end t)))"
    and p: "0 < curfds (ppoll s)" and s: "\<not> termReceived s" "\<not> allExitFlag (pmgr s)"
    and no_term: "SIGTERM \<notin> set (concat (map fst (t_rounds t)) @ t_late t @ t_end t)"
  shows "\<exists>again s1 e. main_turn mode g t s = Inr (Some (again, s1, e)) \<and> allExitFlag (pmgr s1) \<and> \<not> termReceived s1
     \<and> (again \<longrightarrow> \<not> hupmReceived s1)"
  using hup
proof
  assume "\<exists>pre sigs a r. t_rounds t = pre @ (sigs, a) # r \<and> (\<forall>(x, y)\<in>set pre. y = WaitError EINTR \<and> \<not> stops x) \<and> SIGHUP \<in> set sigs"
  then obtain pre sigs a r where r: "t_rounds t = pre @ (sigs, a) # r" "\<forall>(x, y)\<in>set pre. y = WaitError EINTR \<and> \<not> stops x" "SIGHUP \<in> set sigs"
    by blast
  let ?s = "fold sig_term (concat (map fst pre) @ sigs @ t_late t) s"
  have st: "stops sigs" using r(3) by (simp add: stops_def)
  have h: "hupmReceived ?s" unfolding fold_sig_term using r(3) by simp
  have "\<not> termReceived ?s" unfolding fold_sig_term using s(1) no_term by (simp add: r(1))
  moreover have "allExitFlag (pmgr ?s)" unfolding fold_sig_term using st by simp
  moreover have "main_turn mode g t s = Inr (Some (True, ?s\<lparr>hupmReceived := False\<rparr>, wait_failed (t_errno t)))"
    using exiting_turn [OF r(1,2), of s mode g] p s(2) st h by (simp only: Let_def if_True simp_thms)
  ultimately show ?thesis
    by (intro exI [of _ True] exI [of _ "?s\<lparr>hupmReceived := False\<rparr>"] exI [of _ "wait_failed (t_errno t)"])
      (simp del: fold_append fold_sig_term)
next
  assume "\<exists>again s1 e. main_turn mode g t s = Inr (Some (again, s1, e)) \<and> SIGHUP \<in> set (t_late t @ (if again then [] else t_end t))"
  then obtain again s1 e where m: "main_turn mode g t s = Inr (Some (again, s1, e))" "SIGHUP \<in> set (t_late t @ (if again then [] else t_end t))"
    by blast
  let ?as = "flag_rounds (allExitFlag (pmgr s)) (t_rounds t)"
  let ?sigs = "concat (map fst (take (rounds_run (ppoll s) ?as) (t_rounds t)))"
  obtain nfds q e0 s2 e2 where "getEvents ?as (ppoll s) = Inr (Some (nfds, q, e0))"
    and g: "event_loop mode g (t_io t) 0 (nat nfds) ((fold sig_term ?sigs s)\<lparr>ppoll := q\<rparr>) = Inr (s2, e2)"
    "s1 = (if again then (fold sig_term (t_late t) s2)\<lparr>hupmReceived := False\<rparr> else fold sig_term (t_end t) (fold sig_term (t_late t) s2))"
    by (rule main_turn_run [OF m(1)])
  have "set ?sigs \<subseteq> set (concat (map fst (t_rounds t)))" by (auto dest: in_set_takeD)
  then have n: "SIGTERM \<notin> set ?sigs" "SIGTERM \<notin> set (t_late t)" "SIGTERM \<notin> set (t_end t)" using no_term by auto
  have "\<not> termReceived s2" using event_loop_term [OF g(1)] s(1) n(1) by simp
  then have "\<not> termReceived s1" using g(2) n by simp
  moreover have "allExitFlag (pmgr s1)" using m(2) g(2) by (auto simp: stops_def split: if_splits)
  moreover have "again \<longrightarrow> \<not> hupmReceived s1" using g(2) by simp
  ultimately show ?thesis using m(1) by blast
qed

text \<open>
  C17. A \<open>SIGHUP\<close> ends the server, whenever it arrives: before the wait or in the middle of it, however often the wait has been
  interrupted; while the events are handled, in a turn that returns; or after the turn's test of \<open>hupmReceived\<close>. The handler also sets
  the exit flag, so that the restart it asks for finds the flag set and handles no event. Further \<open>SIGHUP\<close>s only repeat the
  restart; after the first turn without a signal the loop has been left, with every client deleted and without a \<open>SIGTERM\<close>.
\<close>

theorem sighup_ends_program:
  assumes inv: "mgr_inv g (pmgr s)" "poll_inv (ppoll s, pkern s)" and s: "\<not> termReceived s" "\<not> allExitFlag (pmgr s)"
    and hup: "(\<exists>pre sigs a r. t_rounds t = pre @ (sigs, a) # r \<and> (\<forall>(x, y)\<in>set pre. y = WaitError EINTR \<and> \<not> stops x) \<and> SIGHUP \<in> set sigs)
       \<or> (\<exists>again s1 e. main_turn mode g t s = Inr (Some (again, s1, e)) \<and> SIGHUP \<in> set (t_late t @ (if again then [] else t_end t)))"
    and no_term: "\<forall>u\<in>set (t # us). SIGTERM \<notin> set (concat (map fst (t_rounds u)) @ t_late u @ t_end u)"
    and us: "\<forall>u\<in>set us. t_rounds u \<noteq> []" and quiet: "t_rounds t2 = ([], a2) # r2" "t_late t2 = []" "t_end t2 = []"
  shows "\<exists>s' e. main_loop mode g (t # us @ t2 # ts) False s = Inr (True, s', e) \<and> \<not> termReceived s' \<and> clientqueue (pmgr s') = []"
proof -
  have p: "0 < curfds (ppoll s)" using inv(2) by (auto simp: poll_inv_def)
  obtain again s1 e where t: "main_turn mode g t s = Inr (Some (again, s1, e))" and f: "allExitFlag (pmgr s1)" "\<not> termReceived s1"
    "again \<longrightarrow> \<not> hupmReceived s1"
    using sighup_turn [OF hup p s] no_term by (meson list.set_intros(1))
  have i: "prog_inv g s1" using main_turn_inv [OF _ t] inv by (simp add: prog_inv_def)
  then have i1: "mgr_inv g (pmgr s1)" "0 < curfds (ppoll s1)" by (auto simp: prog_inv_def poll_inv_def)
  obtain s' e' where "main_loop mode g (us @ t2 # ts) again s1 = Inr (True, s', e')" "\<not> termReceived s' \<and> clientqueue (pmgr s') = []"
    using exit_turns [OF f(1,2) i1 f(3) _ quiet, of us mode ts] us no_term by auto
  then show ?thesis using s t by (subst main_loop.simps) auto
qed

text \<open>A wait that is interrupted by \<open>SIGHUP\<close>, a second \<open>SIGHUP\<close> in the turn after it, and a quiet turn.\<close>

theorem sighup_ends_program_witness:
  "\<exists>s' e. main_loop CopyStrict sample_cfg [accept_turn\<lparr>t_rounds := [([], WaitError EINTR), ([SIGHUP], WaitError EINTR)]\<rparr>,
       accept_turn\<lparr>t_late := [SIGHUP]\<rparr>, accept_turn] False idle_program
     = Inr (True, s', e) \<and> \<not> termReceived s'"
proof -
  let ?t = "accept_turn\<lparr>t_rounds := [([], WaitError EINTR), ([SIGHUP], WaitError EINTR)]\<rparr>" and ?u = "accept_turn\<lparr>t_late := [SIGHUP]\<rparr>"
  have f: "\<not> termReceived idle_program" "\<not> allExitFlag (pmgr idle_program)"
    by (simp_all add: idle_program_def setinfomap_def new_manager_def)
  have "t_rounds ?t = [([], WaitError EINTR)] @ ([SIGHUP], WaitError EINTR) # []" by simp
  moreover have "\<forall>(x, y)\<in>set [([], WaitError EINTR)]. y = WaitError EINTR \<and> \<not> stops x" "SIGHUP \<in> set [SIGHUP]" by simp_all
  ultimately have h: "\<exists>pre sigs a r. t_rounds ?t = pre @ (sigs, a) # r \<and> (\<forall>(x, y)\<in>set pre. y = WaitError EINTR \<and> \<not> stops x) \<and> SIGHUP \<in> set sigs"
    by blast
  have q: "t_rounds accept_turn = ([], Ready [\<lparr>ev_events = EPOLLIN, ev_fd = 3\<rparr>]) # []" "t_late accept_turn = []" "t_end accept_turn = []"
    by (simp_all add: accept_turn_def)
  have n: "\<forall>u\<in>set (?t # [?u]). SIGTERM \<notin> set (concat (map fst (t_rounds u)) @ t_late u @ t_end u)" "\<forall>u\<in>set [?u]. t_rounds u \<noteq> []"
    by (simp_all add: accept_turn_def)
  from sighup_ends_program [OF idle_program_inv f disjI1 [OF h] n q, of CopyStrict "[]"] show ?thesis by auto
qed

section \<open>The state the loop starts in\<close>

lemma setallthreadexitflag_keeps:
  "setallthreadexitflag i s = (s', e) \<Longrightarrow> mgr_inv g s' = mgr_inv g s \<and> infomap s' = infomap s \<and> clientqueue s' = clientqueue s \<and> (allExitFlag s \<longrightarrow> allExitFlag s')"
  by (auto simp: setallthreadexitflag_def)










end
