(* ===== verification/CastUtils.thy ===== *)
theory CastUtils
  imports CLib
begin

text \<open>
  \<open>CastUtil.h\<close>: conversions between strings and values. A conversion of a number prints it into a string stream
  and extracts the target type from it; a conversion of a C string branches on the demangled name of the
  target type. Types have their ILP32 widths. Printing and reading of floating point values are arguments, and so
  is \<open>StringUtil::toLowerCopy\<close>, whose body is not in the repository.
\<close>

section \<open>Types and values\<close>

datatype ctype = TShort | TUShort | TInt | TUInt | TLong | TULong | TLLong | TULLong | TDouble | TFloat | TBool | TString | TChar | TPtr ctype

datatype 'd cval = VInt int | VDbl 'd | VBool bool | VStr string | VChar char

record 'd dblops =
  db_print :: "'d \<Rightarrow> string"
  db_extract :: "string \<Rightarrow> 'd option"
  db_strtod :: "string \<Rightarrow> 'd \<times> string"

text \<open>The demangled names of the types; \<open>size_t\<close> is \<open>unsigned int\<close>.\<close>

fun demangle :: "ctype \<Rightarrow> string" where
  "demangle TShort = ''short''"
| "demangle TUShort = ''unsigned short''"
| "demangle TInt = ''int''"
| "demangle TUInt = ''unsigned int''"
| "demangle TLong = ''long''"
| "demangle TULong = ''unsigned long''"
| "demangle TLLong = ''long long''"
| "demangle TULLong = ''unsigned long long''"
| "demangle TDouble = ''double''"
| "demangle TFloat = ''float''"
| "demangle TBool = ''bool''"
| "demangle TString = ''std::string''"
| "demangle TChar = ''char''"
| "demangle (TPtr t) = demangle t @ ''*''"

definition getClassName :: "ctype \<Rightarrow> string" where
  "getClassName t = (let tn = demangle t in if last tn = CHR ''*'' then butlast tn else tn)"

section \<open>Streams\<close>

text \<open>
  Extraction of an integer sets the fail bit out of range; a negative number is accepted for an unsigned type and
  wraps, unless its magnitude is out of range. A \<open>bool\<close> is read as a number and must be 0 or 1.
\<close>

definition in_signed :: "nat \<Rightarrow> int \<Rightarrow> bool" where
  "in_signed w v \<longleftrightarrow> - (2 ^ (w - 1)) \<le> v \<and> v < 2 ^ (w - 1)"

definition extract_signed :: "nat \<Rightarrow> string \<Rightarrow> int option" where
  "extract_signed w s = (case scan_int s of None \<Rightarrow> None | Some (v, _) \<Rightarrow> if in_signed w v then Some v else None)"

definition extract_unsigned :: "nat \<Rightarrow> string \<Rightarrow> int option" where
  "extract_unsigned w s = (case scan_int s of None \<Rightarrow> None | Some (v, _) \<Rightarrow> if \<bar>v\<bar> < 2 ^ w then Some (v mod 2 ^ w) else None)"

definition extract_word :: "string \<Rightarrow> string option" where
  "extract_word s = (let w = takeWhile (\<lambda>c. \<not> isspace c) (dropWhile isspace s) in if w = [] then None else Some w)"

fun extract_val :: "'d dblops \<Rightarrow> ctype \<Rightarrow> string \<Rightarrow> 'd cval option" where
  "extract_val ops TShort s = map_option VInt (extract_signed 16 s)"
| "extract_val ops TUShort s = map_option VInt (extract_unsigned 16 s)"
| "extract_val ops TInt s = map_option VInt (extract_signed 32 s)"
| "extract_val ops TUInt s = map_option VInt (extract_unsigned 32 s)"
| "extract_val ops TLong s = map_option VInt (extract_signed 32 s)"
| "extract_val ops TULong s = map_option VInt (extract_unsigned 32 s)"
| "extract_val ops TLLong s = map_option VInt (extract_signed 64 s)"
| "extract_val ops TULLong s = map_option VInt (extract_unsigned 64 s)"
| "extract_val ops TDouble s = map_option VDbl (db_extract ops s)"
| "extract_val ops TFloat s = map_option VDbl (db_extract ops s)"
| "extract_val ops TBool s = (case extract_signed 32 s of Some v \<Rightarrow> if v = 0 \<or> v = 1 then Some (VBool (v = 1)) else None | None \<Rightarrow> None)"
| "extract_val ops TString s = map_option VStr (extract_word s)"
| "extract_val ops TChar s = (case dropWhile isspace s of [] \<Rightarrow> None | c # _ \<Rightarrow> Some (VChar c))"
| "extract_val ops (TPtr t) s = None"

text \<open>The common body of the conversions of numbers; \<open>src\<close> is the source type in the exception.\<close>

definition through_stream :: "'d dblops \<Rightarrow> string \<Rightarrow> string \<Rightarrow> ctype \<Rightarrow> 'd cval res" where
  "through_stream ops src printed t = (case extract_val ops t printed of
      Some v \<Rightarrow> Inr v
    | None \<Rightarrow> Inl (Thrown (''Conversion exception - '' @ src @ '' to '' @ getClassName t)))"

section \<open>Conversions of numbers\<close>

definition lexical_cast_short :: "'d dblops \<Rightarrow> 16 word \<Rightarrow> ctype \<Rightarrow> 'd cval res" where
  "lexical_cast_short ops val t = through_stream ops ''short'' (print_int (sint val)) t"

definition lexical_cast_ushort :: "'d dblops \<Rightarrow> 16 word \<Rightarrow> ctype \<Rightarrow> 'd cval res" where
  "lexical_cast_ushort ops val t = through_stream ops ''unsigned short'' (print_int (uint val)) t"

definition lexical_cast_int :: "'d dblops \<Rightarrow> 32 word \<Rightarrow> ctype \<Rightarrow> 'd cval res" where
  "lexical_cast_int ops val t = through_stream ops ''int'' (print_int (sint val)) t"

definition lexical_cast_uint :: "'d dblops \<Rightarrow> 32 word \<Rightarrow> ctype \<Rightarrow> 'd cval res" where
  "lexical_cast_uint ops val t = through_stream ops ''unsigned int'' (print_int (uint val)) t"

definition lexical_cast_long :: "'d dblops \<Rightarrow> 32 word \<Rightarrow> ctype \<Rightarrow> 'd cval res" where
  "lexical_cast_long ops val t = through_stream ops ''long'' (print_int (sint val)) t"

definition lexical_cast_ulong :: "'d dblops \<Rightarrow> 32 word \<Rightarrow> ctype \<Rightarrow> 'd cval res" where
  "lexical_cast_ulong ops val t = through_stream ops ''unsigned long'' (print_int (uint val)) t"

definition lexical_cast_llong :: "'d dblops \<Rightarrow> 64 word \<Rightarrow> ctype \<Rightarrow> 'd cval res" where
  "lexical_cast_llong ops val t = through_stream ops ''long long'' (print_int (sint val)) t"

definition lexical_cast_ullong :: "'d dblops \<Rightarrow> 64 word \<Rightarrow> ctype \<Rightarrow> 'd cval res" where
  "lexical_cast_ullong ops val t = through_stream ops ''unsigned long long'' (print_int (uint val)) t"

definition lexical_cast_double :: "'d dblops \<Rightarrow> 'd \<Rightarrow> ctype \<Rightarrow> 'd cval res" where
  "lexical_cast_double ops val t = through_stream ops ''double'' (db_print ops val) t"

definition lexical_cast_float :: "'d dblops \<Rightarrow> 'd \<Rightarrow> ctype \<Rightarrow> 'd cval res" where
  "lexical_cast_float ops val t = through_stream ops ''float'' (db_print ops val) t"

definition lexical_cast_bool :: "'d dblops \<Rightarrow> bool \<Rightarrow> ctype \<Rightarrow> 'd cval res" where
  "lexical_cast_bool ops val t = through_stream ops ''bool'' (if val then ''1'' else ''0'') t"

section \<open>Conversions of strings\<close>

text \<open>The check of \<open>*endptr\<close>: anything left over throws.\<close>

definition all_read :: "string \<Rightarrow> 'a \<times> string \<Rightarrow> 'a res" where
  "all_read msg r = (if snd r \<noteq> [] then Inl (Thrown msg) else Inr (fst r))"

definition lexical_cast_cstr :: "'d dblops \<Rightarrow> (string \<Rightarrow> string) \<Rightarrow> string \<Rightarrow> ctype \<Rightarrow> 'd cval res" where
  "lexical_cast_cstr ops toLowerCopy val t =
     (let tn = getClassName t; val = cstr val in
      if tn = ''double'' \<or> tn = ''float'' then
        rbind (all_read ''Conversion exception - string to double'' (db_strtod ops val)) (\<lambda>d. Inr (VDbl d))
      else if tn = ''int'' then
        rbind (all_read ''Conversion exception - string to int'' (strtol 32 val)) (\<lambda>d. Inr (VInt (sint (word_of_int d :: 32 word))))
      else if tn = ''short'' then
        rbind (all_read ''Conversion exception - string to short'' (strtol 32 val)) (\<lambda>d. Inr (VInt (sint (word_of_int d :: 16 word))))
      else if tn = ''long'' then
        rbind (all_read ''Conversion exception - string to long'' (strtol 32 val)) (\<lambda>d. Inr (VInt (sint (word_of_int d :: 32 word))))
      else if tn = ''size_t'' then
        rbind (all_read ''Conversion exception - string to size_t'' (strtol 32 val)) (\<lambda>d. Inr (VInt (uint (word_of_int d :: 32 word))))
      else if tn = ''unsigned short'' then
        rbind (all_read ''Conversion exception - string to unsigned short'' (strtoul 32 val)) (\<lambda>d. Inr (VInt (uint (word_of_int d :: 16 word))))
      else if tn = ''unsigned int'' then
        rbind (all_read ''Conversion exception - string to unsigned int'' (strtoul 32 val)) (\<lambda>d. Inr (VInt (uint (word_of_int d :: 32 word))))
      else if tn = ''unsigned long'' then
        rbind (all_read ''Conversion exception - string to unsigned long'' (strtoul 32 val)) (\<lambda>d. Inr (VInt (uint (word_of_int d :: 32 word))))
      else if tn = ''long long'' then
        (if scan_int val \<noteq> None then Inr (VInt (fst (strtol 64 val))) else Inl (Thrown ''Conversion exception - string to long long''))
      else if tn = ''unsigned long long'' then
        (if scan_int val \<noteq> None then Inr (VInt (fst (strtoul 64 val))) else Inl (Thrown ''Conversion exception - string to unsigned long long''))
      else if tn = ''bool'' then
        (if toLowerCopy val = ''true'' \<or> toLowerCopy val = ''1'' then Inr (VBool True)
         else if toLowerCopy val = ''false'' \<or> toLowerCopy val = ''0'' then Inr (VBool False)
         else Inl (Thrown ''Conversion exception - string to bool''))
      else if tn = ''std::string'' \<or> tn = ''string'' then
        (if length val = 0 then Inr (VStr [])
         else case extract_word val of Some w \<Rightarrow> Inr (VStr w) | None \<Rightarrow> Inl (Thrown ''Conversion exception - string to string''))
      else Inl (Thrown ''Generic Conversion exception''))"

definition lexical_cast_string :: "'d dblops \<Rightarrow> (string \<Rightarrow> string) \<Rightarrow> string \<Rightarrow> ctype \<Rightarrow> 'd cval res" where
  "lexical_cast_string ops toLowerCopy val t = lexical_cast_cstr ops toLowerCopy (cstr val) t"

text \<open>\<open>cast<T, R>\<close> at a string and at an \<open>int\<close>.\<close>

definition cast_string :: "'d dblops \<Rightarrow> (string \<Rightarrow> string) \<Rightarrow> string \<Rightarrow> ctype \<Rightarrow> 'd cval res" where
  "cast_string ops toLowerCopy val t = lexical_cast_string ops toLowerCopy val t"

definition cast_int :: "'d dblops \<Rightarrow> 32 word \<Rightarrow> ctype \<Rightarrow> 'd cval res" where
  "cast_int ops val t = lexical_cast_int ops val t"

section \<open>Conversions that are inverse\<close>

lemma print_int_chars: "c \<in> set (print_int i) \<Longrightarrow> is_digit c \<or> c = CHR ''-''"
  by (auto simp: print_int_def dest: dec_digits split: if_splits)

lemma print_int_plain: "c \<in> set (print_int i) \<Longrightarrow> c \<noteq> NUL \<and> \<not> isspace c"
  using print_int_chars [of c i] by (auto simp: isspace_def is_digit_def)

lemma print_int_nonempty [simp]: "print_int i \<noteq> []"
  by (simp add: print_int_def)

lemma cstr_print_int [simp]: "cstr (print_int i) = print_int i"
  using print_int_plain by (intro cstr_no_nul) blast

lemma extract_word_plain:
  "s \<noteq> [] \<Longrightarrow> (\<And>c. c \<in> set s \<Longrightarrow> \<not> isspace c) \<Longrightarrow> extract_word s = Some s"
  by (cases s) (auto simp: extract_word_def Let_def takeWhile_eq_all_conv)

lemma extract_word_print_int [simp]: "extract_word (print_int i) = Some (print_int i)"
  using print_int_plain by (intro extract_word_plain) auto

lemma strtol_print_int: "strtol w (print_int i) = (clamp_signed w i, [])"
  by (simp add: strtol_def)

lemma clamp_in: "in_signed w i \<Longrightarrow> clamp_signed w i = i"
  by (auto simp: in_signed_def clamp_signed_def)

lemma sint_in_signed: "in_signed LENGTH('a) (sint (v :: 'a::len word))"
  using sint_greater_eq [of v] sint_lt [of v] by (simp add: in_signed_def)

lemmas sint_ranges = sint_in_signed [where 'a = 32, simplified] sint_in_signed [where 'a = 64, simplified]

text \<open>
  C40. A signed number converted to a string and back is unchanged, for \<open>int\<close> and for \<open>long long\<close>.
\<close>

theorem cast_roundtrip:
  "\<exists>s s'. lexical_cast_int ops v TString = Inr (VStr s) \<and> lexical_cast_string ops lower s TInt = Inr (VInt (sint v))
     \<and> lexical_cast_llong ops u TString = Inr (VStr s') \<and> lexical_cast_string ops lower s' TLLong = Inr (VInt (sint u))"
  by (simp add: lexical_cast_int_def lexical_cast_llong_def lexical_cast_string_def lexical_cast_cstr_def through_stream_def
      getClassName_def all_read_def strtol_print_int clamp_in sint_ranges)

text \<open>
  Narrowing to \<open>short\<close>: from a number the stream checks the range and the conversion throws outside it, from a
  string the value is cut to its low 16 bits without an exception.
\<close>

theorem cast_narrowing:
  "lexical_cast_int ops v TShort =
     (if in_signed 16 (sint v) then Inr (VInt (sint v)) else Inl (Thrown ''Conversion exception - int to short''))
   \<and> lexical_cast_string ops lower (print_int (sint v)) TShort = Inr (VInt (sint (word_of_int (sint v) :: 16 word)))"
  by (simp add: lexical_cast_int_def lexical_cast_string_def lexical_cast_cstr_def through_stream_def extract_signed_def
      getClassName_def all_read_def strtol_print_int clamp_in sint_ranges)

text \<open>
  Which strings convert to \<open>int\<close>: every string that is empty or whose number reaches to its end; the empty string gives
  0. For \<open>long long\<close> a number at the start is enough and the empty string throws.
\<close>

theorem cast_acceptance:
  "(\<exists>e. lexical_cast_cstr ops lower s TInt = Inl e) = (snd (strtol 32 (cstr s)) \<noteq> [])
   \<and> lexical_cast_cstr ops lower [] TInt = Inr (VInt 0)
   \<and> (\<exists>e. lexical_cast_cstr ops lower s TLLong = Inl e) = (scan_int (cstr s) = None)
   \<and> lexical_cast_cstr ops lower [] TLLong = Inl (Thrown ''Conversion exception - string to long long'')"
proof -
  have n: "scan_int [] = None" by (simp add: scan_int_def scan_sign_def)
  have "strtol 32 [] = (0, [])" by (simp add: strtol_def n)
  then show ?thesis
    by (cases "scan_int (cstr s)") (auto simp: lexical_cast_cstr_def getClassName_def all_read_def n Let_def)
qed

end
