(* ===== verification/Codec.thy ===== *)
theory Codec
  imports CLib
begin

text \<open>
  Byte level helpers: the buffer macros of \<open>g_api.h\<close> and, from \<open>tools.cpp\<close>, the UTF-8
  conversions and the Internet checksum. Bytes are \<open>8 word\<close>; \<open>int\<close>, \<open>long\<close> and their
  unsigned forms are \<open>32 word\<close>, \<open>unsigned short\<close> is \<open>16 word\<close>.
\<close>

unbundle bit_operations_syntax

type_synonym byte = "8 word"

section \<open>Buffer macros\<close>

definition CK_BUF2INT :: "byte list \<Rightarrow> 32 word" where
  "CK_BUF2INT p = push_bit 24 (ucast (p ! 3)) + push_bit 16 (ucast (p ! 2)) + push_bit 8 (ucast (p ! 1)) + ucast (p ! 0)"

definition CK_BUF2ULONG :: "byte list \<Rightarrow> 32 word" where
  "CK_BUF2ULONG p = push_bit 24 (ucast (p ! 3)) + push_bit 16 (ucast (p ! 2)) + push_bit 8 (ucast (p ! 1)) + ucast (p ! 0)"

definition CK_INT2BUF :: "32 word \<Rightarrow> byte list" where
  "CK_INT2BUF n = [ucast (drop_bit 24 n AND 0xFF), ucast (drop_bit 16 n AND 0xFF), ucast (drop_bit 8 n AND 0xFF), ucast (n AND 0xFF)]"

definition CK_ULONG2BUF :: "32 word \<Rightarrow> byte list" where
  "CK_ULONG2BUF n = [ucast n AND 0xFF, ucast (drop_bit 8 n) AND 0xFF, ucast (drop_bit 16 n) AND 0xFF, ucast (drop_bit 24 n) AND 0xFF]"

definition CK_BUF2SHT :: "byte list \<Rightarrow> 32 word" where
  "CK_BUF2SHT p = push_bit 8 (ucast (p ! 1)) + ucast (p ! 0)"

definition CK_SHT2BUF :: "32 word \<Rightarrow> byte list" where
  "CK_SHT2BUF n = [ucast (n AND 0xFF), ucast (drop_bit 8 n AND 0xFF)]"

definition CKMIN :: "int \<Rightarrow> int \<Rightarrow> int" where
  "CKMIN a b = (if a > b then b else a)"

section \<open>UTF-8\<close>

function utf8_loop :: "byte list \<Rightarrow> nat \<Rightarrow> nat \<Rightarrow> 16 word list res" where
  "utf8_loop bs len pos =
     (if pos < len then
        rbind (rd (length bs) (nth bs) pos) (\<lambda>b.
          if b \<le> 0x7F then
            rbind (utf8_loop bs len (pos + 1)) (\<lambda>us. Inr (ucast b # us))
          else if b \<le> 0xDF then
            rbind (rd (length bs) (nth bs) (pos + 1)) (\<lambda>b1.
            rbind (utf8_loop bs len (pos + 2)) (\<lambda>us.
              Inr ((push_bit 6 (ucast (b AND 0x1F)) + ucast (b1 AND 0x3F)) # us)))
          else
            rbind (rd (length bs) (nth bs) (pos + 1)) (\<lambda>b1.
            rbind (rd (length bs) (nth bs) (pos + 2)) (\<lambda>b2.
            rbind (utf8_loop bs len (pos + 3)) (\<lambda>us.
              Inr ((push_bit 12 (ucast (b AND 0x0F)) + push_bit 6 (ucast (b1 AND 0x3F)) + ucast (b2 AND 0x3F)) # us)))))
      else Inr [])"
  by pat_completeness auto
termination
  by (relation "measure (\<lambda>(bs, len, pos). len - pos)") auto

declare utf8_loop.simps [simp del]

text \<open>The number of units and the units written, with the closing zero.\<close>

definition myUTF8_to_UNICODE :: "byte list \<Rightarrow> nat \<Rightarrow> (nat \<times> 16 word list) res" where
  "myUTF8_to_UNICODE utf8 len = rbind (utf8_loop utf8 len 0) (\<lambda>us. Inr (length us, us @ [0]))"

definition UTF_8ToUnicode :: "byte \<times> byte \<times> byte \<Rightarrow> byte \<times> byte" where
  "UTF_8ToUnicode pText = (case pText of (t0, t1, t2) \<Rightarrow>
     (push_bit 6 (t1 AND 0x03) + (t2 AND 0x3F), push_bit 4 (t0 AND 0x0F) + (drop_bit 2 t1 AND 0x0F)))"

definition UnicodeToUTF_8 :: "byte \<times> byte \<Rightarrow> byte \<times> byte \<times> byte" where
  "UnicodeToUTF_8 pText = (case pText of (c0, c1) \<Rightarrow>
     (0xE0 OR drop_bit 4 (c1 AND 0xF0),
      (0x80 OR push_bit 2 (c1 AND 0x0F)) + drop_bit 6 (c0 AND 0xC0),
      0x80 OR (c0 AND 0x3F)))"

section \<open>Checksum\<close>

fun cksum_loop :: "byte list \<Rightarrow> 32 word \<Rightarrow> 32 word" where
  "cksum_loop (lo # hi # rest) c = cksum_loop rest (c + (push_bit 8 (ucast hi) + ucast lo))"
| "cksum_loop [b] c = c + ucast b"
| "cksum_loop [] c = c"

lemma unat_drop16: "unat (drop_bit 16 (c :: 32 word)) = unat c div 65536"
  by (simp only: unat_drop_bit_eq) (simp add: drop_bit_eq_div)

lemma fold16_decreases:
  "drop_bit 16 (c :: 32 word) \<noteq> 0 \<Longrightarrow> unat (drop_bit 16 c + (c AND 0xFFFF)) = unat c div 65536 + unat c mod 65536
     \<and> unat c div 65536 + unat c mod 65536 < unat c"
proof -
  assume ne: "drop_bit 16 c \<noteq> 0"
  note d = unat_drop16 [of c]
  have "c AND 0xFFFF = take_bit 16 c" by (simp add: take_bit_eq_mask mask_eq_exp_minus_1)
  then have m: "unat (c AND 0xFFFF) = unat c mod 65536" by (simp add: take_bit_eq_mod unat_mod_distrib)
  have c: "unat c < 2 ^ 32" using unsigned_less [of c] by simp
  have pos: "0 < unat c div 65536" using ne d by (metis gr0I unat_eq_0)
  have "unat (drop_bit 16 c + (c AND 0xFFFF)) = (unat c div 65536 + unat c mod 65536) mod 2 ^ 32"
    using d m by (simp add: unat_word_ariths)
  also have "\<dots> = unat c div 65536 + unat c mod 65536" using c by simp
  finally have "unat (drop_bit 16 c + (c AND 0xFFFF)) = unat c div 65536 + unat c mod 65536" .
  moreover have "unat c = 65536 * (unat c div 65536) + unat c mod 65536" by simp
  ultimately show ?thesis using pos by linarith
qed

function fold16 :: "32 word \<Rightarrow> 32 word" where
  "fold16 c = (if drop_bit 16 c \<noteq> 0 then fold16 (drop_bit 16 c + (c AND 0xFFFF)) else c)"
  by pat_completeness auto
termination
  by (relation "measure unat") (auto simp: fold16_decreases)

declare fold16.simps [simp del]

definition checksum :: "byte list \<Rightarrow> 16 word" where
  "checksum buffer = ucast (NOT (fold16 (cksum_loop buffer 0)))"

section \<open>Round trips of the macros\<close>

lemma bytes_of_32:
  "push_bit 24 (ucast (ucast (drop_bit 24 n) :: byte)) + push_bit 16 (ucast (ucast (drop_bit 16 n) :: byte))
     + push_bit 8 (ucast (ucast (drop_bit 8 n) :: byte)) + ucast (ucast n :: byte) = (n :: 32 word)"
  (is "?s = n")
proof -
  have "?s = push_bit 24 (ucast (ucast (drop_bit 24 n) :: byte)) OR push_bit 16 (ucast (ucast (drop_bit 16 n) :: byte))
      OR push_bit 8 (ucast (ucast (drop_bit 8 n) :: byte)) OR ucast (ucast n :: byte)" (is "_ = ?o")
    by (simp only: or.assoc [symmetric])
      ((subst disjunctive_add_eq_or, rule bit_word_eqI, force simp: bit_simps)+, rule refl)
  also have "\<dots> = n"
  proof (rule bit_word_eqI)
    fix k
    assume "k < LENGTH(32)"
    then consider "k < 8" | "8 \<le> k" "k < 16" | "16 \<le> k" "k < 24" | "24 \<le> k" "k < 32"
      by fastforce
    then show "bit ?o k = bit n k"
      by cases (auto simp: bit_simps)
  qed
  finally show ?thesis .
qed

lemma ucast_and_FF: "(ucast (n AND 0xFF) :: byte) = ucast (n :: 32 word)"
proof -
  have "n AND 0xFF = take_bit 8 n" by (simp add: take_bit_eq_mask mask_eq_exp_minus_1)
  then show ?thesis by (simp add: bit_eq_iff bit_simps)
qed

lemma and_FF_byte [simp]: "(b :: byte) AND 0xFF = b"
proof -
  have "b AND 0xFF = take_bit 8 b" by (simp add: take_bit_eq_mask mask_eq_exp_minus_1)
  then show ?thesis by (simp add: take_bit_word_eq_self)
qed

text \<open>
  The unsigned long macros are inverse to each other for every 32 bit value. The int
  macros are not: the writer stores the most significant byte first and the reader expects
  it last, so a value comes back with its bytes reversed.
\<close>

theorem macro_roundtrip:
  "CK_BUF2ULONG (CK_ULONG2BUF n) = n \<and> CK_BUF2INT (rev (CK_INT2BUF n)) = n
   \<and> CK_BUF2SHT (CK_SHT2BUF n) = n AND 0xFFFF \<and> CK_BUF2INT (CK_INT2BUF 1) = 0x1000000"
proof -
  have "push_bit 8 (ucast (ucast (drop_bit 8 n) :: byte)) + ucast (ucast n :: byte)
      = push_bit 8 (ucast (ucast (drop_bit 8 n) :: byte)) OR (ucast (ucast n :: byte) :: 32 word)"
    by (subst disjunctive_add_eq_or, rule bit_word_eqI, force simp: bit_simps) (rule refl)
  also have "\<dots> = take_bit 16 n" by (rule bit_word_eqI) (auto simp: bit_simps)
  also have "\<dots> = n AND 0xFFFF" by (simp add: take_bit_eq_mask mask_eq_exp_minus_1)
  finally have "CK_BUF2SHT (CK_SHT2BUF n) = n AND 0xFFFF"
    by (simp add: CK_BUF2SHT_def CK_SHT2BUF_def ucast_and_FF)
  then show ?thesis
    by (simp add: CK_BUF2ULONG_def CK_ULONG2BUF_def CK_BUF2INT_def CK_INT2BUF_def ucast_and_FF bytes_of_32)
qed

lemma byte_eqI:
  assumes "bit a 0 = bit b 0" "bit a 1 = bit b 1" "bit a 2 = bit b 2" "bit a 3 = bit b 3"
    "bit a 4 = bit b 4" "bit a 5 = bit b 5" "bit a 6 = bit b 6" "bit a 7 = bit b 7"
  shows "(a :: byte) = b"
proof (rule bit_word_eqI)
  fix n
  assume "n < LENGTH(8)"
  then have "n \<in> {0, 1, 2, 3, 4, 5, 6, 7}" by (simp add: eval_nat_numeral less_Suc_eq)
  then show "bit a n = bit b n" using assms by auto
qed

lemma byte_bit_high [simp]: "8 \<le> n \<Longrightarrow> \<not> bit (w :: byte) n"
  using bit_imp_le_length [of w n] by auto

lemma byte_sums:
  "(0x80 OR push_bit 2 (a AND 0x0F)) + drop_bit 6 (b AND 0xC0)
     = (0x80 OR push_bit 2 (a AND 0x0F)) OR drop_bit 6 (b AND (0xC0 :: byte))"
  "push_bit 6 (a AND 0x03) + (b AND 0x3F) = push_bit 6 (a AND 0x03) OR (b AND (0x3F :: byte))"
  "push_bit 4 (a AND 0x0F) + (drop_bit 2 b AND 0x0F) = push_bit 4 (a AND 0x0F) OR (drop_bit 2 b AND (0x0F :: byte))"
  by (rule disjunctive_add_eq_or, rule byte_eqI, simp_all add: bit_simps)+

text \<open>The three byte encoder and decoder of \<open>tools.cpp\<close> are inverse on all 65536 two byte units.\<close>

theorem unicode_utf8_roundtrip: "UTF_8ToUnicode (UnicodeToUTF_8 (c0, c1)) = (c0, c1)"
proof -
  have "push_bit 6 (((0x80 OR push_bit 2 (c1 AND 0x0F)) OR drop_bit 6 (c0 AND 0xC0)) AND 0x03)
      OR ((0x80 OR (c0 AND 0x3F)) AND 0x3F) = c0"
    by (rule byte_eqI) (simp_all add: bit_simps)
  moreover have "push_bit 4 ((0xE0 OR drop_bit 4 (c1 AND 0xF0)) AND 0x0F)
      OR (drop_bit 2 ((0x80 OR push_bit 2 (c1 AND 0x0F)) OR drop_bit 6 (c0 AND 0xC0)) AND 0x0F) = c1"
    by (rule byte_eqI) (simp_all add: bit_simps)
  ultimately show ?thesis
    by (simp only: UTF_8ToUnicode_def UnicodeToUTF_8_def prod.case byte_sums)
qed

section \<open>Decoding UTF-8 text\<close>

text \<open>The standard encoding of the code points below 65536.\<close>

definition utf8_enc :: "16 word \<Rightarrow> byte list" where
  "utf8_enc c = (let n = unat c in
     if n < 0x80 then [of_nat n]
     else if n < 0x800 then [of_nat (0xC0 + n div 64), of_nat (0x80 + n mod 64)]
     else [of_nat (0xE0 + n div 4096), of_nat (0x80 + n div 64 mod 64), of_nat (0x80 + n mod 64)])"

lemma unat_and_masks:
  "unat ((b :: byte) AND 0x1F) = unat b mod 32" "unat (b AND 0x3F) = unat b mod 64" "unat (b AND 0x0F) = unat b mod 16"
proof -
  have "b AND 0x1F = take_bit 5 b" "b AND 0x3F = take_bit 6 b" "b AND 0x0F = take_bit 4 b"
    by (simp_all add: take_bit_eq_mask mask_eq_exp_minus_1)
  then show "unat (b AND 0x1F) = unat b mod 32" "unat (b AND 0x3F) = unat b mod 64" "unat (b AND 0x0F) = unat b mod 16"
    by (simp_all add: take_bit_eq_mod unat_mod_distrib)
qed

lemma unat_units:
  fixes b b1 b2 :: byte
  shows "unat (ucast b :: 16 word) = unat b"
    and "unat (push_bit 6 (ucast (b AND 0x1F)) + ucast (b1 AND 0x3F) :: 16 word) = unat b mod 32 * 64 + unat b1 mod 64"
    and "unat (push_bit 12 (ucast (b AND 0x0F)) + push_bit 6 (ucast (b1 AND 0x3F)) + ucast (b2 AND 0x3F) :: 16 word)
       = unat b mod 16 * 4096 + unat b1 mod 64 * 64 + unat b2 mod 64"
proof -
  have u: "unat (ucast x :: 16 word) = unat x" for x :: byte
    using unsigned_less [of x, where 'a = nat] by (simp add: unsigned_ucast_eq take_bit_nat_eq_self)
  show "unat (ucast b :: 16 word) = unat b" by (rule u)
  have m: "x mod 32 * 64 + y mod 64 < 65536" "x mod 16 * 4096 + y mod 64 * 64 + z mod 64 < 65536" for x y z :: nat
  proof -
    have "x mod 32 < 32" "y mod 64 < 64" "x mod 16 < 16" "z mod 64 < 64" by simp_all
    then show "x mod 32 * 64 + y mod 64 < 65536" "x mod 16 * 4096 + y mod 64 * 64 + z mod 64 < 65536"
      by linarith+
  qed
  show "unat (push_bit 6 (ucast (b AND 0x1F)) + ucast (b1 AND 0x3F) :: 16 word) = unat b mod 32 * 64 + unat b1 mod 64"
    using m(1) [of "unat b" "unat b1"] by (simp add: push_bit_eq_mult unat_word_ariths u unat_and_masks mult.commute mod_simps)
  show "unat (push_bit 12 (ucast (b AND 0x0F)) + push_bit 6 (ucast (b1 AND 0x3F)) + ucast (b2 AND 0x3F) :: 16 word)
       = unat b mod 16 * 4096 + unat b1 mod 64 * 64 + unat b2 mod 64"
    using m(2) [of "unat b" "unat b1" "unat b2"]
    by (simp add: push_bit_eq_mult unat_word_ariths u unat_and_masks mult.commute mod_simps)
qed

lemma unat_of_nat_byte: "n < 256 \<Longrightarrow> unat (of_nat n :: byte) = n"
  by (simp only: unat_of_nat) simp

lemma byte_le_iff: "n < 256 \<Longrightarrow> (of_nat n :: byte) \<le> numeral k \<longleftrightarrow> n \<le> unat (numeral k :: byte)"
  by (simp only: word_le_nat_alt unat_of_nat_byte)

lemma unat_eq_16: "unat (w :: 16 word) = unat c \<Longrightarrow> w = c"
  by (simp add: word_unat_eq_iff)

lemma lead_mods: "q < 32 \<Longrightarrow> (0xC0 + q) mod 32 = (q :: nat)" "q < 16 \<Longrightarrow> (0xE0 + q) mod 16 = q"
  "(0x80 + r mod 64) mod 64 = (r :: nat) mod 64"
  using mod_mult_self2 [of q 32 6] mod_mult_self2 [of q 16 14] mod_mult_self2 [of "r mod 64" 64 2]
  by (simp_all add: add.commute)

lemma utf8_two_bytes:
  assumes "n = unat (c :: 16 word)" and "n < 0x800"
  shows "push_bit 6 (ucast ((of_nat (0xC0 + n div 64) :: byte) AND 0x1F))
           + ucast ((of_nat (0x80 + n mod 64) :: byte) AND 0x3F) = c"
proof (rule unat_eq_16)
  have "0xC0 + n div 64 < 256" "0x80 + n mod 64 < 256" using assms(2) by auto
  moreover have "(0xC0 + n div 64) mod 32 = n div 64" "(0x80 + n mod 64) mod 64 = n mod 64"
    using assms(2) by (auto intro!: lead_mods)
  ultimately show "unat (push_bit 6 (ucast ((of_nat (0xC0 + n div 64) :: byte) AND 0x1F))
      + ucast ((of_nat (0x80 + n mod 64) :: byte) AND 0x3F) :: 16 word) = unat c"
    by (simp only: unat_units unat_of_nat_byte) (simp add: assms(1))
qed

lemma utf8_three_bytes:
  assumes "n = unat (c :: 16 word)"
  shows "push_bit 12 (ucast ((of_nat (0xE0 + n div 4096) :: byte) AND 0x0F))
           + push_bit 6 (ucast ((of_nat (0x80 + n div 64 mod 64) :: byte) AND 0x3F))
           + ucast ((of_nat (0x80 + n mod 64) :: byte) AND 0x3F) = c"
proof (rule unat_eq_16)
  have n: "n < 65536" using unsigned_less [of c, where 'a = nat] assms by simp
  have "0xE0 + n div 4096 < 256" "0x80 + n div 64 mod 64 < 256" "0x80 + n mod 64 < 256" using n by auto
  moreover have "(0xE0 + n div 4096) mod 16 = n div 4096" "(0x80 + n div 64 mod 64) mod 64 = n div 64 mod 64"
    "(0x80 + n mod 64) mod 64 = n mod 64" using n by (auto intro!: lead_mods)
  moreover have "n div 4096 * 4096 + n div 64 mod 64 * 64 + n mod 64 = n"
  proof -
    have "n div 4096 = n div 64 div 64" by (simp flip: div_mult2_eq)
    then have "n div 4096 * 64 + n div 64 mod 64 = n div 64" by simp
    moreover have "n div 64 * 64 + n mod 64 = n" by simp
    ultimately show ?thesis by linarith
  qed
  ultimately show "unat (push_bit 12 (ucast ((of_nat (0xE0 + n div 4096) :: byte) AND 0x0F))
      + push_bit 6 (ucast ((of_nat (0x80 + n div 64 mod 64) :: byte) AND 0x3F))
      + ucast ((of_nat (0x80 + n mod 64) :: byte) AND 0x3F) :: 16 word) = unat c"
    by (simp only: unat_units unat_of_nat_byte assms)
qed

text \<open>One unit: the loop consumes exactly the encoding of a code point.\<close>

lemma utf8_loop_unit:
  assumes "utf8_loop (pre @ utf8_enc c @ post) len (length pre + length (utf8_enc c)) = Inr us"
    and "length pre + length (utf8_enc c) \<le> len"
  shows "utf8_loop (pre @ utf8_enc c @ post) len (length pre) = Inr (c # us)"
proof -
  let ?n = "unat c"
  have n: "?n < 65536" using unsigned_less [of c, where 'a = nat] by simp
  consider (one) "?n < 0x80" | (two) "0x80 \<le> ?n" "?n < 0x800" | (three) "0x800 \<le> ?n" by linarith
  then show ?thesis
  proof cases
    case one
    then have e: "utf8_enc c = [of_nat ?n]" by (simp add: utf8_enc_def)
    have lt: "?n < 256" using one by simp
    have "(ucast (of_nat ?n :: byte) :: 16 word) = c"
      by (rule unat_eq_16) (simp only: unat_units unat_of_nat_byte [OF lt])
    moreover have "(of_nat ?n :: byte) \<le> 0x7F" using one by (simp only: byte_le_iff [OF lt]) simp
    ultimately show ?thesis using assms unfolding e
      by (subst utf8_loop.simps) (simp add: nth_append del: of_nat_unat)
  next
    case two
    then have e: "utf8_enc c = [of_nat (0xC0 + ?n div 64), of_nat (0x80 + ?n mod 64)]"
      by (simp add: utf8_enc_def Let_def)
    have lt: "0xC0 + ?n div 64 < 0xE0" using two by auto
    have "\<not> (of_nat (0xC0 + ?n div 64) :: byte) \<le> 0x7F" "(of_nat (0xC0 + ?n div 64) :: byte) \<le> 0xDF"
      using lt by (simp_all only: byte_le_iff) simp_all
    with utf8_two_bytes [OF refl two(2)] assms show ?thesis unfolding e
      by (subst utf8_loop.simps) (simp add: nth_append del: of_nat_add of_nat_numeral)
  next
    case three
    then have e: "utf8_enc c = [of_nat (0xE0 + ?n div 4096), of_nat (0x80 + ?n div 64 mod 64), of_nat (0x80 + ?n mod 64)]"
      by (simp add: utf8_enc_def Let_def)
    have lt: "0xE0 + ?n div 4096 < 0xF0" using n by auto
    have "\<not> (of_nat (0xE0 + ?n div 4096) :: byte) \<le> 0x7F" "\<not> (of_nat (0xE0 + ?n div 4096) :: byte) \<le> 0xDF"
      using lt by (simp_all only: byte_le_iff) simp_all
    with utf8_three_bytes [OF refl, of c] assms show ?thesis unfolding e
      by (subst utf8_loop.simps) (simp add: nth_append numeral_3_eq_3 del: of_nat_add of_nat_numeral)
  qed
qed

lemma utf8_loop_text:
  "utf8_loop (pre @ concat (map utf8_enc cs)) (length (pre @ concat (map utf8_enc cs))) (length pre) = Inr cs"
proof (induction cs arbitrary: pre)
  case Nil
  then show ?case by (subst utf8_loop.simps) simp
next
  case (Cons c cs)
  show ?case
    using Cons.IH [of "pre @ utf8_enc c"]
      utf8_loop_unit [of pre c "concat (map utf8_enc cs)" "length (pre @ concat (map utf8_enc (c # cs)))" cs]
    by simp
qed

text \<open>
  Decoding the UTF-8 text of any sequence of code points below 65536 reads nothing outside the
  text, returns their number and writes exactly them, followed by a zero.
\<close>

theorem utf8_decode_encode:
  "myUTF8_to_UNICODE (concat (map utf8_enc cs)) (length (concat (map utf8_enc cs))) = Inr (length cs, cs @ [0])"
  using utf8_loop_text [of "[]" cs] by (simp add: myUTF8_to_UNICODE_def)

section \<open>The checksum verifies\<close>

lemma fold16_spec: "unat (fold16 c) < 65536 \<and> unat (fold16 c) mod 65535 = unat c mod 65535 \<and> (fold16 c = 0 \<longrightarrow> c = 0)"
proof (induction c rule: fold16.induct)
  case (1 c)
  show ?case
  proof (cases "drop_bit 16 c = 0")
    case True
    then have "unat c < 65536" using unat_drop16 [of c] by (simp add: div_eq_0_iff)
    with True show ?thesis by (simp add: fold16.simps [of c])
  next
    case False
    let ?d = "drop_bit 16 c + (c AND 0xFFFF)"
    have d: "unat ?d = unat c div 65536 + unat c mod 65536" using fold16_decreases [OF False] by simp
    have "(unat c div 65536 + unat c mod 65536) mod 65535 = unat c mod 65535"
    proof -
      have "unat c = 65535 * (unat c div 65536) + (unat c div 65536 + unat c mod 65536)" by simp
      then show ?thesis by (metis mod_mult_self4)
    qed
    moreover have "?d \<noteq> 0"
    proof
      assume "?d = 0"
      then have "unat c div 65536 = 0" using d by (metis add_is_0 unat_0)
      then show False using False unat_drop16 [of c] by (metis unat_eq_0)
    qed
    ultimately show ?thesis using False "1.IH" [OF False] d by (simp add: fold16.simps [of c])
  qed
qed

definition word_at :: "byte \<Rightarrow> byte \<Rightarrow> nat" where
  "word_at lo hi = unat hi * 256 + unat lo"

fun word_sum :: "byte list \<Rightarrow> nat" where
  "word_sum (lo # hi # rest) = word_at lo hi + word_sum rest"
| "word_sum [b] = unat b"
| "word_sum [] = 0"

lemma unat_word_at: "unat (push_bit 8 (ucast hi) + ucast lo :: 32 word) = word_at lo hi"
proof -
  have "unat hi < 256" "unat lo < 256" using unsigned_less [of _, where 'a = nat and 'b = 8] by auto
  moreover have "unat (ucast b :: 32 word) = unat b" for b :: byte
    using unsigned_less [of b, where 'a = nat] by (simp add: unsigned_ucast_eq take_bit_nat_eq_self)
  ultimately show ?thesis
    by (simp add: word_at_def push_bit_eq_mult unat_word_ariths mult.commute)
qed

lemma cksum_loop_sum: "unat c + word_sum bs < 2 ^ 32 \<Longrightarrow> unat (cksum_loop bs c) = unat c + word_sum bs"
proof (induction bs c rule: cksum_loop.induct)
  case (1 lo hi rest c)
  have "unat (c + (push_bit 8 (ucast hi) + ucast lo)) = unat c + word_at lo hi"
    using "1.prems" by (simp add: unat_word_ariths(1) [of c] unat_word_at)
  with 1 show ?case by simp
next
  case (2 b c)
  have "unat (ucast b :: 32 word) = unat b"
    using unsigned_less [of b, where 'a = nat] by (simp add: unsigned_ucast_eq take_bit_nat_eq_self)
  with 2 show ?case by (simp add: unat_word_ariths)
qed simp

lemma word_sum_bound: "even (length bs) \<Longrightarrow> word_sum bs \<le> length bs div 2 * 65535"
proof (induction bs rule: word_sum.induct)
  case (1 lo hi rest)
  have "unat hi < 256" "unat lo < 256" using unsigned_less [of _, where 'a = nat and 'b = 8] by auto
  with 1 show ?case by (simp add: word_at_def)
qed simp_all

lemma word_sum_append: "even (length bs) \<Longrightarrow> word_sum (bs @ [lo, hi]) = word_sum bs + word_at lo hi"
  by (induction bs rule: word_sum.induct) simp_all

lemma unat_checksum: "unat (checksum bs) = 65535 - unat (fold16 (cksum_loop bs 0))"
proof -
  let ?f = "fold16 (cksum_loop bs 0)"
  have lt: "unat ?f < 65536" using fold16_spec by blast
  have "ucast (NOT ?f) = (NOT (ucast ?f) :: 16 word)" by (rule bit_word_eqI) (simp add: bit_simps)
  moreover have "unat (ucast ?f :: 16 word) = unat ?f"
    using lt by (simp add: unsigned_ucast_eq take_bit_nat_eq_self)
  moreover have "unat (NOT (w :: 16 word)) = 65535 - unat w" for w
  proof -
    have "NOT w = 65535 - w" by (simp add: not_eq_complement)
    moreover have "w \<le> 65535" using unsigned_less [of w, where 'a = nat] by (simp add: word_le_nat_alt)
    ultimately show ?thesis by (simp add: unat_sub)
  qed
  ultimately show ?thesis by (simp add: checksum_def)
qed

lemma word_at_bytes: "word_at (ucast k) (ucast (drop_bit 8 (k :: 16 word))) = unat k"
proof -
  have "unat k < 65536" using unsigned_less [of k, where 'a = nat] by simp
  moreover have "unat (ucast (drop_bit 8 k) :: byte) = unat k div 256 mod 256"
    by (simp only: unsigned_ucast_eq unat_drop_bit_eq) (simp add: drop_bit_eq_div take_bit_eq_mod)
  moreover have "unat (ucast k :: byte) = unat k mod 256"
    by (simp only: unsigned_ucast_eq) (simp add: take_bit_eq_mod)
  ultimately show ?thesis by (simp add: word_at_def)
qed

text \<open>
  C39. A message of even length, up to 65536 words, followed by its own checksum (low byte
  first) has checksum zero: the receiver's test accepts what the sender's function produced.
\<close>

theorem checksum_verifies:
  assumes even: "even (length bs)" and len: "length bs \<le> 2 * 65536"
  shows "checksum (bs @ [ucast (checksum bs), ucast (drop_bit 8 (checksum bs))]) = 0"
proof -
  let ?k = "checksum bs" and ?S = "word_sum bs" and ?f = "fold16 (cksum_loop bs 0)"
  let ?bs = "bs @ [ucast ?k, ucast (drop_bit 8 ?k)]"
  have "length bs div 2 \<le> 65536" using len by simp
  then have S: "?S \<le> 65536 * 65535" using word_sum_bound [OF even] by linarith
  then have sum: "unat (cksum_loop bs 0) = ?S" using cksum_loop_sum [of 0 bs] by simp
  have f: "unat ?f mod 65535 = ?S mod 65535" "unat ?f < 65536" using fold16_spec [of "cksum_loop bs 0"] sum by auto
  have k: "unat ?k = 65535 - unat ?f" by (rule unat_checksum)
  have S': "word_sum ?bs = ?S + unat ?k" using word_sum_append [OF even] word_at_bytes by simp
  have sum': "unat (cksum_loop ?bs 0) = ?S + unat ?k" using cksum_loop_sum [of 0 ?bs] S S' k by simp
  have "?S + unat ?k \<noteq> 0"
  proof
    assume "?S + unat ?k = 0"
    then have z: "?S = 0" "unat ?k = 0" by simp_all
    have "cksum_loop bs 0 = 0" using sum z(1) by (simp only: unat_eq_0)
    moreover have "unat ?f = 65535" using z(2) k f(2) by simp
    ultimately have "cksum_loop bs 0 = 0" "unat ?f = 65535" by simp_all
    then show False by (simp add: fold16.simps [of 0])
  qed
  moreover have "(?S + unat ?k) mod 65535 = 0"
  proof -
    have e: "unat ?f + unat ?k = 65535" using k f(2) by simp
    have "(?S + unat ?k) mod 65535 = (?S mod 65535 + unat ?k) mod 65535"
      by (rule mod_add_left_eq [symmetric])
    also have "\<dots> = (unat ?f mod 65535 + unat ?k) mod 65535" by (simp only: f(1))
    also have "\<dots> = (unat ?f + unat ?k) mod 65535" by (rule mod_add_left_eq)
    also have "\<dots> = 0" by (simp only: e mod_self)
    finally show ?thesis .
  qed
  moreover have "unat (fold16 (cksum_loop ?bs 0)) < 65536"
    "unat (fold16 (cksum_loop ?bs 0)) mod 65535 = (?S + unat ?k) mod 65535"
    "fold16 (cksum_loop ?bs 0) = 0 \<longrightarrow> cksum_loop ?bs 0 = 0"
    using fold16_spec [of "cksum_loop ?bs 0"] sum' by auto
  ultimately have "unat (fold16 (cksum_loop ?bs 0)) = 65535"
    using sum' by (cases "unat (fold16 (cksum_loop ?bs 0)) = 0") (auto simp: unat_eq_0 mod_if split: if_splits)
  then have "unat (checksum ?bs) = 0" by (simp add: unat_checksum)
  then show ?thesis by (simp add: unat_eq_0)
qed

theorem checksum_verifies_witness: "checksum ([0x12, 0x34, 0xFF, 0x01] @ [ucast (checksum [0x12, 0x34, 0xFF, 0x01]),
    ucast (drop_bit 8 (checksum [0x12, 0x34, 0xFF, 0x01]))]) = 0"
  by (rule checksum_verifies) simp_all

end
