(* ===== verification/ByteOrder.thy ===== *)
theory ByteOrder
  imports GPS_Prelude
begin

text \<open>
  The storage macros of the MySQL connector's headers: \<open>my_global.h\<close> stores integers low byte first, once in portable form
  and once with the loads and stores of the 32-bit Intel architecture, for which the server is built; \<open>myisampack.h\<close> stores
  them high byte first. A buffer is a function from offsets to bytes. A signed read gives an \<open>int\<close>.
\<close>

unbundle bit_operations_syntax

section \<open>Values of byte sequences\<close>

fun le_val :: "8 word list \<Rightarrow> int" where
  "le_val [] = 0"
| "le_val (b # bs) = uint b + 256 * le_val bs"

definition byte_of :: "nat \<Rightarrow> int \<Rightarrow> 8 word" where
  "byte_of k v = word_of_int (v div 256 ^ k)"

section \<open>Low byte first, portable\<close>

definition uint2korr :: "(nat \<Rightarrow> 8 word) \<Rightarrow> 16 word" where
  "uint2korr A = ucast (A 0) + push_bit 8 (ucast (A 1))"

definition uint3korr :: "(nat \<Rightarrow> 8 word) \<Rightarrow> 32 word" where
  "uint3korr A = ucast (A 0) + push_bit 8 (ucast (A 1)) + push_bit 16 (ucast (A 2))"

definition uint4korr :: "(nat \<Rightarrow> 8 word) \<Rightarrow> 32 word" where
  "uint4korr A = ucast (A 0) + push_bit 8 (ucast (A 1)) + push_bit 16 (ucast (A 2)) + push_bit 24 (ucast (A 3))"

definition uint5korr :: "(nat \<Rightarrow> 8 word) \<Rightarrow> 64 word" where
  "uint5korr A = ucast (ucast (A 0) + push_bit 8 (ucast (A 1)) + push_bit 16 (ucast (A 2)) + push_bit 24 (ucast (A 3)) :: 32 word) + push_bit 32 (ucast (A 4))"

definition uint6korr :: "(nat \<Rightarrow> 8 word) \<Rightarrow> 64 word" where
  "uint6korr A = ucast (ucast (A 0) + push_bit 8 (ucast (A 1)) + push_bit 16 (ucast (A 2)) + push_bit 24 (ucast (A 3)) :: 32 word) + push_bit 32 (ucast (A 4)) + push_bit 40 (ucast (A 5))"

definition uint8korr :: "(nat \<Rightarrow> 8 word) \<Rightarrow> 64 word" where
  "uint8korr A = ucast (ucast (A 0) + push_bit 8 (ucast (A 1)) + push_bit 16 (ucast (A 2)) + push_bit 24 (ucast (A 3)) :: 32 word)
     + push_bit 32 (ucast (ucast (A 4) + push_bit 8 (ucast (A 5)) + push_bit 16 (ucast (A 6)) + push_bit 24 (ucast (A 7)) :: 32 word))"

definition sint2korr :: "(nat \<Rightarrow> 8 word) \<Rightarrow> int" where
  "sint2korr A = sint (ucast (A 0) + push_bit 8 (ucast (A 1)) :: 16 word)"

definition sint3korr :: "(nat \<Rightarrow> 8 word) \<Rightarrow> int" where
  "sint3korr A = sint (if A 2 AND 128 \<noteq> 0 then
       push_bit 24 255 OR push_bit 16 (ucast (A 2)) OR push_bit 8 (ucast (A 1)) OR ucast (A 0)
     else push_bit 16 (ucast (A 2)) OR push_bit 8 (ucast (A 1)) OR ucast (A 0) :: 32 word)"

definition sint4korr :: "(nat \<Rightarrow> 8 word) \<Rightarrow> int" where
  "sint4korr A = sint (ucast (A 0) + push_bit 8 (ucast (A 1)) + push_bit 16 (ucast (A 2)) + push_bit 24 (ucast (A 3)) :: 32 word)"

definition sint8korr :: "(nat \<Rightarrow> 8 word) \<Rightarrow> int" where
  "sint8korr A = sint (uint8korr A)"

definition int2store :: "(nat \<Rightarrow> 8 word) \<Rightarrow> 16 word \<Rightarrow> nat \<Rightarrow> 8 word" where
  "int2store T a = T(0 := ucast a, 1 := ucast (drop_bit 8 a))"

definition int3store :: "(nat \<Rightarrow> 8 word) \<Rightarrow> 32 word \<Rightarrow> nat \<Rightarrow> 8 word" where
  "int3store T a = T(0 := ucast a, 1 := ucast (drop_bit 8 a), 2 := ucast (drop_bit 16 a))"

definition int4store :: "(nat \<Rightarrow> 8 word) \<Rightarrow> 32 word \<Rightarrow> nat \<Rightarrow> 8 word" where
  "int4store T a = T(0 := ucast a, 1 := ucast (drop_bit 8 a), 2 := ucast (drop_bit 16 a), 3 := ucast (drop_bit 24 a))"

definition int5store :: "(nat \<Rightarrow> 8 word) \<Rightarrow> 64 word \<Rightarrow> nat \<Rightarrow> 8 word" where
  "int5store T a = T(0 := ucast a, 1 := ucast (drop_bit 8 a), 2 := ucast (drop_bit 16 a), 3 := ucast (drop_bit 24 a), 4 := ucast (drop_bit 32 a))"

definition int6store :: "(nat \<Rightarrow> 8 word) \<Rightarrow> 64 word \<Rightarrow> nat \<Rightarrow> 8 word" where
  "int6store T a = T(0 := ucast a, 1 := ucast (drop_bit 8 a), 2 := ucast (drop_bit 16 a), 3 := ucast (drop_bit 24 a), 4 := ucast (drop_bit 32 a), 5 := ucast (drop_bit 40 a))"

definition int8store :: "(nat \<Rightarrow> 8 word) \<Rightarrow> 64 word \<Rightarrow> nat \<Rightarrow> 8 word" where
  "int8store T a = (let def_temp = ucast a :: 32 word; def_temp2 = ucast (drop_bit 32 a) :: 32 word;
     T = int4store T def_temp; U = int4store (\<lambda>k. T (k + 4)) def_temp2 in
     (\<lambda>k. if k < 4 then T k else U (k - 4)))"

section \<open>Low byte first, Intel\<close>

text \<open>A load or store of the processor through a pointer to an integer of \<open>n\<close> bytes.\<close>

definition load_le :: "nat \<Rightarrow> (nat \<Rightarrow> 8 word) \<Rightarrow> int" where
  "load_le n A = le_val (map A [0..<n])"

definition store_le :: "nat \<Rightarrow> int \<Rightarrow> (nat \<Rightarrow> 8 word) \<Rightarrow> nat \<Rightarrow> 8 word" where
  "store_le n v T = (\<lambda>k. if k < n then byte_of k v else T k)"

definition x86_sint2korr :: "(nat \<Rightarrow> 8 word) \<Rightarrow> int" where
  "x86_sint2korr A = sint (word_of_int (load_le 2 A) :: 16 word)"

definition x86_sint4korr :: "(nat \<Rightarrow> 8 word) \<Rightarrow> int" where
  "x86_sint4korr A = sint (word_of_int (load_le 4 A) :: 32 word)"

definition x86_sint8korr :: "(nat \<Rightarrow> 8 word) \<Rightarrow> int" where
  "x86_sint8korr A = sint (word_of_int (load_le 8 A) :: 64 word)"

definition x86_uint2korr :: "(nat \<Rightarrow> 8 word) \<Rightarrow> 16 word" where
  "x86_uint2korr A = word_of_int (load_le 2 A)"

text \<open>Three bytes are read by a load of four: \<open>cap\<close> is how many the buffer has.
\<close>

definition x86_uint3korr :: "nat \<Rightarrow> (nat \<Rightarrow> 8 word) \<Rightarrow> 32 word res" where
  "x86_uint3korr cap A = 
     rbind (guard (4 \<le> cap) OutOfBounds) (\<lambda>_. Inr ((word_of_int (load_le 4 A) :: 32 word) AND 0xFFFFFF))"

definition x86_uint4korr :: "(nat \<Rightarrow> 8 word) \<Rightarrow> 32 word" where
  "x86_uint4korr A = word_of_int (load_le 4 A)"

definition x86_uint8korr :: "(nat \<Rightarrow> 8 word) \<Rightarrow> 64 word" where
  "x86_uint8korr A = word_of_int (load_le 8 A)"

definition x86_int2store :: "(nat \<Rightarrow> 8 word) \<Rightarrow> 16 word \<Rightarrow> nat \<Rightarrow> 8 word" where
  "x86_int2store T a = store_le 2 (uint a) T"

definition x86_int4store :: "(nat \<Rightarrow> 8 word) \<Rightarrow> 32 word \<Rightarrow> nat \<Rightarrow> 8 word" where
  "x86_int4store T a = store_le 4 (uint a) T"

definition x86_int8store :: "(nat \<Rightarrow> 8 word) \<Rightarrow> 64 word \<Rightarrow> nat \<Rightarrow> 8 word" where
  "x86_int8store T a = store_le 8 (uint a) T"

section \<open>High byte first\<close>

definition mi_sint1korr :: "(nat \<Rightarrow> 8 word) \<Rightarrow> int" where
  "mi_sint1korr A = sint (A 0)"

definition mi_uint1korr :: "(nat \<Rightarrow> 8 word) \<Rightarrow> 8 word" where
  "mi_uint1korr A = A 0"

definition mi_sint2korr :: "(nat \<Rightarrow> 8 word) \<Rightarrow> int" where
  "mi_sint2korr A = sint (ucast (A 1) + push_bit 8 (scast (A 0)) :: 16 word)"

definition mi_sint3korr :: "(nat \<Rightarrow> 8 word) \<Rightarrow> int" where
  "mi_sint3korr A = sint (if A 0 AND 128 \<noteq> 0 then
       push_bit 24 255 OR push_bit 16 (ucast (A 0)) OR push_bit 8 (ucast (A 1)) OR ucast (A 2)
     else push_bit 16 (ucast (A 0)) OR push_bit 8 (ucast (A 1)) OR ucast (A 2) :: 32 word)"

definition mi_sint4korr :: "(nat \<Rightarrow> 8 word) \<Rightarrow> int" where
  "mi_sint4korr A = sint (ucast (A 3) + push_bit 8 (ucast (A 2)) + push_bit 16 (ucast (A 1)) + push_bit 24 (scast (A 0)) :: 32 word)"

definition mi_uint2korr :: "(nat \<Rightarrow> 8 word) \<Rightarrow> 16 word" where
  "mi_uint2korr A = ucast (A 1) + push_bit 8 (ucast (A 0))"

definition mi_uint3korr :: "(nat \<Rightarrow> 8 word) \<Rightarrow> 32 word" where
  "mi_uint3korr A = ucast (A 2) + push_bit 8 (ucast (A 1)) + push_bit 16 (ucast (A 0))"

definition mi_uint4korr :: "(nat \<Rightarrow> 8 word) \<Rightarrow> 32 word" where
  "mi_uint4korr A = ucast (A 3) + push_bit 8 (ucast (A 2)) + push_bit 16 (ucast (A 1)) + push_bit 24 (ucast (A 0))"

definition mi_uint5korr :: "(nat \<Rightarrow> 8 word) \<Rightarrow> 64 word" where
  "mi_uint5korr A = ucast (ucast (A 4) + push_bit 8 (ucast (A 3)) + push_bit 16 (ucast (A 2)) + push_bit 24 (ucast (A 1)) :: 32 word) + push_bit 32 (ucast (A 0))"

definition mi_uint6korr :: "(nat \<Rightarrow> 8 word) \<Rightarrow> 64 word" where
  "mi_uint6korr A = ucast (ucast (A 5) + push_bit 8 (ucast (A 4)) + push_bit 16 (ucast (A 3)) + push_bit 24 (ucast (A 2)) :: 32 word) + push_bit 32 (ucast (ucast (A 1) + push_bit 8 (ucast (A 0)) :: 32 word))"

definition mi_uint7korr :: "(nat \<Rightarrow> 8 word) \<Rightarrow> 64 word" where
  "mi_uint7korr A = ucast (ucast (A 6) + push_bit 8 (ucast (A 5)) + push_bit 16 (ucast (A 4)) + push_bit 24 (ucast (A 3)) :: 32 word) + push_bit 32 (ucast (ucast (A 2) + push_bit 8 (ucast (A 1)) + push_bit 16 (ucast (A 0)) :: 32 word))"

definition mi_uint8korr :: "(nat \<Rightarrow> 8 word) \<Rightarrow> 64 word" where
  "mi_uint8korr A = ucast (ucast (A 7) + push_bit 8 (ucast (A 6)) + push_bit 16 (ucast (A 5)) + push_bit 24 (ucast (A 4)) :: 32 word)
     + push_bit 32 (ucast (ucast (A 3) + push_bit 8 (ucast (A 2)) + push_bit 16 (ucast (A 1)) + push_bit 24 (ucast (A 0)) :: 32 word))"

definition mi_sint8korr :: "(nat \<Rightarrow> 8 word) \<Rightarrow> int" where
  "mi_sint8korr A = sint (mi_uint8korr A)"

definition mi_int1store :: "(nat \<Rightarrow> 8 word) \<Rightarrow> 8 word \<Rightarrow> nat \<Rightarrow> 8 word" where
  "mi_int1store T a = T(0 := ucast a)"

definition mi_int2store :: "(nat \<Rightarrow> 8 word) \<Rightarrow> 16 word \<Rightarrow> nat \<Rightarrow> 8 word" where
  "mi_int2store T a = (let def_temp = ucast a :: 32 word in T(1 := ucast def_temp, 0 := ucast (drop_bit 8 def_temp)))"

definition mi_int3store :: "(nat \<Rightarrow> 8 word) \<Rightarrow> 32 word \<Rightarrow> nat \<Rightarrow> 8 word" where
  "mi_int3store T a = (let def_temp = ucast a :: 32 word in T(2 := ucast def_temp, 1 := ucast (drop_bit 8 def_temp), 0 := ucast (drop_bit 16 def_temp)))"

definition mi_int4store :: "(nat \<Rightarrow> 8 word) \<Rightarrow> 32 word \<Rightarrow> nat \<Rightarrow> 8 word" where
  "mi_int4store T a = (let def_temp = ucast a :: 32 word in T(3 := ucast def_temp, 2 := ucast (drop_bit 8 def_temp), 1 := ucast (drop_bit 16 def_temp), 0 := ucast (drop_bit 24 def_temp)))"

definition mi_int5store :: "(nat \<Rightarrow> 8 word) \<Rightarrow> 64 word \<Rightarrow> nat \<Rightarrow> 8 word" where
  "mi_int5store T a = (let def_temp = ucast a :: 32 word; def_temp2 = ucast (drop_bit 32 a) :: 32 word in
     T(4 := ucast def_temp, 3 := ucast (drop_bit 8 def_temp), 2 := ucast (drop_bit 16 def_temp), 1 := ucast (drop_bit 24 def_temp),
       0 := ucast def_temp2))"

definition mi_int6store :: "(nat \<Rightarrow> 8 word) \<Rightarrow> 64 word \<Rightarrow> nat \<Rightarrow> 8 word" where
  "mi_int6store T a = (let def_temp = ucast a :: 32 word; def_temp2 = ucast (drop_bit 32 a) :: 32 word in
     T(5 := ucast def_temp, 4 := ucast (drop_bit 8 def_temp), 3 := ucast (drop_bit 16 def_temp), 2 := ucast (drop_bit 24 def_temp),
       1 := ucast def_temp2, 0 := ucast (drop_bit 8 def_temp2)))"

definition mi_int7store :: "(nat \<Rightarrow> 8 word) \<Rightarrow> 64 word \<Rightarrow> nat \<Rightarrow> 8 word" where
  "mi_int7store T a = (let def_temp = ucast a :: 32 word; def_temp2 = ucast (drop_bit 32 a) :: 32 word in
     T(6 := ucast def_temp, 5 := ucast (drop_bit 8 def_temp), 4 := ucast (drop_bit 16 def_temp), 3 := ucast (drop_bit 24 def_temp),
       2 := ucast def_temp2, 1 := ucast (drop_bit 8 def_temp2), 0 := ucast (drop_bit 16 def_temp2)))"

definition mi_int8store :: "(nat \<Rightarrow> 8 word) \<Rightarrow> 64 word \<Rightarrow> nat \<Rightarrow> 8 word" where
  "mi_int8store T a = (let def_temp3 = ucast a :: 32 word; def_temp4 = ucast (drop_bit 32 a) :: 32 word;
     T = mi_int4store T def_temp4; U = mi_int4store (\<lambda>k. T (k + 4)) def_temp3 in
     (\<lambda>k. if k < 4 then T k else U (k - 4)))"

section \<open>Values\<close>

lemma le_val_nonneg: "0 \<le> le_val bs"
  by (induction bs) auto

lemma le_val_bound: "le_val bs < 256 ^ length bs"
proof (induction bs)
  case (Cons b bs)
  have "uint b < 256" using uint_lt2p [of b] by simp
  with Cons show ?case by simp
qed simp

lemma le_val_bytes: "le_val (map (\<lambda>k. byte_of k v) [0..<n]) = v mod 256 ^ n"
proof (induction n arbitrary: v)
  case (Suc n)
  have "map (\<lambda>k. byte_of k v) [0..<Suc n] = byte_of 0 v # map (\<lambda>k. byte_of k (v div 256)) [0..<n]"
    by (simp add: upt_conv_Cons map_Suc_upt [symmetric] byte_of_def zdiv_zmult2_eq del: upt_Suc)
  then have "le_val (map (\<lambda>k. byte_of k v) [0..<Suc n]) = v mod 256 + 256 * ((v div 256) mod 256 ^ n)"
    using Suc [of "v div 256"] by (simp add: byte_of_def unsigned_of_int take_bit_eq_mod)
  also have "\<dots> = v mod 256 ^ Suc n" by (simp add: zmod_zmult2_eq mult.commute)
  finally show ?case .
qed simp

lemma byte_cast: "(ucast (drop_bit (8 * k) w) :: 8 word) = byte_of k (uint (w :: 'a::len word))"
proof -
  have "uint (drop_bit (8 * k) w) = drop_bit (8 * k) (uint w)"
    by (rule bit_eqI) (simp add: bit_unsigned_iff bit_drop_bit_eq)
  also have "\<dots> = uint w div 2 ^ (8 * k)" by (rule drop_bit_eq_div)
  also have "\<dots> = uint w div 256 ^ k" by (simp add: power_mult)
  finally show ?thesis by (simp add: byte_of_def ucast_eq)
qed

text \<open>The bytes of a word, in the forms in which the macros write them.\<close>

lemma bytes_of_word:
  "(ucast w :: 8 word) = byte_of 0 (uint (w :: 'a::len word))"
  "(ucast (drop_bit 8 w) :: 8 word) = byte_of 1 (uint w)" "(ucast (drop_bit 16 w) :: 8 word) = byte_of 2 (uint w)"
  "(ucast (drop_bit 24 w) :: 8 word) = byte_of 3 (uint w)" "(ucast (drop_bit 32 w) :: 8 word) = byte_of 4 (uint w)"
  "(ucast (drop_bit 40 w) :: 8 word) = byte_of 5 (uint w)"
  using byte_cast [of 0 w] byte_cast [of 1 w] byte_cast [of 2 w] byte_cast [of 3 w] byte_cast [of 4 w] byte_cast [of 5 w] by simp_all

lemma low_half: "k < 4 \<Longrightarrow> byte_of k (uint (ucast (c :: 64 word) :: 32 word)) = byte_of k (uint c)"
  unfolding byte_cast [symmetric] by (rule bit_word_eqI) (auto simp: bit_simps)

lemma high_half: "k < 4 \<Longrightarrow> byte_of k (uint (ucast (drop_bit 32 (c :: 64 word)) :: 32 word)) = byte_of (k + 4) (uint c)"
  unfolding byte_cast [symmetric] by (rule bit_word_eqI) (auto simp: bit_simps ac_simps)

lemma shifted_half: "k < 4 \<Longrightarrow> byte_of k (uint (drop_bit 32 (c :: 64 word))) = byte_of (k + 4) (uint c)"
  unfolding byte_cast [symmetric] by (rule bit_word_eqI) (auto simp: bit_simps ac_simps)

lemma halves:
  fixes c :: "64 word"
  shows "byte_of 0 (uint (ucast c :: 32 word)) = byte_of 0 (uint c)" "byte_of 1 (uint (ucast c :: 32 word)) = byte_of 1 (uint c)"
    "byte_of 2 (uint (ucast c :: 32 word)) = byte_of 2 (uint c)" "byte_of 3 (uint (ucast c :: 32 word)) = byte_of 3 (uint c)"
    "byte_of 0 (uint (ucast (drop_bit 32 c) :: 32 word)) = byte_of 4 (uint c)" "byte_of 1 (uint (ucast (drop_bit 32 c) :: 32 word)) = byte_of 5 (uint c)"
    "byte_of 2 (uint (ucast (drop_bit 32 c) :: 32 word)) = byte_of 6 (uint c)" "byte_of 3 (uint (ucast (drop_bit 32 c) :: 32 word)) = byte_of 7 (uint c)"
  using high_half [of 0 c] high_half [of 1 c] high_half [of 2 c] high_half [of 3 c] by (simp_all only: low_half) simp_all

lemma sums:
  "ucast a + push_bit 8 (ucast b) = (word_of_int (le_val [a, b]) :: 'b::len word)"
  "ucast a + push_bit 8 (ucast b) + push_bit 16 (ucast c) = (word_of_int (le_val [a, b, c]) :: 'b::len word)"
  "ucast a + push_bit 8 (ucast b) + push_bit 16 (ucast c) + push_bit 24 (ucast d) = (word_of_int (le_val [a, b, c, d]) :: 'b::len word)"
  by (simp_all add: push_bit_eq_mult algebra_simps)

lemma widen:
  assumes "length bs \<le> 4"
  shows "(ucast (word_of_int (le_val bs) :: 32 word) :: 64 word) = word_of_int (le_val bs)"
proof -
  have "(256::int) ^ length bs \<le> 256 ^ 4" using assms by (intro power_increasing) simp_all
  with le_val_bound [of bs] have "le_val bs < 2 ^ 32" by simp
  then show ?thesis using le_val_nonneg [of bs] by (simp add: ucast_eq unsigned_of_int take_bit_eq_mod)
qed

lemma widen_lists:
  "(ucast (word_of_int (le_val [a, b]) :: 32 word) :: 64 word) = word_of_int (le_val [a, b])"
  "(ucast (word_of_int (le_val [a, b, c]) :: 32 word) :: 64 word) = word_of_int (le_val [a, b, c])"
  "(ucast (word_of_int (le_val [a, b, c, d]) :: 32 word) :: 64 word) = word_of_int (le_val [a, b, c, d])"
  by (rule widen; simp)+

lemma upts:
  "[0..<2] = [0, 1::nat]" "[0..<3] = [0, 1, 2::nat]" "[0..<4] = [0, 1, 2, 3::nat]" "[0..<5] = [0, 1, 2, 3, 4::nat]"
  "[0..<6] = [0, 1, 2, 3, 4, 5::nat]" "[0..<7] = [0, 1, 2, 3, 4, 5, 6::nat]" "[0..<8] = [0, 1, 2, 3, 4, 5, 6, 7::nat]"
  by (simp_all add: upt_rec)

lemma korr_values:
  "uint2korr A = word_of_int (le_val [A 0, A 1])"
  "uint3korr A = word_of_int (le_val [A 0, A 1, A 2])"
  "uint4korr A = word_of_int (le_val [A 0, A 1, A 2, A 3])"
  "uint5korr A = word_of_int (le_val [A 0, A 1, A 2, A 3, A 4])"
  "uint6korr A = word_of_int (le_val [A 0, A 1, A 2, A 3, A 4, A 5])"
  "uint8korr A = word_of_int (le_val [A 0, A 1, A 2, A 3, A 4, A 5, A 6, A 7])"
  unfolding uint2korr_def uint3korr_def uint4korr_def uint5korr_def uint6korr_def uint8korr_def
  unfolding sums(3)
  unfolding sums(2)
  unfolding sums(1) widen_lists
  by (simp_all add: push_bit_eq_mult algebra_simps)

lemma mi_korr_values:
  "mi_uint2korr A = word_of_int (le_val [A 1, A 0])"
  "mi_uint3korr A = word_of_int (le_val [A 2, A 1, A 0])"
  "mi_uint4korr A = word_of_int (le_val [A 3, A 2, A 1, A 0])"
  "mi_uint5korr A = word_of_int (le_val [A 4, A 3, A 2, A 1, A 0])"
  "mi_uint6korr A = word_of_int (le_val [A 5, A 4, A 3, A 2, A 1, A 0])"
  "mi_uint7korr A = word_of_int (le_val [A 6, A 5, A 4, A 3, A 2, A 1, A 0])"
  "mi_uint8korr A = word_of_int (le_val [A 7, A 6, A 5, A 4, A 3, A 2, A 1, A 0])"
  unfolding mi_uint2korr_def mi_uint3korr_def mi_uint4korr_def mi_uint5korr_def mi_uint6korr_def mi_uint7korr_def mi_uint8korr_def
  unfolding sums(3)
  unfolding sums(2)
  unfolding sums(1) widen_lists
  by (simp_all add: push_bit_eq_mult algebra_simps)

lemma le_val_of:
  "le_val [byte_of 0 v, byte_of 1 v] = v mod 256 ^ 2"
  "le_val [byte_of 0 v, byte_of 1 v, byte_of 2 v] = v mod 256 ^ 3"
  "le_val [byte_of 0 v, byte_of 1 v, byte_of 2 v, byte_of 3 v] = v mod 256 ^ 4"
  "le_val [byte_of 0 v, byte_of 1 v, byte_of 2 v, byte_of 3 v, byte_of 4 v] = v mod 256 ^ 5"
  "le_val [byte_of 0 v, byte_of 1 v, byte_of 2 v, byte_of 3 v, byte_of 4 v, byte_of 5 v] = v mod 256 ^ 6"
  "le_val [byte_of 0 v, byte_of 1 v, byte_of 2 v, byte_of 3 v, byte_of 4 v, byte_of 5 v, byte_of 6 v] = v mod 256 ^ 7"
  "le_val [byte_of 0 v, byte_of 1 v, byte_of 2 v, byte_of 3 v, byte_of 4 v, byte_of 5 v, byte_of 6 v, byte_of 7 v] = v mod 256 ^ 8"
  by (rule le_val_bytes [of v 2, unfolded upts list.map] le_val_bytes [of v 3, unfolded upts list.map]
      le_val_bytes [of v 4, unfolded upts list.map] le_val_bytes [of v 5, unfolded upts list.map] le_val_bytes [of v 6, unfolded upts list.map]
      le_val_bytes [of v 7, unfolded upts list.map] le_val_bytes [of v 8, unfolded upts list.map])+

lemma word_mod:
  "word_of_int (uint (a :: 16 word) mod 256 ^ 2) = a" "word_of_int (uint (b :: 32 word) mod 256 ^ 4) = b"
  "word_of_int (uint (c :: 64 word) mod 256 ^ 8) = c"
  using uint_lt2p [of a] uint_lt2p [of b] uint_lt2p [of c] by simp_all

text \<open>The bytes that the stores leave.\<close>

lemma updates:
  "T(0 := f 0, 1 := f 1) = (\<lambda>k::nat. if k < 2 then f k else T k)"
  "T(0 := f 0, 1 := f 1, 2 := f 2) = (\<lambda>k::nat. if k < 3 then f k else T k)"
  "T(0 := f 0, 1 := f 1, 2 := f 2, 3 := f 3) = (\<lambda>k::nat. if k < 4 then f k else T k)"
  "T(0 := f 0, 1 := f 1, 2 := f 2, 3 := f 3, 4 := f 4) = (\<lambda>k::nat. if k < 5 then f k else T k)"
  "T(0 := f 0, 1 := f 1, 2 := f 2, 3 := f 3, 4 := f 4, 5 := f 5) = (\<lambda>k::nat. if k < 6 then f k else T k)"
  by (auto simp: fun_eq_iff numeral_eq_Suc less_Suc_eq)

lemma store_bytes:
  "int2store T a = store_le 2 (uint a) T" "int3store T b = store_le 3 (uint b) T" "int4store T b = store_le 4 (uint b) T"
  "int5store T c = store_le 5 (uint c) T" "int6store T c = store_le 6 (uint c) T"
  unfolding int2store_def int3store_def int4store_def int5store_def int6store_def store_le_def
  unfolding bytes_of_word(2-6)
  unfolding bytes_of_word(1)
  by (rule updates)+

lemma int8store_bytes: "int8store T c = store_le 8 (uint c) T"
  unfolding int8store_def Let_def store_bytes(3) store_le_def 
  by (auto simp: fun_eq_iff low_half shifted_half)

lemma x86_equivalences:
  "x86_uint2korr A = uint2korr A" "x86_uint4korr A = uint4korr A" "x86_uint8korr A = uint8korr A"
  "x86_sint2korr A = sint2korr A" "x86_sint4korr A = sint4korr A" "x86_sint8korr A = sint8korr A"
  "x86_int2store T a = int2store T a" "x86_int4store T b = int4store T b" "x86_int8store T c = int8store T c"
proof -
  have l: "load_le 2 A = le_val [A 0, A 1]" "load_le 4 A = le_val [A 0, A 1, A 2, A 3]"
    "load_le 8 A = le_val [A 0, A 1, A 2, A 3, A 4, A 5, A 6, A 7]"
    by (simp_all only: load_le_def upts list.map)
  have "sint2korr A = sint (uint2korr A)" "sint4korr A = sint (uint4korr A)" "sint8korr A = sint (uint8korr A)"
    by (simp_all only: sint2korr_def sint4korr_def sint8korr_def uint2korr_def uint4korr_def)
  then show "x86_uint2korr A = uint2korr A" "x86_uint4korr A = uint4korr A" "x86_uint8korr A = uint8korr A"
    "x86_sint2korr A = sint2korr A" "x86_sint4korr A = sint4korr A" "x86_sint8korr A = sint8korr A"
    by (simp_all only: x86_uint2korr_def x86_uint4korr_def x86_uint8korr_def x86_sint2korr_def x86_sint4korr_def x86_sint8korr_def
        l korr_values)
qed (simp_all only: x86_int2store_def x86_int4store_def x86_int8store_def store_bytes int8store_bytes)

text \<open>
  The Intel versions of the storage macros agree with the portable ones on every buffer and every value, except that the
  three-byte read loads a fourth byte: on a buffer of exactly three bytes it reads past the end.
\<close>

theorem x86_equals_portable:
  "x86_uint2korr A = uint2korr A \<and> x86_uint4korr A = uint4korr A \<and> x86_uint8korr A = uint8korr A
   \<and> x86_sint2korr A = sint2korr A \<and> x86_sint4korr A = sint4korr A \<and> x86_sint8korr A = sint8korr A
   \<and> x86_int2store T a = int2store T a \<and> x86_int4store T b = int4store T b \<and> x86_int8store T c = int8store T c
   \<and> x86_uint3korr cap A = (if 4 \<le> cap then Inr (uint3korr A) else Inl OutOfBounds)"
proof -
  have l: "load_le 4 A = le_val [A 0, A 1, A 2, A 3]" by (simp_all only: load_le_def upts list.map)
  have m: "le_val [A 0, A 1, A 2] < 2 ^ 24" using le_val_bound [of "[A 0, A 1, A 2]"] by simp
  have "le_val [A 0, A 1, A 2, A 3] = le_val [A 0, A 1, A 2] + uint (A 3) * 2 ^ 24" by simp
  then have "le_val [A 0, A 1, A 2, A 3] mod 2 ^ 24 = le_val [A 0, A 1, A 2]"
    using m le_val_nonneg [of "[A 0, A 1, A 2]"] by (simp only: mod_mult_self1 mod_pos_pos_trivial)
  moreover have "(word_of_int v :: 32 word) AND 0xFFFFFF = word_of_int (v mod 2 ^ 24)" for v
  proof -
    have "(word_of_int v :: 32 word) AND 0xFFFFFF = take_bit 24 (word_of_int v)" by (simp add: take_bit_eq_mask mask_eq_exp_minus_1)
    also have "\<dots> = word_of_int (take_bit 24 v)" by (simp add: take_bit_of_int)
    finally show ?thesis by (simp add: take_bit_eq_mod)
  qed
  ultimately have "x86_uint3korr cap A = (if 4 \<le> cap then Inr (uint3korr A) else Inl OutOfBounds)"
    by (simp only: x86_uint3korr_def korr_values l guard_def) simp
  then show ?thesis by (simp only: x86_equivalences simp_thms)
qed

lemma store_le_at: "k < n \<Longrightarrow> store_le n v T k = byte_of k v"
  by (simp add: store_le_def)

text \<open>
  What was stored low byte first is read back: unchanged with two, four and eight bytes, signed and unsigned, and modulo the
  width with three, five and six; no byte beyond the width is touched.
\<close>

theorem store_korr_roundtrip:
  "uint2korr (int2store T a) = a \<and> uint4korr (int4store T b) = b \<and> uint8korr (int8store T c) = c
   \<and> sint2korr (int2store T a) = sint a \<and> sint4korr (int4store T b) = sint b \<and> sint8korr (int8store T c) = sint c
   \<and> uint (uint3korr (int3store T b)) = uint b mod 2 ^ 24 \<and> uint (uint5korr (int5store T c)) = uint c mod 2 ^ 40
   \<and> uint (uint6korr (int6store T c)) = uint c mod 2 ^ 48
   \<and> int3store T b 3 = T 3 \<and> int5store T c 5 = T 5 \<and> int8store T c 8 = T 8"
proof -
  have u: "uint2korr (int2store T a) = a" "uint4korr (int4store T b) = b" "uint8korr (int8store T c) = c"
    unfolding korr_values store_bytes int8store_bytes
    by (simp_all only: store_le_at le_val_of word_mod)
  have "sint2korr A = sint (uint2korr A)" "sint4korr A = sint (uint4korr A)" "sint8korr A = sint (uint8korr A)" for A
    by (simp_all only: sint2korr_def sint4korr_def sint8korr_def uint2korr_def uint4korr_def)
  moreover have "uint (uint3korr (int3store T b)) = uint b mod 2 ^ 24" "uint (uint5korr (int5store T c)) = uint c mod 2 ^ 40"
    "uint (uint6korr (int6store T c)) = uint c mod 2 ^ 48"
    unfolding korr_values store_bytes
    by (simp_all del: le_val.simps One_nat_def add: store_le_at le_val_of unsigned_of_int take_bit_eq_mod mod_mod_cancel)
  ultimately show ?thesis using u by (simp add: store_bytes int8store_bytes store_le_def)
qed

section \<open>High byte first is the mirror\<close>

lemma mi_store_at:
  "mi_int2store T a 1 = byte_of 0 (uint a)" "mi_int2store T a 0 = byte_of 1 (uint a)"
  "mi_int3store T b 2 = byte_of 0 (uint b)" "mi_int3store T b 1 = byte_of 1 (uint b)" "mi_int3store T b 0 = byte_of 2 (uint b)"
  "mi_int4store T b 3 = byte_of 0 (uint b)" "mi_int4store T b 2 = byte_of 1 (uint b)" "mi_int4store T b 1 = byte_of 2 (uint b)"
  "mi_int4store T b 0 = byte_of 3 (uint b)"
proof -
  have u: "uint (ucast a :: 32 word) = uint a" by (simp add: unsigned_ucast_eq take_bit_eq_mod) (use uint_lt2p [of a] in simp)
  have i: "(ucast b :: 32 word) = b" by simp
  show "mi_int2store T a 1 = byte_of 0 (uint a)" "mi_int2store T a 0 = byte_of 1 (uint a)"
    unfolding mi_int2store_def Let_def
    by (simp_all only: bytes_of_word(2) fun_upd_apply) (simp_all only: bytes_of_word(1) u, simp_all)
  show "mi_int3store T b 2 = byte_of 0 (uint b)" "mi_int3store T b 1 = byte_of 1 (uint b)" "mi_int3store T b 0 = byte_of 2 (uint b)"
    "mi_int4store T b 3 = byte_of 0 (uint b)" "mi_int4store T b 2 = byte_of 1 (uint b)" "mi_int4store T b 1 = byte_of 2 (uint b)"
    "mi_int4store T b 0 = byte_of 3 (uint b)"
    unfolding mi_int3store_def mi_int4store_def Let_def i
    unfolding bytes_of_word(2-4)
    unfolding bytes_of_word(1)
    by simp_all
qed

text \<open>
  High byte first: what was stored is read back, unchanged with two, four and eight bytes and modulo the width with three,
  five, six and seven; and every read is the low-byte-first read of the reversed bytes.
\<close>

theorem mi_store_korr_roundtrip:
  "mi_uint2korr (mi_int2store T a) = a \<and> mi_uint4korr (mi_int4store T b) = b \<and> mi_uint8korr (mi_int8store T c) = c
   \<and> mi_sint8korr (mi_int8store T c) = sint c
   \<and> uint (mi_uint3korr (mi_int3store T b)) = uint b mod 2 ^ 24 \<and> uint (mi_uint5korr (mi_int5store T c)) = uint c mod 2 ^ 40
   \<and> uint (mi_uint6korr (mi_int6store T c)) = uint c mod 2 ^ 48 \<and> uint (mi_uint7korr (mi_int7store T c)) = uint c mod 2 ^ 56
   \<and> mi_uint2korr A = uint2korr (\<lambda>k. A (1 - k)) \<and> mi_uint4korr A = uint4korr (\<lambda>k. A (3 - k)) \<and> mi_uint8korr A = uint8korr (\<lambda>k. A (7 - k))"
proof -
  have s5: "mi_int5store T c 4 = byte_of 0 (uint c)" "mi_int5store T c 3 = byte_of 1 (uint c)" "mi_int5store T c 2 = byte_of 2 (uint c)"
    "mi_int5store T c 1 = byte_of 3 (uint c)" "mi_int5store T c 0 = byte_of 4 (uint c)"
    unfolding mi_int5store_def Let_def
    unfolding bytes_of_word(2-4)
    unfolding bytes_of_word(1)
    unfolding halves
    by (simp_all add: shifted_half)
  have s6: "mi_int6store T c 5 = byte_of 0 (uint c)" "mi_int6store T c 4 = byte_of 1 (uint c)" "mi_int6store T c 3 = byte_of 2 (uint c)"
    "mi_int6store T c 2 = byte_of 3 (uint c)" "mi_int6store T c 1 = byte_of 4 (uint c)" "mi_int6store T c 0 = byte_of 5 (uint c)"
    unfolding mi_int6store_def Let_def
    unfolding bytes_of_word(2-4)
    unfolding bytes_of_word(1)
    unfolding halves
    by (simp_all add: shifted_half)
  have s7: "mi_int7store T c 6 = byte_of 0 (uint c)" "mi_int7store T c 5 = byte_of 1 (uint c)" "mi_int7store T c 4 = byte_of 2 (uint c)"
    "mi_int7store T c 3 = byte_of 3 (uint c)" "mi_int7store T c 2 = byte_of 4 (uint c)" "mi_int7store T c 1 = byte_of 5 (uint c)"
    "mi_int7store T c 0 = byte_of 6 (uint c)"
    unfolding mi_int7store_def Let_def
    unfolding bytes_of_word(2-4)
    unfolding bytes_of_word(1)
    unfolding halves
    by (simp_all add: shifted_half)
  have s8: "mi_int8store T c 7 = byte_of 0 (uint c)" "mi_int8store T c 6 = byte_of 1 (uint c)" "mi_int8store T c 5 = byte_of 2 (uint c)"
    "mi_int8store T c 4 = byte_of 3 (uint c)" "mi_int8store T c 3 = byte_of 4 (uint c)" "mi_int8store T c 2 = byte_of 5 (uint c)"
    "mi_int8store T c 1 = byte_of 6 (uint c)" "mi_int8store T c 0 = byte_of 7 (uint c)"
    unfolding mi_int8store_def Let_def by (simp_all add: mi_store_at [simplified] halves [simplified] shifted_half)
  have "mi_uint2korr (mi_int2store T a) = a" "mi_uint4korr (mi_int4store T b) = b" "mi_uint8korr (mi_int8store T c) = c"
    unfolding mi_korr_values mi_store_at s8 le_val_of by (rule word_mod)+
  moreover have "uint (mi_uint3korr (mi_int3store T b)) = uint b mod 2 ^ 24" "uint (mi_uint5korr (mi_int5store T c)) = uint c mod 2 ^ 40"
    "uint (mi_uint6korr (mi_int6store T c)) = uint c mod 2 ^ 48" "uint (mi_uint7korr (mi_int7store T c)) = uint c mod 2 ^ 56"
    unfolding mi_korr_values mi_store_at s5 s6 s7 le_val_of by (simp_all add: unsigned_of_int take_bit_eq_mod mod_mod_cancel)
  ultimately show ?thesis unfolding mi_sint8korr_def by (simp add: mi_korr_values korr_values del: le_val.simps)
qed

section \<open>Signed reads\<close>

lemma or_disjoint: "(\<And>n. \<not> (bit a n \<and> bit b n)) \<Longrightarrow> a OR b = a + (b :: 'a::len word)"
  by (rule disjunctive_add [symmetric]) auto

lemma three_bytes: "push_bit 16 (ucast c) OR push_bit 8 (ucast b) OR ucast a = (word_of_int (le_val [a, b, c]) :: 32 word)"
proof -
  have 1: "push_bit 8 (ucast b) OR ucast a = push_bit 8 (ucast b) + (ucast a :: 32 word)"
    by (rule or_disjoint) (auto simp: bit_simps dest: bit_imp_le_length)
  have "push_bit 16 (ucast c) OR push_bit 8 (ucast b) OR ucast a = push_bit 16 (ucast c) + (push_bit 8 (ucast b) OR ucast a :: 32 word)"
    by (rule or_disjoint) (auto simp: bit_simps dest: bit_imp_le_length)
  also have "\<dots> = push_bit 16 (ucast c) + (push_bit 8 (ucast b) + ucast a)" by (simp only: 1)
  also have "\<dots> = ucast a + push_bit 8 (ucast b) + push_bit 16 (ucast c)" by (simp only: add.commute add.left_commute)
  finally show ?thesis by (simp only: sums(2))
qed

lemma sign_bit: "A AND 128 \<noteq> 0 \<longleftrightarrow> 128 \<le> uint (A :: 8 word)"
proof -
  have "A AND 128 = 0 \<longleftrightarrow> \<not> bit A 7"
    using and_exp_eq_0_iff_not_bit [of A 7] by simp
  also have "bit A 7 \<longleftrightarrow> odd (uint A div 128)" by (simp add: bit_unsigned_iff bit_iff_odd [of "uint A" 7, simplified, symmetric])
  also have "uint A div 128 = (if 128 \<le> uint A then 1 else 0)" using uint_lt2p [of A] by (simp, linarith)
  finally show ?thesis by (simp split: if_splits)
qed

lemma sign_extended:
  "sint (if c AND 128 \<noteq> 0 then push_bit 24 255 OR push_bit 16 (ucast c) OR push_bit 8 (ucast b) OR ucast a
     else push_bit 16 (ucast c) OR push_bit 8 (ucast b) OR ucast a :: 32 word)
   = (let v = le_val [a, b, c] in if 2 ^ 23 \<le> v then v - 2 ^ 24 else v)"
proof -
  let ?v = "le_val [a, b, c]"
  have u: "uint a < 256" "uint b < 256" "uint c < 256" "0 \<le> uint a" "0 \<le> uint b"
    using uint_lt2p [of a] uint_lt2p [of b] uint_lt2p [of c] by simp_all
  have v: "?v = uint a + 256 * uint b + 65536 * uint c" by simp
  have "128 \<le> uint c \<longleftrightarrow> 8388608 \<le> uint a + 256 * uint b + 65536 * uint c" using u by (intro iffI; linarith)
  then have c: "c AND 128 \<noteq> 0 \<longleftrightarrow> 2 ^ 23 \<le> ?v" unfolding sign_bit v by simp
  have lo: "push_bit 16 (ucast c) OR push_bit 8 (ucast b) OR ucast a = (word_of_int ?v :: 32 word)" by (rule three_bytes)
  have d: "(push_bit 24 x :: 32 word) OR (push_bit 16 (ucast c) OR push_bit 8 (ucast b) OR ucast a)
      = push_bit 24 x + (push_bit 16 (ucast c) OR push_bit 8 (ucast b) OR ucast a)" for x
    by (rule or_disjoint) (auto simp: bit_simps dest: bit_imp_le_length)
  have "push_bit 24 255 + (word_of_int ?v :: 32 word) = word_of_int (?v - 2 ^ 24)"
    by (simp add: push_bit_eq_mult del: le_val.simps)
  with d [of 255] have hi: "push_bit 24 255 OR push_bit 16 (ucast c) OR push_bit 8 (ucast b) OR ucast a = (word_of_int (?v - 2 ^ 24) :: 32 word)"
    by (simp only: lo)
  have b: "0 \<le> ?v" "?v < 2 ^ 24" using le_val_nonneg [of "[a, b, c]"] le_val_bound [of "[a, b, c]"] by (simp_all only: power_numeral) simp_all
  have "sint (word_of_int ?v :: 32 word) = ?v" if "\<not> 2 ^ 23 \<le> ?v"
    using that b by (simp only: int_word_sint) (simp del: le_val.simps)
  moreover have "sint (word_of_int (?v - 2 ^ 24) :: 32 word) = ?v - 2 ^ 24" if "2 ^ 23 \<le> ?v"
    using that b by (simp only: int_word_sint) (simp del: le_val.simps)
  ultimately show ?thesis
    unfolding hi
    unfolding lo c Let_def
    by (cases "2 ^ 23 \<le> ?v") (simp_all only: if_True if_False simp_thms)
qed

text \<open>
  The signed reads: three bytes are sign-extended, and two, four and eight bytes are read as the two's complement value of the
  unsigned read, in both byte orders.
\<close>

theorem signed_reads:
  "sint3korr A = (let v = le_val [A 0, A 1, A 2] in if 2 ^ 23 \<le> v then v - 2 ^ 24 else v)
   \<and> mi_sint3korr A = sint3korr (\<lambda>k. A (2 - k))
   \<and> sint2korr A = sint (uint2korr A) \<and> sint4korr A = sint (uint4korr A) \<and> sint8korr A = sint (uint8korr A)
   \<and> mi_sint2korr A = sint (mi_uint2korr A) \<and> mi_sint4korr A = sint (mi_uint4korr A) \<and> mi_sint8korr A = sint (mi_uint8korr A)
   \<and> mi_sint1korr A = sint (mi_uint1korr A)"
proof -
  have "push_bit 8 (scast x) = (push_bit 8 (ucast x) :: 16 word)" "push_bit 24 (scast x) = (push_bit 24 (ucast x) :: 32 word)" for x :: "8 word"
    by (rule bit_word_eqI; auto simp: bit_simps)+
  then have "mi_sint2korr A = sint (mi_uint2korr A)" "mi_sint4korr A = sint (mi_uint4korr A)"
    by (simp_all add: mi_sint2korr_def mi_sint4korr_def mi_uint2korr_def mi_uint4korr_def)
  moreover have "sint3korr B = (let v = le_val [B 0, B 1, B 2] in if 2 ^ 23 \<le> v then v - 2 ^ 24 else v)"
    "mi_sint3korr B = (let v = le_val [B 2, B 1, B 0] in if 2 ^ 23 \<le> v then v - 2 ^ 24 else v)" for B
    by (simp_all only: sint3korr_def mi_sint3korr_def sign_extended)
  ultimately show ?thesis
    by (simp add: sint2korr_def sint4korr_def sint8korr_def uint2korr_def uint4korr_def
        mi_sint8korr_def mi_sint1korr_def mi_uint1korr_def del: le_val.simps)
qed

end
