(* ===== verification/FloatStore.thy ===== *)
theory FloatStore
  imports ByteOrder
begin

text \<open>
  The rest of the storage macros of \<open>my_global.h\<close> and \<open>myisampack.h\<close>: the reads and stores that the Intel section writes out
  byte by byte, the macros in the format of the machine, row and file positions, and floating point numbers. A macro on a
  \<open>float\<close> or \<open>double\<close> copies the bytes of a variable; the variable is its memory, a function from offsets to bytes, and one
  variant exists for each order in which a machine keeps these bytes.
\<close>

unbundle bit_operations_syntax

section \<open>Intel, byte by byte\<close>

definition x86_sint3korr :: "(nat \<Rightarrow> 8 word) \<Rightarrow> int" where
  "x86_sint3korr A = sint (if A 2 AND 128 \<noteq> 0 then
       push_bit 24 255 OR push_bit 16 (ucast (A 2)) OR push_bit 8 (ucast (A 1)) OR ucast (A 0)
     else push_bit 16 (ucast (A 2)) OR push_bit 8 (ucast (A 1)) OR ucast (A 0) :: 32 word)"

definition purify_uint3korr :: "(nat \<Rightarrow> 8 word) \<Rightarrow> 32 word" where
  "purify_uint3korr A = ucast (A 0) + push_bit 8 (ucast (A 1)) + push_bit 16 (ucast (A 2))"

definition x86_uint5korr :: "(nat \<Rightarrow> 8 word) \<Rightarrow> 64 word" where
  "x86_uint5korr A = ucast (ucast (A 0) + push_bit 8 (ucast (A 1)) + push_bit 16 (ucast (A 2)) + push_bit 24 (ucast (A 3)) :: 32 word)
     + push_bit 32 (ucast (A 4))"

definition x86_uint6korr :: "(nat \<Rightarrow> 8 word) \<Rightarrow> 64 word" where
  "x86_uint6korr A = ucast (ucast (A 0) + push_bit 8 (ucast (A 1)) + push_bit 16 (ucast (A 2)) + push_bit 24 (ucast (A 3)) :: 32 word)
     + push_bit 32 (ucast (A 4)) + push_bit 40 (ucast (A 5))"

definition x86_int3store :: "(nat \<Rightarrow> 8 word) \<Rightarrow> 32 word \<Rightarrow> nat \<Rightarrow> 8 word" where
  "x86_int3store T a = T(0 := ucast a, 1 := ucast (drop_bit 8 a), 2 := ucast (drop_bit 16 a))"

definition x86_int5store :: "(nat \<Rightarrow> 8 word) \<Rightarrow> 64 word \<Rightarrow> nat \<Rightarrow> 8 word" where
  "x86_int5store T a = T(0 := ucast a, 1 := ucast (drop_bit 8 a), 2 := ucast (drop_bit 16 a), 3 := ucast (drop_bit 24 a),
     4 := ucast (drop_bit 32 a))"

definition x86_int6store :: "(nat \<Rightarrow> 8 word) \<Rightarrow> 64 word \<Rightarrow> nat \<Rightarrow> 8 word" where
  "x86_int6store T a = T(0 := ucast a, 1 := ucast (drop_bit 8 a), 2 := ucast (drop_bit 16 a), 3 := ucast (drop_bit 24 a),
     4 := ucast (drop_bit 32 a), 5 := ucast (drop_bit 40 a))"

section \<open>Network order and the format of the machine\<close>

definition int4net :: "(nat \<Rightarrow> 8 word) \<Rightarrow> int" where
  "int4net A = sint (ucast (A 3) OR push_bit 8 (ucast (A 2)) OR push_bit 16 (ucast (A 1)) OR push_bit 24 (ucast (A 0)) :: 32 word)"

text \<open>A variable of a machine that keeps the high byte first.\<close>

definition load_be :: "nat \<Rightarrow> (nat \<Rightarrow> 8 word) \<Rightarrow> int" where
  "load_be n V = le_val (map (\<lambda>k. V (n - 1 - k)) [0..<n])"

definition big_ushortget :: "(nat \<Rightarrow> 8 word) \<Rightarrow> 16 word" where
  "big_ushortget M = ucast (M 1) + push_bit 8 (ucast (M 0))"

definition big_shortget :: "(nat \<Rightarrow> 8 word) \<Rightarrow> int" where
  "big_shortget M = sint (ucast (M 1) + push_bit 8 (ucast (M 0)) :: 16 word)"

definition big_longget :: "(nat \<Rightarrow> 8 word) \<Rightarrow> (nat \<Rightarrow> 8 word) \<Rightarrow> int" where
  "big_longget def_temp M = (let def_temp = def_temp(0 := M 0, 1 := M 1, 2 := M 2, 3 := M 3) in sint (word_of_int (load_be 4 def_temp) :: 32 word))"

definition big_ulongget :: "(nat \<Rightarrow> 8 word) \<Rightarrow> (nat \<Rightarrow> 8 word) \<Rightarrow> 32 word" where
  "big_ulongget def_temp M = (let def_temp = def_temp(0 := M 0, 1 := M 1, 2 := M 2, 3 := M 3) in word_of_int (load_be 4 def_temp))"

definition big_shortstore :: "(nat \<Rightarrow> 8 word) \<Rightarrow> 16 word \<Rightarrow> nat \<Rightarrow> 8 word" where
  "big_shortstore T a = (let def_temp = ucast a :: 32 word in T(1 := ucast def_temp, 0 := ucast (drop_bit 8 def_temp)))"

definition big_longstore :: "(nat \<Rightarrow> 8 word) \<Rightarrow> 32 word \<Rightarrow> nat \<Rightarrow> 8 word" where
  "big_longstore T a = T(3 := ucast a, 2 := ucast (drop_bit 8 a), 1 := ucast (drop_bit 16 a), 0 := ucast (drop_bit 24 a))"

text \<open>The same macros for a machine with the low byte first go through the macros above; \<open>memcpy_fixed\<close> copies \<open>n\<close> bytes.\<close>

definition shortget :: "(nat \<Rightarrow> 8 word) \<Rightarrow> int" where
  "shortget M = x86_sint2korr M"

definition ushortget :: "(nat \<Rightarrow> 8 word) \<Rightarrow> 16 word" where
  "ushortget M = x86_uint2korr M"

definition longget :: "(nat \<Rightarrow> 8 word) \<Rightarrow> int" where
  "longget M = x86_sint4korr M"

definition ulongget :: "(nat \<Rightarrow> 8 word) \<Rightarrow> 32 word" where
  "ulongget M = x86_uint4korr M"

definition shortstore :: "(nat \<Rightarrow> 8 word) \<Rightarrow> 16 word \<Rightarrow> nat \<Rightarrow> 8 word" where
  "shortstore T V = x86_int2store T V"

definition longstore :: "(nat \<Rightarrow> 8 word) \<Rightarrow> 32 word \<Rightarrow> nat \<Rightarrow> 8 word" where
  "longstore T V = x86_int4store T V"

definition memcpy_fixed :: "(nat \<Rightarrow> 8 word) \<Rightarrow> (nat \<Rightarrow> 8 word) \<Rightarrow> nat \<Rightarrow> nat \<Rightarrow> 8 word" where
  "memcpy_fixed D S n = (\<lambda>k. if k < n then S k else D k)"

definition longlongget :: "(nat \<Rightarrow> 8 word) \<Rightarrow> (nat \<Rightarrow> 8 word) \<Rightarrow> nat \<Rightarrow> 8 word" where
  "longlongget V M = memcpy_fixed V M 8"

definition longlongstore :: "(nat \<Rightarrow> 8 word) \<Rightarrow> (nat \<Rightarrow> 8 word) \<Rightarrow> nat \<Rightarrow> 8 word" where
  "longlongstore T V = memcpy_fixed T V 8"

section \<open>Row numbers and file positions\<close>

text \<open>With \<open>BIG_TABLES\<close>, or with offsets of more than four bytes, all eight bytes are used; otherwise the first four are 0.\<close>

definition big_rowstore :: "(nat \<Rightarrow> 8 word) \<Rightarrow> 64 word \<Rightarrow> nat \<Rightarrow> 8 word" where
  "big_rowstore T a = mi_int8store T a"

definition big_rowkorr :: "(nat \<Rightarrow> 8 word) \<Rightarrow> 64 word" where
  "big_rowkorr T = mi_uint8korr T"

definition second_half :: "((nat \<Rightarrow> 8 word) \<Rightarrow> nat \<Rightarrow> 8 word) \<Rightarrow> (nat \<Rightarrow> 8 word) \<Rightarrow> nat \<Rightarrow> 8 word" where
  "second_half st T = (\<lambda>k. if k < 4 then T k else st (\<lambda>i. T (i + 4)) (k - 4))"

definition mi_rowstore :: "(nat \<Rightarrow> 8 word) \<Rightarrow> 32 word \<Rightarrow> nat \<Rightarrow> 8 word" where
  "mi_rowstore T a = second_half (\<lambda>U. mi_int4store U a) (mi_int4store T 0)"

definition mi_rowkorr :: "(nat \<Rightarrow> 8 word) \<Rightarrow> 32 word" where
  "mi_rowkorr T = mi_uint4korr (\<lambda>k. T (k + 4))"

definition HA_OFFSET_ERROR :: "32 word" where
  "HA_OFFSET_ERROR = NOT 0"

definition mi_sizestore :: "(nat \<Rightarrow> 8 word) \<Rightarrow> 32 word \<Rightarrow> nat \<Rightarrow> 8 word" where
  "mi_sizestore T a = (if a = HA_OFFSET_ERROR then (\<lambda>k. if k < 8 then 255 else T k)
     else second_half (\<lambda>U. mi_int4store U a) (mi_int4store T 0))"

definition mi_sizekorr :: "(nat \<Rightarrow> 8 word) \<Rightarrow> 32 word" where
  "mi_sizekorr T = mi_uint4korr (\<lambda>k. T (k + 4))"

section \<open>Floating point, low byte first in storage\<close>

text \<open>Intel: a \<open>double\<close> is read and stored as two \<open>long\<close>s through a union, a \<open>float\<close> by a load or a copy.\<close>

definition x86_doubleget :: "(nat \<Rightarrow> 8 word) \<Rightarrow> (nat \<Rightarrow> 8 word) \<Rightarrow> nat \<Rightarrow> 8 word" where
  "x86_doubleget V M = (let m0 = load_le 4 M; m1 = load_le 4 (\<lambda>k. M (k + 4)) in second_half (store_le 4 m1) (store_le 4 m0 V))"

definition x86_doublestore :: "(nat \<Rightarrow> 8 word) \<Rightarrow> (nat \<Rightarrow> 8 word) \<Rightarrow> nat \<Rightarrow> 8 word" where
  "x86_doublestore T V = (let T = store_le 4 (load_le 4 V) T in second_half (store_le 4 (load_le 4 (\<lambda>k. V (k + 4)))) T)"

definition x86_float4get :: "(nat \<Rightarrow> 8 word) \<Rightarrow> (nat \<Rightarrow> 8 word) \<Rightarrow> nat \<Rightarrow> 8 word" where
  "x86_float4get V M = store_le 4 (load_le 4 M) V"

definition x86_float8get :: "(nat \<Rightarrow> 8 word) \<Rightarrow> (nat \<Rightarrow> 8 word) \<Rightarrow> nat \<Rightarrow> 8 word" where
  "x86_float8get V M = x86_doubleget V M"

definition x86_float4store :: "(nat \<Rightarrow> 8 word) \<Rightarrow> (nat \<Rightarrow> 8 word) \<Rightarrow> nat \<Rightarrow> 8 word" where
  "x86_float4store V M = memcpy_fixed V M 4"

definition floatstore :: "(nat \<Rightarrow> 8 word) \<Rightarrow> (nat \<Rightarrow> 8 word) \<Rightarrow> nat \<Rightarrow> 8 word" where
  "floatstore T V = memcpy_fixed T V 4"

definition floatget :: "(nat \<Rightarrow> 8 word) \<Rightarrow> (nat \<Rightarrow> 8 word) \<Rightarrow> nat \<Rightarrow> 8 word" where
  "floatget V M = memcpy_fixed V M 4"

definition x86_float8store :: "(nat \<Rightarrow> 8 word) \<Rightarrow> (nat \<Rightarrow> 8 word) \<Rightarrow> nat \<Rightarrow> 8 word" where
  "x86_float8store V M = x86_doublestore V M"

text \<open>Variables with the high byte first.\<close>

definition big_float4store :: "(nat \<Rightarrow> 8 word) \<Rightarrow> (nat \<Rightarrow> 8 word) \<Rightarrow> nat \<Rightarrow> 8 word" where
  "big_float4store T A = T(0 := A 3, 1 := A 2, 2 := A 1, 3 := A 0)"

definition big_float4get :: "(nat \<Rightarrow> 8 word) \<Rightarrow> (nat \<Rightarrow> 8 word) \<Rightarrow> nat \<Rightarrow> 8 word" where
  "big_float4get V M = V(0 := M 3, 1 := M 2, 2 := M 1, 3 := M 0)"

definition big_float8store :: "(nat \<Rightarrow> 8 word) \<Rightarrow> (nat \<Rightarrow> 8 word) \<Rightarrow> nat \<Rightarrow> 8 word" where
  "big_float8store T V = T(0 := V 7, 1 := V 6, 2 := V 5, 3 := V 4, 4 := V 3, 5 := V 2, 6 := V 1, 7 := V 0)"

definition big_float8get :: "(nat \<Rightarrow> 8 word) \<Rightarrow> (nat \<Rightarrow> 8 word) \<Rightarrow> nat \<Rightarrow> 8 word" where
  "big_float8get V M = V(0 := M 7, 1 := M 6, 2 := M 5, 3 := M 4, 4 := M 3, 5 := M 2, 6 := M 1, 7 := M 0)"

text \<open>Variables with the low byte first, and a \<open>double\<close> with the words the other way round.\<close>

definition little_float4get :: "(nat \<Rightarrow> 8 word) \<Rightarrow> (nat \<Rightarrow> 8 word) \<Rightarrow> nat \<Rightarrow> 8 word" where
  "little_float4get V M = memcpy_fixed V M 4"

definition little_float4store :: "(nat \<Rightarrow> 8 word) \<Rightarrow> (nat \<Rightarrow> 8 word) \<Rightarrow> nat \<Rightarrow> 8 word" where
  "little_float4store V M = memcpy_fixed V M 4"

definition swapped_doublestore :: "(nat \<Rightarrow> 8 word) \<Rightarrow> (nat \<Rightarrow> 8 word) \<Rightarrow> nat \<Rightarrow> 8 word" where
  "swapped_doublestore T V = T(0 := V 4, 1 := V 5, 2 := V 6, 3 := V 7, 4 := V 0, 5 := V 1, 6 := V 2, 7 := V 3)"

definition swapped_doubleget :: "(nat \<Rightarrow> 8 word) \<Rightarrow> (nat \<Rightarrow> 8 word) \<Rightarrow> nat \<Rightarrow> 8 word" where
  "swapped_doubleget V M = V(0 := M 4, 1 := M 5, 2 := M 6, 3 := M 7, 4 := M 0, 5 := M 1, 6 := M 2, 7 := M 3)"

section \<open>Floating point, high byte first in storage\<close>

definition big_mi_float4store :: "(nat \<Rightarrow> 8 word) \<Rightarrow> (nat \<Rightarrow> 8 word) \<Rightarrow> nat \<Rightarrow> 8 word" where
  "big_mi_float4store T A = T(0 := A 0, 1 := A 1, 2 := A 2, 3 := A 3)"

definition big_mi_float4get :: "(nat \<Rightarrow> 8 word) \<Rightarrow> (nat \<Rightarrow> 8 word) \<Rightarrow> nat \<Rightarrow> 8 word" where
  "big_mi_float4get V M = V(0 := M 0, 1 := M 1, 2 := M 2, 3 := M 3)"

definition big_mi_float8store :: "(nat \<Rightarrow> 8 word) \<Rightarrow> (nat \<Rightarrow> 8 word) \<Rightarrow> nat \<Rightarrow> 8 word" where
  "big_mi_float8store T V = T(0 := V 0, 1 := V 1, 2 := V 2, 3 := V 3, 4 := V 4, 5 := V 5, 6 := V 6, 7 := V 7)"

definition big_mi_float8get :: "(nat \<Rightarrow> 8 word) \<Rightarrow> (nat \<Rightarrow> 8 word) \<Rightarrow> nat \<Rightarrow> 8 word" where
  "big_mi_float8get V M = V(0 := M 0, 1 := M 1, 2 := M 2, 3 := M 3, 4 := M 4, 5 := M 5, 6 := M 6, 7 := M 7)"

definition mi_float4store :: "(nat \<Rightarrow> 8 word) \<Rightarrow> (nat \<Rightarrow> 8 word) \<Rightarrow> nat \<Rightarrow> 8 word" where
  "mi_float4store T A = T(0 := A 3, 1 := A 2, 2 := A 1, 3 := A 0)"

definition mi_float4get :: "(nat \<Rightarrow> 8 word) \<Rightarrow> (nat \<Rightarrow> 8 word) \<Rightarrow> nat \<Rightarrow> 8 word" where
  "mi_float4get V M = V(0 := M 3, 1 := M 2, 2 := M 1, 3 := M 0)"

definition swapped_mi_float8store :: "(nat \<Rightarrow> 8 word) \<Rightarrow> (nat \<Rightarrow> 8 word) \<Rightarrow> nat \<Rightarrow> 8 word" where
  "swapped_mi_float8store T V = T(0 := V 3, 1 := V 2, 2 := V 1, 3 := V 0, 4 := V 7, 5 := V 6, 6 := V 5, 7 := V 4)"

definition swapped_mi_float8get :: "(nat \<Rightarrow> 8 word) \<Rightarrow> (nat \<Rightarrow> 8 word) \<Rightarrow> nat \<Rightarrow> 8 word" where
  "swapped_mi_float8get V M = V(0 := M 3, 1 := M 2, 2 := M 1, 3 := M 0, 4 := M 7, 5 := M 6, 6 := M 5, 7 := M 4)"

definition mi_float8store :: "(nat \<Rightarrow> 8 word) \<Rightarrow> (nat \<Rightarrow> 8 word) \<Rightarrow> nat \<Rightarrow> 8 word" where
  "mi_float8store T V = T(0 := V 7, 1 := V 6, 2 := V 5, 3 := V 4, 4 := V 3, 5 := V 2, 6 := V 1, 7 := V 0)"

definition mi_float8get :: "(nat \<Rightarrow> 8 word) \<Rightarrow> (nat \<Rightarrow> 8 word) \<Rightarrow> nat \<Rightarrow> 8 word" where
  "mi_float8get V M = V(0 := M 7, 1 := M 6, 2 := M 5, 3 := M 4, 4 := M 3, 5 := M 2, 6 := M 1, 7 := M 0)"

section \<open>The Intel section agrees with the portable one\<close>

theorem x86_byte_macros:
  "x86_sint3korr A = sint3korr A \<and> purify_uint3korr A = uint3korr A \<and> x86_uint5korr A = uint5korr A \<and> x86_uint6korr A = uint6korr A
   \<and> x86_int3store T b = int3store T b \<and> x86_int5store T c = int5store T c \<and> x86_int6store T c = int6store T c"
  by (simp only: x86_sint3korr_def sint3korr_def purify_uint3korr_def uint3korr_def x86_uint5korr_def uint5korr_def x86_uint6korr_def
      uint6korr_def x86_int3store_def int3store_def x86_int5store_def int5store_def x86_int6store_def int6store_def simp_thms)

section \<open>Stored numbers do not depend on the machine\<close>

lemma byte_of_Cons: "byte_of 0 (uint b + 256 * v) = b" "byte_of (Suc k) (uint b + 256 * v) = byte_of k v"
proof -
  have u: "0 \<le> uint b" "uint b < 256" using uint_lt2p [of b] by simp_all
  then have "(uint b + 256 * v) div 256 = v" by simp
  then show "byte_of (Suc k) (uint b + 256 * v) = byte_of k v" by (simp add: byte_of_def zdiv_zmult2_eq)
  show "byte_of 0 (uint b + 256 * v) = b" 
  proof -
    have "uint (word_of_int (uint b + 256 * v) :: 8 word) = take_bit 8 (uint b + 256 * v)" by (simp only: unsigned_of_int) simp
    also have "\<dots> = uint b" using u by (simp add: take_bit_eq_mod)
    finally show ?thesis by (simp only: byte_of_def power_0 div_by_1 word_uint_eq_iff)
  qed
qed

lemma byte_of_le_val: "k < length bs \<Longrightarrow> byte_of k (le_val bs) = bs ! k"
proof (induction bs arbitrary: k)
  case (Cons b bs)
  then show ?case by (cases k) (simp_all add: byte_of_Cons del: One_nat_def)
qed simp

lemma store_load: "store_le n (load_le n V) T = memcpy_fixed T V n"
  by (auto simp: fun_eq_iff store_le_def load_le_def memcpy_fixed_def byte_of_le_val)

lemma two_halves: "second_half (store_le 4 (load_le 4 (\<lambda>k. V (k + 4)))) (store_le 4 (load_le 4 V) T) = memcpy_fixed T V 8"
  by (auto simp: fun_eq_iff store_load second_half_def memcpy_fixed_def)

lemma x86_double: "x86_doubleget V M = memcpy_fixed V M 8" "x86_doublestore T V = memcpy_fixed T V 8"
  by (simp_all only: x86_doubleget_def x86_doublestore_def Let_def two_halves)

text \<open>How the three kinds of machine keep the bits \<open>w\<close> of a number in a variable.\<close>

definition little :: "'a::len word \<Rightarrow> nat \<Rightarrow> 8 word" where
  "little w k = byte_of k (uint w)"

definition big :: "nat \<Rightarrow> 'a::len word \<Rightarrow> nat \<Rightarrow> 8 word" where
  "big n w k = byte_of (n - 1 - k) (uint w)"

definition swapped :: "64 word \<Rightarrow> nat \<Rightarrow> 8 word" where
  "swapped w k = byte_of (if k < 4 then k + 4 else k - 4) (uint w)"

definition bytes_low :: "nat \<Rightarrow> 'a::len word \<Rightarrow> 8 word list" where
  "bytes_low n w = map (\<lambda>k. byte_of k (uint w)) [0..<n]"

text \<open>
  A \<open>double\<close> is stored low byte first by \<open>float8store\<close> and high byte first by \<open>mi_float8store\<close>, whichever way the machine keeps
  its variables, and each machine's \<open>float8get\<close> and \<open>mi_float8get\<close> turn these bytes into its own variable: what one machine
  stored, each of them reads.
\<close>

lemmas float8_defs = x86_float8store_def x86_float8get_def x86_double memcpy_fixed_def
  big_float8store_def big_float8get_def swapped_doublestore_def swapped_doubleget_def big_mi_float8store_def big_mi_float8get_def
  swapped_mi_float8store_def swapped_mi_float8get_def mi_float8store_def mi_float8get_def

theorem float8_machine_independent:
  fixes w :: "64 word"
  shows "map (x86_float8store T (little w)) [0..<8] = bytes_low 8 w \<and> map (big_float8store T (big 8 w)) [0..<8] = bytes_low 8 w
   \<and> map (swapped_doublestore T (swapped w)) [0..<8] = bytes_low 8 w
   \<and> map (mi_float8store T (little w)) [0..<8] = rev (bytes_low 8 w) \<and> map (big_mi_float8store T (big 8 w)) [0..<8] = rev (bytes_low 8 w)
   \<and> map (swapped_mi_float8store T (swapped w)) [0..<8] = rev (bytes_low 8 w)
   \<and> map (x86_float8get V (nth (bytes_low 8 w))) [0..<8] = map (little w) [0..<8]
   \<and> map (big_float8get V (nth (bytes_low 8 w))) [0..<8] = map (big 8 w) [0..<8]
   \<and> map (swapped_doubleget V (nth (bytes_low 8 w))) [0..<8] = map (swapped w) [0..<8]
   \<and> map (mi_float8get V (nth (rev (bytes_low 8 w)))) [0..<8] = map (little w) [0..<8]
   \<and> map (big_mi_float8get V (nth (rev (bytes_low 8 w)))) [0..<8] = map (big 8 w) [0..<8]
   \<and> map (swapped_mi_float8get V (nth (rev (bytes_low 8 w)))) [0..<8] = map (swapped w) [0..<8]"
  by (simp add: float8_defs upts bytes_low_def little_def big_def swapped_def)

theorem float4_machine_independent:
  fixes f :: "32 word"
  shows "map (x86_float4store T (little f)) [0..<4] = bytes_low 4 f \<and> map (little_float4store T (little f)) [0..<4] = bytes_low 4 f
   \<and> map (big_float4store T (big 4 f)) [0..<4] = bytes_low 4 f
   \<and> map (mi_float4store T (little f)) [0..<4] = rev (bytes_low 4 f) \<and> map (big_mi_float4store T (big 4 f)) [0..<4] = rev (bytes_low 4 f)
   \<and> map (x86_float4get V (nth (bytes_low 4 f))) [0..<4] = map (little f) [0..<4]
   \<and> map (little_float4get V (nth (bytes_low 4 f))) [0..<4] = map (little f) [0..<4]
   \<and> map (big_float4get V (nth (bytes_low 4 f))) [0..<4] = map (big 4 f) [0..<4]
   \<and> map (mi_float4get V (nth (rev (bytes_low 4 f)))) [0..<4] = map (little f) [0..<4]
   \<and> map (big_mi_float4get V (nth (rev (bytes_low 4 f)))) [0..<4] = map (big 4 f) [0..<4]"
  by (simp add: x86_float4store_def x86_float4get_def little_float4store_def little_float4get_def store_load memcpy_fixed_def
      big_float4store_def big_float4get_def mi_float4store_def mi_float4get_def big_mi_float4store_def big_mi_float4get_def
      upts bytes_low_def little_def big_def)

section \<open>Round trips of the other macros\<close>

lemma four_bytes:
  "ucast a OR push_bit 8 (ucast b) OR push_bit 16 (ucast c) OR push_bit 24 (ucast d)
   = (ucast a + push_bit 8 (ucast b) + push_bit 16 (ucast c) + push_bit 24 (ucast d) :: 32 word)" for a b c d :: "8 word"
proof -
  have 1: "push_bit 16 (ucast c) OR push_bit 24 (ucast d) = push_bit 16 (ucast c) + (push_bit 24 (ucast d) :: 32 word)"
    by (rule or_disjoint) (auto simp: bit_simps dest: bit_imp_le_length)
  have 2: "push_bit 8 (ucast b) OR x = push_bit 8 (ucast b) + (x :: 32 word)" if "x = push_bit 16 (ucast c) OR push_bit 24 (ucast d)" for x
    unfolding that by (rule or_disjoint) (auto simp: bit_simps dest: bit_imp_le_length)
  have 3: "ucast a OR x = ucast a + (x :: 32 word)" if "x = push_bit 8 (ucast b) OR push_bit 16 (ucast c) OR push_bit 24 (ucast d)" for x
    unfolding that by (rule or_disjoint) (auto simp: bit_simps dest: bit_imp_le_length)
  show ?thesis
    by (rule trans [OF 3 [OF refl]], subst 2 [OF refl], subst 1) (simp only: add.assoc)
qed

text \<open>In the format of the machine, what was stored is read; network order is the signed reading of high byte first.\<close>

theorem machine_format_roundtrip:
  "ushortget (shortstore T a) = a \<and> shortget (shortstore T a) = sint a \<and> ulongget (longstore T b) = b \<and> longget (longstore T b) = sint b
   \<and> big_ushortget (big_shortstore T a) = a \<and> big_shortget (big_shortstore T a) = sint a
   \<and> big_ulongget V (big_longstore T b) = b \<and> big_longget V (big_longstore T b) = sint b
   \<and> map (longlongget V (longlongstore T W)) [0..<8] = map W [0..<8] \<and> int4net (big_longstore T b) = sint b"
proof -
  have p: "uint2korr (int2store T a) = a" "sint2korr (int2store T a) = sint a" "uint4korr (int4store T b) = b" "sint4korr (int4store T b) = sint b"
    using store_korr_roundtrip by blast+
  have "x86_uint2korr A = uint2korr A" "x86_sint2korr A = sint2korr A" "x86_uint4korr A = uint4korr A" "x86_sint4korr A = sint4korr A"
    "x86_int2store T a = int2store T a" "x86_int4store T b = int4store T b" for A
    by (simp_all only: x86_equivalences)
  moreover have "big_shortstore T a = mi_int2store T a" "big_longstore T b = mi_int4store T b"
    by (simp_all add: big_shortstore_def mi_int2store_def big_longstore_def mi_int4store_def)
  moreover have "big_ushortget A = mi_uint2korr A" "big_shortget A = sint (mi_uint2korr A)" "big_ulongget V A = mi_uint4korr A"
    "big_longget V A = sint (mi_uint4korr A)" for A
    by (simp_all add: big_ushortget_def big_shortget_def mi_uint2korr_def)
      (simp_all add: big_ulongget_def big_longget_def mi_korr_values load_be_def upts del: le_val.simps)
  moreover have "mi_uint2korr (mi_int2store T a) = a" "mi_uint4korr (mi_int4store T b) = b" using mi_store_korr_roundtrip by blast+
  moreover have "int4net A = sint (mi_uint4korr A)" for A
    by (simp add: int4net_def mi_uint4korr_def four_bytes)
  ultimately show ?thesis
    using p by (simp add: ushortget_def shortget_def ulongget_def longget_def shortstore_def longstore_def longlongget_def longlongstore_def
        memcpy_fixed_def upts)
qed

text \<open>
  Row numbers and positions are read back in both sizes, the error position included, and the short form stores the same eight
  bytes as the long form of the same number: except for the error position, which only the short form writes as eight bytes of
  ones.
\<close>

theorem size_roundtrip:
  "mi_rowkorr (mi_rowstore T a) = a \<and> big_rowkorr (big_rowstore T c) = c \<and> mi_sizekorr (mi_sizestore T a) = a
   \<and> map (mi_rowstore T a) [0..<8] = map (big_rowstore T (ucast a)) [0..<8]
   \<and> map (mi_sizestore T a) [0..<8] = (if a = HA_OFFSET_ERROR then replicate 8 255 else map (big_rowstore T (ucast a)) [0..<8])"
proof -
  have r: "mi_rowstore T a = big_rowstore T (ucast a)"
  proof -
    have "(drop_bit 32 (ucast a :: 64 word)) = 0" by (rule bit_word_eqI) (auto simp: bit_simps dest: bit_imp_le_length)
    moreover have "(ucast (ucast a :: 64 word) :: 32 word) = a" by (rule bit_word_eqI) (simp add: bit_simps)
    ultimately show ?thesis by (simp add: mi_rowstore_def big_rowstore_def second_half_def mi_int8store_def Let_def)
  qed
  have k: "mi_uint4korr (\<lambda>k. second_half (\<lambda>U. mi_int4store U a) U (k + 4)) = a" for U
  proof -
    have "(\<lambda>k. second_half (\<lambda>U. mi_int4store U a) U (k + 4)) = mi_int4store (\<lambda>i. U (i + 4)) a"
      by (simp add: second_half_def fun_eq_iff)
    moreover have "mi_uint4korr (mi_int4store T' a) = a" for T' using mi_store_korr_roundtrip by blast
    ultimately show ?thesis by simp
  qed
  have "mi_uint4korr (\<lambda>k. if k + 4 < 8 then 255 else T (k + 4)) = HA_OFFSET_ERROR"
    by (simp add: mi_korr_values HA_OFFSET_ERROR_def)
  then have "mi_sizekorr (mi_sizestore T a) = a" using k by (simp add: mi_sizekorr_def mi_sizestore_def del: add_less_cancel_right)
  moreover have "mi_rowkorr (mi_rowstore T a) = a" using k by (simp add: mi_rowkorr_def mi_rowstore_def)
  moreover have "big_rowkorr (big_rowstore T c) = c" unfolding big_rowkorr_def big_rowstore_def using mi_store_korr_roundtrip by blast
  moreover have "map (mi_sizestore T a) [0..<8] = (if a = HA_OFFSET_ERROR then replicate 8 255 else map (mi_rowstore T a) [0..<8])"
    by (simp add: mi_sizestore_def mi_rowstore_def upts) (simp add: numeral_eq_Suc)
  ultimately show ?thesis using r by simp
qed

end
