(* ===== verification/BitUtils.thy ===== *)
theory BitUtils
  imports GPS_Prelude
begin

text \<open>
  The bit functions of \<open>my_bit.h\<close> and the bit sets of \<open>my_bitmap.h\<close>. The two byte tables that \<open>my_bit.h\<close> declares live in the
  library and are arguments; the mask of the last word of a bitmap is made by the library as well and is part of the
  well-formedness of a bitmap.
\<close>

unbundle bit_operations_syntax

section \<open>Logarithm, powers of two\<close>

lemma unat_half: "unat (drop_bit 1 v) = unat v div 2"
  by (metis drop_bit_eq_div power_one_right unat_drop_bit_eq)

function log2_loop :: "32 word \<Rightarrow> 32 word \<Rightarrow> 32 word" where
  "log2_loop v n = (if 1 < v then log2_loop (drop_bit 1 v) (n + 1) else n)"
  by auto

termination
proof (relation "measure (\<lambda>(v, b). unat v)")
  fix v n :: "32 word"
  assume "1 < v"
  then have "0 < unat v" by (auto simp: unat_gt_0)
  then show "((drop_bit 1 v, n + 1), (v, n)) \<in> measure (\<lambda>(v, b). unat v)" by (simp add: unat_half del: One_nat_def)
qed simp

declare log2_loop.simps [simp del]

definition my_bit_log2 :: "32 word \<Rightarrow> 32 word" where
  "my_bit_log2 value = log2_loop value 0"

definition spread :: "32 word \<Rightarrow> 32 word" where
  "spread v = (let v = v OR drop_bit 1 v; v = v OR drop_bit 2 v; v = v OR drop_bit 4 v; v = v OR drop_bit 8 v in v OR drop_bit 16 v)"

definition my_round_up_to_next_power :: "32 word \<Rightarrow> 32 word" where
  "my_round_up_to_next_power v = spread (v - 1) + 1"

definition my_clear_highest_bit :: "32 word \<Rightarrow> 32 word" where
  "my_clear_highest_bit v = v AND spread (drop_bit 1 v)"

section \<open>Counting and reversing by table\<close>

definition my_count_bits :: "(8 word \<Rightarrow> 8 word) \<Rightarrow> 64 word \<Rightarrow> 32 word" where
  "my_count_bits nbits v = (let v2 = ucast (drop_bit 32 v) :: 32 word in
     ucast (ucast (scast (nbits (ucast v)) + scast (nbits (ucast (drop_bit 8 v))) + scast (nbits (ucast (drop_bit 16 v)))
       + scast (nbits (ucast (drop_bit 24 v))) + scast (nbits (ucast v2)) + scast (nbits (ucast (drop_bit 8 v2)))
       + scast (nbits (ucast (drop_bit 16 v2))) + scast (nbits (ucast (drop_bit 24 v2))) :: 32 word) :: 8 word))"

definition my_count_bits_ushort :: "(8 word \<Rightarrow> 8 word) \<Rightarrow> 16 word \<Rightarrow> 32 word res" where
  "my_count_bits_ushort nbits v = rbind (guard (v < 256) OutOfBounds) (\<lambda>_. Inr (scast (nbits (ucast v))))"

definition my_reverse_bits :: "(8 word \<Rightarrow> 8 word) \<Rightarrow> 32 word \<Rightarrow> 32 word" where
  "my_reverse_bits table key = push_bit 24 (ucast (table (ucast (key AND 255)))) OR push_bit 16 (ucast (table (ucast (drop_bit 8 key AND 255))))
     OR push_bit 8 (ucast (table (ucast (drop_bit 16 key AND 255)))) OR ucast (table (ucast (drop_bit 24 key)))"

section \<open>The highest bit\<close>

text \<open>Above its highest bit a word has no bits, and every word but 0 has one.\<close>

lemma highest_bit:
  fixes v :: "32 word"
  assumes "2 ^ n \<le> unat v" "unat v < 2 ^ Suc n"
  shows "bit v n" "\<And>j. n < j \<Longrightarrow> \<not> bit v j" "n < 32"
proof -
  have "unat v div 2 ^ n = 1" using assms by (intro div_nat_eqI) auto
  then have "bit (unat v) n" by (simp add: bit_iff_odd)
  then show b: "bit v n" by (simp add: bit_unsigned_iff)
  show "n < 32" using bit_imp_le_length [OF b] by simp
  fix j assume "n < j"
  then have "(2::nat) ^ Suc n \<le> 2 ^ j" by (intro power_increasing) auto
  then have "unat v div 2 ^ j = 0" using assms(2) by simp
  then have "\<not> bit (unat v) j" by (simp add: bit_iff_odd)
  then show "\<not> bit v j" by (simp add: bit_unsigned_iff)
qed

lemma highest_exists:
  fixes v :: "32 word"
  assumes "v \<noteq> 0"
  obtains n where "2 ^ n \<le> unat v" "unat v < 2 ^ Suc n"
proof -
  have "0 < unat v" using assms by (simp add: unat_gt_0)
  then have "\<exists>n. 2 ^ n \<le> unat v \<and> unat v < 2 ^ (n + 1)" by (intro ex_power_ivl1) auto
  then show ?thesis using that by auto
qed

text \<open>The spreading of a bit to all bits below it, doubling the distance at each step.\<close>

definition spread_by :: "nat \<Rightarrow> 32 word \<Rightarrow> 32 word \<Rightarrow> bool" where
  "spread_by k x v \<longleftrightarrow> (\<forall>i. bit x i \<longleftrightarrow> (\<exists>j. i \<le> j \<and> j < i + k \<and> bit v j))"

lemma spread_by_double: "spread_by k x v \<Longrightarrow> spread_by (2 * k) (x OR drop_bit k x) v"
  unfolding spread_by_def
proof
  fix i
  assume a: "\<forall>i. bit x i = (\<exists>j\<ge>i. j < i + k \<and> bit v j)"
  show "bit (x OR drop_bit k x) i = (\<exists>j\<ge>i. j < i + 2 * k \<and> bit v j)"
  proof
    assume "bit (x OR drop_bit k x) i"
    then have "bit x i \<or> bit x (k + i)" by (auto simp: bit_simps)
    then show "\<exists>j\<ge>i. j < i + 2 * k \<and> bit v j" using a by (auto intro: order_trans) (metis add.assoc add.commute le_add2 order_trans mult_2 trans_less_add1)+
  next
    assume "\<exists>j\<ge>i. j < i + 2 * k \<and> bit v j"
    then obtain j where j: "i \<le> j" "j < i + 2 * k" "bit v j" by blast
    then have "bit x i \<or> bit x (k + i)" using a by (cases "j < i + k") (auto simp: not_less add.commute)
    then show "bit (x OR drop_bit k x) i" by (auto simp: bit_simps)
  qed
qed

lemma spread_bit: "bit (spread v) i \<longleftrightarrow> (\<exists>j\<ge>i. bit v j)"
proof -
  have "spread_by 1 v v" by (auto simp: spread_by_def) (metis le_antisym less_Suc_eq_le)
  from spread_by_double [OF spread_by_double [OF spread_by_double [OF spread_by_double [OF spread_by_double [OF this]]]]]
  have "spread_by 32 (spread v) v" by (simp add: spread_def Let_def)
  moreover have "bit v j \<Longrightarrow> j < i + 32" for j using bit_imp_le_length [of v j] by simp
  ultimately show ?thesis by (auto simp: spread_by_def)
qed

lemma spread_highest:
  assumes "2 ^ n \<le> unat v" "unat v < 2 ^ Suc n"
  shows "spread v = mask (Suc n)"
proof (rule bit_word_eqI)
  fix i
  assume "i < LENGTH(32)"
  have "(\<exists>j\<ge>i. bit v j) \<longleftrightarrow> i \<le> n" using highest_bit [OF assms] by (meson leI less_le_trans order_refl)
  then show "bit (spread v) i = bit (mask (Suc n) :: 32 word) i"
    using highest_bit(3) [OF assms] by (auto simp: spread_bit bit_mask_iff)
qed

lemma spread_0 [simp]: "spread 0 = 0"
  by (simp add: spread_def)

section \<open>What the functions compute\<close>

lemma log2_loop_highest: "2 ^ k \<le> unat v \<Longrightarrow> unat v < 2 ^ Suc k \<Longrightarrow> log2_loop v n = n + of_nat k"
proof (induction k arbitrary: v n)
  case 0
  then have "unat v = 1" by simp
  then have "v = 1" by (simp add: word_unat_eq_iff)
  then show ?case by (subst log2_loop.simps) simp
next
  case (Suc k)
  have h: "2 ^ k \<le> unat (drop_bit 1 v)" "unat (drop_bit 1 v) < 2 ^ Suc k" using Suc.prems unfolding unat_half by auto
  have "(2::nat) \<le> 2 ^ Suc k" by simp
  then have "1 < unat v" using Suc.prems(1) by linarith
  then have "1 < v" by (simp add: word_less_nat_alt)
  then show ?case using Suc.IH [OF h, of "n + 1"] by (subst log2_loop.simps) (simp del: One_nat_def add: ac_simps)
qed

text \<open>
  \<open>my_bit_log2\<close> returns the position of the highest bit, the logarithm rounded down, and 0 for 0. Its comment promises the
  smallest \<open>X\<close> with \<open>2 ^ X \<ge> value\<close>, which is the next position unless the value is a power of two.
\<close>

theorem my_bit_log2_floor:
  assumes "v \<noteq> 0"
  shows "2 ^ unat (my_bit_log2 v) \<le> unat v \<and> unat v < 2 ^ Suc (unat (my_bit_log2 v))
     \<and> (unat v \<le> 2 ^ unat (my_bit_log2 v) \<longleftrightarrow> (\<exists>k. unat v = 2 ^ k))"
proof -
  obtain n where n: "2 ^ n \<le> unat v" "unat v < 2 ^ Suc n" using highest_exists [OF assms] .
  have "my_bit_log2 v = of_nat n" using log2_loop_highest [OF n, of 0] by (simp add: my_bit_log2_def)
  moreover have "n < 2 ^ 32" using highest_bit(3) [OF n] by simp
  ultimately have u: "unat (my_bit_log2 v) = n" by (simp add: unat_of_nat)
  have "unat v \<le> 2 ^ n" if "unat v = 2 ^ k" for k
    using n that by (metis less_Suc_eq_le power_increasing_iff power_strict_increasing_iff one_less_numeral_iff semiring_norm(76))
  then show ?thesis using n u by (auto intro: le_antisym)
qed

theorem my_bit_log2_floor_witness: "unat (my_bit_log2 3) = 1 \<and> \<not> unat (3 :: 32 word) \<le> 2 ^ unat (my_bit_log2 3)"
proof -
  have e: "unat (my_bit_log2 3) = 1" by (simp add: my_bit_log2_def log2_loop.simps)
  show ?thesis using my_bit_log2_floor [of 3] e by auto
qed

lemma clear_highest_val:
  assumes "2 ^ n \<le> unat v" "unat v < 2 ^ Suc n"
  shows "unat (my_clear_highest_bit v) = unat v - 2 ^ n"
proof -
  have s: "spread (drop_bit 1 v) = mask n"
  proof (cases n)
    case 0
    then have "unat (drop_bit 1 v) = 0" using assms unfolding unat_half by simp
    then have "drop_bit 1 v = 0" by (simp only: unat_eq_zero)
    then show ?thesis using 0 by (simp del: One_nat_def)
  next
    case (Suc m)
    have "2 ^ m \<le> unat (drop_bit 1 v)" "unat (drop_bit 1 v) < 2 ^ Suc m" using assms Suc unfolding unat_half by auto
    then show ?thesis using spread_highest Suc by blast
  qed
  have "unat v mod 2 ^ n = unat v - 2 ^ n" using assms by (simp add: mod_if le_mod_geq)
  moreover have "unat (take_bit n v) = unat v mod 2 ^ n" 
    using unsigned_take_bit_eq [of n v, where 'a = nat] take_bit_eq_mod [of n "unat v"] by (rule trans)
  ultimately show ?thesis using s unfolding my_clear_highest_bit_def take_bit_eq_mask by simp
qed

text \<open>\<open>my_clear_highest_bit\<close> removes the highest bit: what is left is the value less the largest power of two in it.\<close>

theorem my_clear_highest_bit_val:
  assumes "v \<noteq> 0"
  shows "unat (my_clear_highest_bit v) = unat v - 2 ^ unat (my_bit_log2 v)"
  using my_bit_log2_floor [OF assms] clear_highest_val by blast

text \<open>
  \<open>my_round_up_to_next_power\<close> returns the least power of two that is not below its argument, as long as there is one of 32
  bits; above \<open>2 ^ 31\<close>, and for 0, the result wraps to 0.
\<close>

theorem round_up_least_power:
  "if v = 0 \<or> 2 ^ 31 < unat v then my_round_up_to_next_power v = 0
   else \<exists>k\<le>31. unat (my_round_up_to_next_power v) = 2 ^ k \<and> (\<forall>j. unat v \<le> 2 ^ j \<longleftrightarrow> k \<le> j)"
proof -
  have pow: "unat (mask n + 1 :: 32 word) = (if n < 32 then 2 ^ n else 0)" if "n \<le> 32" for n
  proof -
    have "(mask n + 1 :: 32 word) = of_nat (2 ^ n)" by (simp add: mask_eq_decr_exp)
    then have "unat (mask n + 1 :: 32 word) = 2 ^ n mod 2 ^ 32" by (simp only: unat_of_nat) simp
    moreover have "n < 32 \<Longrightarrow> (2::nat) ^ n < 2 ^ 32" by (rule power_strict_increasing) simp_all
    ultimately show ?thesis using that by (cases "n = 32") auto
  qed
  show ?thesis
  proof (cases "v = 0 \<or> v = 1")
    case True
    then show ?thesis
    proof
      assume "v = 0"
      have "spread (- 1) = - 1" by (rule bit_word_eqI) (auto simp: spread_bit)
      then show ?thesis using \<open>v = 0\<close> by (simp add: my_round_up_to_next_power_def)
    next
      assume "v = 1"
      then show ?thesis by (intro if_not_P [THEN iffD2]) (auto simp: my_round_up_to_next_power_def intro!: exI [of _ 0])
    qed
  next
    case False
    then have v1: "v - 1 \<noteq> 0" by simp
    have u: "unat (v - 1) = unat v - 1" using False by (intro unat_minus_one) simp
    obtain n where n: "2 ^ n \<le> unat (v - 1)" "unat (v - 1) < 2 ^ Suc n" using highest_exists [OF v1] .
    have n32: "n < 32" using highest_bit(3) [OF n] .
    have r: "unat (my_round_up_to_next_power v) = (if Suc n < 32 then 2 ^ Suc n else 0)"
      using pow [of "Suc n"] spread_highest [OF n] n32 by (simp add: my_round_up_to_next_power_def)
    have lo: "2 ^ n < unat v" and hi: "unat v \<le> 2 ^ Suc n" using n u False by (auto simp: unat_gt_0)
    have least: "unat v \<le> 2 ^ j \<longleftrightarrow> Suc n \<le> j" for j
    proof
      assume "unat v \<le> 2 ^ j"
      then have "(2::nat) ^ n < 2 ^ j" using lo by linarith
      then show "Suc n \<le> j" by (simp add: Suc_le_eq)
    next
      assume "Suc n \<le> j"
      then have "(2::nat) ^ Suc n \<le> 2 ^ j" by (rule power_increasing) simp
      then show "unat v \<le> 2 ^ j" using hi by linarith
    qed
    show ?thesis
    proof (cases "Suc n < 32")
      case True
      then have "\<not> 2 ^ 31 < unat v" using least [of 31] by simp
      moreover have "\<exists>k\<le>31. unat (my_round_up_to_next_power v) = 2 ^ k \<and> (\<forall>j. unat v \<le> 2 ^ j \<longleftrightarrow> k \<le> j)"
        using True r least by (intro exI [of _ "Suc n"]) (simp only: if_True, simp)
      moreover have "\<not> (v = 0 \<or> 2 ^ 31 < unat v)" using \<open>\<not> 2 ^ 31 < unat v\<close> False by blast
      ultimately show ?thesis by (simp only: if_False)
    next
      case big: False
      then have "2 ^ 31 < unat v" using least [of 31] by simp
      moreover have "my_round_up_to_next_power v = 0" using r big by (simp add: unat_eq_zero)
      ultimately show ?thesis by simp
    qed
  qed
qed

section \<open>The tables\<close>

definition popcount :: "'a::len word \<Rightarrow> nat" where
  "popcount w = card {i. bit w i}"

lemma popcount_sum: "popcount (w :: 'a::len word) = (\<Sum>i<LENGTH('a). of_bool (bit w i))"
proof -
  have "{i. bit w i} = {i \<in> {..<LENGTH('a)}. bit w i}" by (auto dest: bit_imp_le_length)
  also have "\<dots> = {..<LENGTH('a)} \<inter> {i. bit w i}" by auto
  finally show ?thesis by (simp add: popcount_def sum_of_bool_eq)
qed

lemma popcount_byte_le: "popcount (b :: 8 word) \<le> 8"
proof -
  have "popcount b \<le> (\<Sum>i<8::nat. 1)" unfolding popcount_sum by (rule order_trans [OF sum_mono]) (auto simp: of_bool_def)
  then show ?thesis by simp
qed

lemma popcount_bytes: "popcount (v :: 64 word) = (\<Sum>m<8. popcount (ucast (drop_bit (m * 8) v) :: 8 word))"
proof -
  have "(\<Sum>i = m * 8..<m * 8 + 8. of_bool (bit v i)) = popcount (ucast (drop_bit (m * 8) v) :: 8 word)" for m
  proof -
    have "(\<Sum>i = m * 8..<m * 8 + 8. of_bool (bit v i) :: nat) = (\<Sum>i<8. of_bool (bit v (m * 8 + i)))"
      by (rule sum.reindex_bij_witness [of _ "\<lambda>i. m * 8 + i" "\<lambda>i. i - m * 8"]) auto
    then show ?thesis by (simp add: popcount_sum bit_simps)
  qed
  then show ?thesis using sum.nat_group [of "\<lambda>i. of_bool (bit v i) :: nat" 8 8] by (simp add: popcount_sum [of v])
qed

text \<open>The tables of the library hold the number of bits of each byte, and each byte with its bits in the other order.\<close>

definition nbits_table :: "(8 word \<Rightarrow> 8 word) \<Rightarrow> bool" where
  "nbits_table t \<longleftrightarrow> (\<forall>b. t b = of_nat (popcount b))"

definition reverse_table :: "(8 word \<Rightarrow> 8 word) \<Rightarrow> bool" where
  "reverse_table t \<longleftrightarrow> (\<forall>b i. i < 8 \<longrightarrow> bit (t b) i = bit b (7 - i))"

lemma scast_small: "k \<le> 8 \<Longrightarrow> (scast (of_nat k :: 8 word) :: 32 word) = of_nat k"
proof -
  assume "k \<le> 8"
  then have "k \<in> {0, 1, 2, 3, 4, 5, 6, 7, 8}" by auto
  then show ?thesis by auto
qed

theorem my_count_bits_popcount:
  assumes "nbits_table t"
  shows "unat (my_count_bits t v) = popcount v"
proof -
  have t: "(scast (t b) :: 32 word) = of_nat (popcount b)" for b
    using assms scast_small [OF popcount_byte_le] by (simp add: nbits_table_def)
  let ?p = "\<lambda>m. popcount (ucast (drop_bit (m * 8) v) :: 8 word)"
  have hi: "(ucast (drop_bit k (ucast (drop_bit 32 v) :: 32 word)) :: 8 word) = ucast (drop_bit (k + 32) v)" if "k \<le> 24" for k
    by (rule bit_word_eqI) (use that in \<open>auto simp: bit_simps ac_simps\<close>)
  have "popcount v = ?p 0 + ?p 1 + ?p 2 + ?p 3 + ?p 4 + ?p 5 + ?p 6 + ?p 7"
    unfolding popcount_bytes by (simp add: eval_nat_numeral)
  moreover have "my_count_bits t v = ucast (ucast (of_nat (?p 0 + ?p 1 + ?p 2 + ?p 3 + ?p 4 + ?p 5 + ?p 6 + ?p 7) :: 32 word) :: 8 word)"
    using hi [of 0] hi [of 8] hi [of 16] hi [of 24] by (simp add: my_count_bits_def t)
  ultimately have e: "my_count_bits t v = ucast (ucast (of_nat (popcount v) :: 32 word) :: 8 word)" by simp
  have "popcount v \<le> (\<Sum>m<8::nat. 8)" unfolding popcount_bytes using popcount_byte_le by (intro sum_mono)
  then have "popcount v \<le> 64" by simp
  then have "take_bit 32 (popcount v) = popcount v" "take_bit 8 (popcount v) = popcount v"
    by (auto intro!: take_bit_nat_eq_self)
  then show ?thesis unfolding e by (simp add: unsigned_of_nat)
qed

theorem my_reverse_bits_bit:
  assumes "reverse_table t" "i < 32"
  shows "bit (my_reverse_bits t key) i = bit key (31 - i)"
proof -
  have t: "bit (t b) j = (j < 8 \<and> bit b (7 - j))" for b j
    using assms(1) bit_imp_le_length [of "t b" j] by (auto simp: reverse_table_def)
  have m: "(ucast (drop_bit k key AND 255) :: 8 word) = ucast (drop_bit k key)" for k
  proof -
    have "(255 :: 32 word) = mask 8" by (simp add: mask_eq_decr_exp)
    then have "bit (255 :: 32 word) n" if "n < 8" for n using that by (simp only: bit_mask_iff) simp
    then show ?thesis by (intro bit_word_eqI) (simp add: bit_simps)
  qed
  consider "i < 8" | "8 \<le> i \<and> i < 16" | "16 \<le> i \<and> i < 24" | "24 \<le> i" by linarith
  then show ?thesis using assms(2) m [of 0] m [of 8] m [of 16]
    by cases (auto simp: my_reverse_bits_def bit_simps t)
qed

theorem my_reverse_bits_involution:
  assumes "reverse_table t"
  shows "my_reverse_bits t (my_reverse_bits t key) = key"
  by (rule bit_word_eqI) (simp add: my_reverse_bits_bit [OF assms])

text \<open>\<open>my_count_bits_ushort\<close> indexes the table of 256 bytes with a number of 16 bits: from 256 on it reads behind the table.\<close>

theorem my_count_bits_ushort_range:
  assumes "nbits_table t"
  shows "my_count_bits_ushort t v = (if v < 256 then Inr (of_nat (popcount (ucast v :: 8 word))) else Inl OutOfBounds)"
  using assms scast_small [OF popcount_byte_le] by (simp add: my_count_bits_ushort_def nbits_table_def guard_def)

lemma popcount_table: "nbits_table (\<lambda>b. of_nat (popcount b))"
  by (simp add: nbits_table_def)

theorem my_count_bits_ushort_range_witness:
  "my_count_bits_ushort (\<lambda>b. of_nat (popcount b)) 256 = Inl OutOfBounds"
  using my_count_bits_ushort_range [OF popcount_table, of 256] by simp

theorem my_count_bits_popcount_witness: "unat (my_count_bits (\<lambda>b. of_nat (popcount b)) 0xFF00) = popcount (0xFF00 :: 64 word)"
  by (rule my_count_bits_popcount [OF popcount_table])

section \<open>The general macros of \<open>my_global.h\<close>\<close>

definition CMP_NUM :: "int \<Rightarrow> int \<Rightarrow> int" where
  "CMP_NUM a b = (if a < b then -1 else if a = b then 0 else 1)"

definition sgn_macro :: "int \<Rightarrow> int" where
  "sgn_macro a = (if a < 0 then -1 else if 0 < a then 1 else 0)"

definition swap_variables :: "'a \<times> 'a \<Rightarrow> 'a \<times> 'a" where
  "swap_variables = (\<lambda>(a, b). let swap_dummy = a; a = b; b = swap_dummy in (a, b))"

definition set_if_bigger :: "int \<Rightarrow> int \<Rightarrow> int" where
  "set_if_bigger a b = (if a < b then b else a)"

definition set_if_smaller :: "int \<Rightarrow> int \<Rightarrow> int" where
  "set_if_smaller a b = (if b < a then b else a)"

definition test_all_bits :: "32 word \<Rightarrow> 32 word \<Rightarrow> bool" where
  "test_all_bits a b \<longleftrightarrow> a AND b = b"

definition set_bits :: "nat \<Rightarrow> 32 word" where
  "set_bits bit_count = (if 32 \<le> bit_count then NOT 0 else push_bit bit_count 1 - 1)"

definition MY_ALIGN :: "32 word \<Rightarrow> 32 word \<Rightarrow> 32 word" where
  "MY_ALIGN a l = (a + l - 1) AND NOT (l - 1)"

definition MY_DIV_UP :: "32 word \<Rightarrow> 32 word \<Rightarrow> 32 word" where
  "MY_DIV_UP a b = (a + b - 1) div b"

theorem bit_macros:
  "(test_all_bits a b \<longleftrightarrow> (\<forall>i. bit b i \<longrightarrow> bit a i)) \<and> set_bits n = mask n"
proof -
  have "i < 32" if "bit b i" for i using bit_imp_le_length [OF that] by simp
  then have "a AND b = b \<longleftrightarrow> (\<forall>i. bit b i \<longrightarrow> bit a i)" by (auto simp: bit_eq_iff bit_and_iff)
  moreover have "set_bits n = mask n"
  proof (cases "32 \<le> n")
    case True
    then show ?thesis by (intro bit_word_eqI) (auto simp: set_bits_def bit_simps)
  next
    case False
    then show ?thesis by (simp add: set_bits_def mask_eq_decr_exp)
  qed
  ultimately show ?thesis by (simp add: test_all_bits_def)
qed

text \<open>
  \<open>MY_ALIGN\<close> rounds up to a multiple of a power of two and agrees with \<open>MY_DIV_UP\<close>, as long as the sum does not wrap.
\<close>

theorem MY_ALIGN_rounds_up:
  assumes "k < 32" "unat a + 2 ^ k \<le> 2 ^ 32"
  shows "unat (MY_ALIGN a (2 ^ k)) = (unat a + 2 ^ k - 1) div 2 ^ k * 2 ^ k \<and> unat (MY_DIV_UP a (2 ^ k)) = (unat a + 2 ^ k - 1) div 2 ^ k"
proof -
  have p: "unat (2 ^ k :: 32 word) = 2 ^ k"
  proof -
    have "(2::nat) ^ k < 2 ^ 32" using assms(1) by (rule power_strict_increasing) simp
    then have "unat (of_nat (2 ^ k) :: 32 word) = 2 ^ k" by (simp only: unat_of_nat) simp
    then show ?thesis by simp
  qed
  let ?x = "a + 2 ^ k - 1"
  have "unat (a + (2 ^ k - 1)) = unat a + (2 ^ k - 1)"
  proof -
    have m: "unat (2 ^ k - 1 :: 32 word) = 2 ^ k - 1" using p assms(1) by (subst unat_minus_one) auto
    obtain r where r: "(2::nat) ^ k = Suc r" by (metis not0_implies_Suc power_not_zero zero_neq_numeral)
    then have "unat a + unat (2 ^ k - 1 :: 32 word) < 2 ^ 32" unfolding m using assms(2) by simp
    then show ?thesis using m by (simp add: unat_word_ariths)
  qed
  moreover have "1 \<le> (2::nat) ^ k" by simp
  ultimately have x: "unat ?x = unat a + 2 ^ k - 1" by (simp add: algebra_simps)
  have "(2 ^ k - 1 :: 32 word) = mask k" by (simp add: mask_eq_decr_exp)
  then have "MY_ALIGN a (2 ^ k) = push_bit k (drop_bit k ?x)"
    unfolding MY_ALIGN_def by (simp only:) (rule bit_word_eqI, auto simp: bit_simps)
  moreover have "unat (push_bit k (drop_bit k ?x)) = unat ?x div 2 ^ k * 2 ^ k"
  proof -
    have d: "unat (drop_bit k ?x) = unat ?x div 2 ^ k" 
      using unat_drop_bit_eq [of k ?x] drop_bit_eq_div [of k "unat ?x"] by (rule trans)
    have "unat ?x div 2 ^ k * 2 ^ k < 2 ^ 32" 
      by (rule le_less_trans [OF div_times_less_eq_dividend]) (use unsigned_less [of ?x, where 'a = nat] in simp)
    then show ?thesis using d p assms(1) by (simp add: push_bit_eq_mult unat_word_ariths)
  qed
  moreover have "unat (MY_DIV_UP a (2 ^ k)) = unat ?x div 2 ^ k" unfolding MY_DIV_UP_def using unat_div_distrib [of ?x "2 ^ k"] unfolding p .
  ultimately show ?thesis using x by simp
qed

theorem MY_ALIGN_rounds_up_witness: "unat (MY_ALIGN 13 8) = 16"
  using MY_ALIGN_rounds_up [of 3 13] by simp

end
