(* ===== verification/Bitmaps.thy ===== *)
theory Bitmaps
  imports GPS_Prelude
begin

text \<open>
  The bit sets of \<open>my_bitmap.h\<close>: the functions that check their argument in debug builds, the macros that do not, and the
  comparison that fills the unused bits of the last word first. The buffer is its list of bytes, read as 32-bit words with the
  low byte first; the mutex, which these functions do not use, is left out.
\<close>

unbundle bit_operations_syntax

section \<open>Operations\<close>

record MY_BITMAP =
  bitmap :: "8 word list"
  n_bits :: "32 word"
  last_word_mask :: "32 word"
  last_word_ptr :: nat

definition no_bytes_in_map :: "MY_BITMAP \<Rightarrow> 32 word" where
  "no_bytes_in_map m = (n_bits m + 7) div 8"

definition no_words_in_map :: "MY_BITMAP \<Rightarrow> 32 word" where
  "no_words_in_map m = (n_bits m + 31) div 32"

definition bitmap_buffer_size :: "32 word \<Rightarrow> 32 word" where
  "bitmap_buffer_size bits = (bits + 31) div 32 * 4"

definition change_byte :: "(8 word \<Rightarrow> 8 word \<Rightarrow> 8 word) \<Rightarrow> MY_BITMAP \<Rightarrow> 32 word \<Rightarrow> MY_BITMAP res" where
  "change_byte f m b = (let k = unat (b div 8) in rbind (guard (k < length (bitmap m)) OutOfBounds)
     (\<lambda>_. Inr (m\<lparr>bitmap := (bitmap m)[k := f (bitmap m ! k) (push_bit (unat (b AND 7)) 1)]\<rparr>)))"

definition set_bit_macro :: "MY_BITMAP \<Rightarrow> 32 word \<Rightarrow> MY_BITMAP res" where
  "set_bit_macro = change_byte (\<lambda>x w. x OR w)"

definition flip_bit_macro :: "MY_BITMAP \<Rightarrow> 32 word \<Rightarrow> MY_BITMAP res" where
  "flip_bit_macro = change_byte (\<lambda>x w. x XOR w)"

definition clear_bit_macro :: "MY_BITMAP \<Rightarrow> 32 word \<Rightarrow> MY_BITMAP res" where
  "clear_bit_macro = change_byte (\<lambda>x w. x AND NOT w)"

definition is_set_macro :: "MY_BITMAP \<Rightarrow> 32 word \<Rightarrow> 32 word res" where
  "is_set_macro m b = (let k = unat (b div 8) in rbind (guard (k < length (bitmap m)) OutOfBounds)
     (\<lambda>_. Inr (ucast (bitmap m ! k AND push_bit (unat (b AND 7)) 1))))"

definition bitmap_set_bit :: "MY_BITMAP \<Rightarrow> 32 word \<Rightarrow> MY_BITMAP res" where
  "bitmap_set_bit m b = rbind (guard (b < n_bits m) AssertFail) (\<lambda>_. set_bit_macro m b)"

definition bitmap_flip_bit :: "MY_BITMAP \<Rightarrow> 32 word \<Rightarrow> MY_BITMAP res" where
  "bitmap_flip_bit m b = rbind (guard (b < n_bits m) AssertFail) (\<lambda>_. flip_bit_macro m b)"

definition bitmap_clear_bit :: "MY_BITMAP \<Rightarrow> 32 word \<Rightarrow> MY_BITMAP res" where
  "bitmap_clear_bit m b = rbind (guard (b < n_bits m) AssertFail) (\<lambda>_. clear_bit_macro m b)"

definition bitmap_is_set :: "MY_BITMAP \<Rightarrow> 32 word \<Rightarrow> 32 word res" where
  "bitmap_is_set m b = rbind (guard (b < n_bits m) AssertFail) (\<lambda>_. is_set_macro m b)"

text \<open>\<open>*last_word_ptr |= last_word_mask\<close> on the bytes of the word.\<close>

definition or_word :: "nat \<Rightarrow> 32 word \<Rightarrow> 8 word list \<Rightarrow> 8 word list" where
  "or_word p w bs = map (\<lambda>i. if i div 4 = p then bs ! i OR ucast (drop_bit (8 * (i mod 4)) w) else bs ! i) [0..<length bs]"

definition fill_last_word :: "MY_BITMAP \<Rightarrow> MY_BITMAP res" where
  "fill_last_word m = rbind (guard (4 * last_word_ptr m + 3 < length (bitmap m)) OutOfBounds)
     (\<lambda>_. Inr (m\<lparr>bitmap := or_word (last_word_ptr m) (last_word_mask m) (bitmap m)\<rparr>))"

definition bitmap_cmp :: "MY_BITMAP \<Rightarrow> MY_BITMAP \<Rightarrow> (MY_BITMAP \<times> MY_BITMAP \<times> bool) res" where
  "bitmap_cmp a b = rbind (fill_last_word a) (\<lambda>a. rbind (fill_last_word b) (\<lambda>b.
     let n = unat (4 * no_words_in_map a) in
     rbind (guard (n \<le> length (bitmap a) \<and> n \<le> length (bitmap b)) OutOfBounds)
       (\<lambda>_. Inr (a, b, take n (bitmap a) = take n (bitmap b)))))"

definition memset_map :: "8 word \<Rightarrow> MY_BITMAP \<Rightarrow> MY_BITMAP res" where
  "memset_map c m = (let n = unat (4 * no_words_in_map m) in rbind (guard (n \<le> length (bitmap m)) OutOfBounds)
     (\<lambda>_. Inr (m\<lparr>bitmap := replicate n c @ drop n (bitmap m)\<rparr>)))"

definition bitmap_clear_all :: "MY_BITMAP \<Rightarrow> MY_BITMAP res" where
  "bitmap_clear_all = memset_map 0"

definition bitmap_set_all :: "MY_BITMAP \<Rightarrow> MY_BITMAP res" where
  "bitmap_set_all = memset_map 0xFF"

section \<open>A bitmap is a set of numbers\<close>

definition bit_at :: "8 word list \<Rightarrow> nat \<Rightarrow> bool" where
  "bit_at bs i = bit (bs ! (i div 8)) (i mod 8)"

definition map_bits :: "MY_BITMAP \<Rightarrow> nat set" where
  "map_bits m = {i. i < unat (n_bits m) \<and> bit_at (bitmap m) i}"

text \<open>The size in words, and what the library establishes when it makes a bitmap: the mask has the unused bits of the last word.\<close>

definition words :: "MY_BITMAP \<Rightarrow> nat" where
  "words m = (unat (n_bits m) + 31) div 32"

definition bitmap_wf :: "MY_BITMAP \<Rightarrow> bool" where
  "bitmap_wf m \<longleftrightarrow> 0 < unat (n_bits m) \<and> unat (n_bits m) + 31 < 2 ^ 32 \<and> length (bitmap m) = 4 * words m
     \<and> last_word_ptr m = words m - 1
     \<and> (\<forall>i<32. bit (last_word_mask m) i \<longleftrightarrow> unat (n_bits m) \<le> 32 * (words m - 1) + i)"

lemma words_bounds:
  assumes "bitmap_wf m"
  shows "unat (n_bits m) \<le> 32 * words m" "32 * (words m - 1) < unat (n_bits m)" "0 < words m" "words m < 2 ^ 27"
proof -
  have u: "0 < unat (n_bits m)" "unat (n_bits m) + 31 < 2 ^ 32" using assms by (simp_all add: bitmap_wf_def)
  show "unat (n_bits m) \<le> 32 * words m" "32 * (words m - 1) < unat (n_bits m)" "0 < words m"
    using u(1) unfolding words_def by linarith+
  show "words m < 2 ^ 27" using u(2) by (simp add: words_def div_less_iff_less_mult)
qed

lemma no_words: "bitmap_wf m \<Longrightarrow> unat (4 * no_words_in_map m) = length (bitmap m)"
proof -
  assume wf: "bitmap_wf m"
  have "unat (n_bits m + 31) = unat (n_bits m) + 31" using wf by (simp add: bitmap_wf_def unat_word_ariths)
  then have "unat (no_words_in_map m) = words m" by (simp add: no_words_in_map_def words_def unat_div_distrib)
  then show ?thesis using wf words_bounds(4) [OF wf] by (simp add: bitmap_wf_def unat_word_ariths)
qed

lemma bit_at_update: "k div 8 < length bs \<Longrightarrow>
  bit_at (bs[k div 8 := v]) i = (if i div 8 = k div 8 then bit v (i mod 8) else bit_at bs i)"
  by (simp add: bit_at_def nth_list_update)

lemma unat_and_7: "unat (b AND 7 :: 32 word) = unat b mod 8"
proof -
  have "(7 :: 32 word) = mask 3" by (simp add: mask_eq_decr_exp)
  then have "unat (b AND 7) = unat (take_bit 3 b)" by (simp only: take_bit_eq_mask)
  also have "\<dots> = unat b mod 2 ^ 3" using unsigned_take_bit_eq [of 3 b, where 'a = nat] take_bit_eq_mod [of 3 "unat b"] by (rule trans)
  finally show ?thesis by simp
qed

lemma one_bit: "k < 8 \<Longrightarrow> bit (2 ^ k :: 8 word) i \<longleftrightarrow> i = k"
  by (auto simp: bit_simps)

lemma test_bit_nonzero: "k < 8 \<Longrightarrow> (x AND 2 ^ k :: 8 word) \<noteq> 0 \<longleftrightarrow> bit x k"
  by (auto simp: bit_eq_iff [of _ 0] bit_and_iff one_bit)

lemma ucast_zero: "(ucast (x :: 8 word) :: 32 word) = 0 \<longleftrightarrow> x = 0"
proof -
  have "n < 8 \<and> n < 32" if "bit x n" for n using bit_imp_le_length [OF that] by simp
  then show ?thesis by (auto simp: bit_eq_iff bit_ucast_iff)
qed

lemma byte_index: "i div 8 = k div 8 \<and> i mod 8 = k mod 8 \<longleftrightarrow> i = (k::nat)"
  by (metis div_mult_mod_eq)

text \<open>Each operation keeps the bitmap well-formed and does to the set what its name says.\<close>

lemma change_byte_bits:
  assumes wf: "bitmap_wf m" and b: "b < n_bits m" and f: "\<And>x w j. bit (f x w) j = g (bit x j) (bit w j)" and g: "\<And>x. g x False = x"
  shows "\<exists>m'. change_byte f m b = Inr m' \<and> bitmap_wf m' \<and> n_bits m' = n_bits m
     \<and> (\<forall>i. i \<in> map_bits m' \<longleftrightarrow> (if i = unat b then g (i \<in> map_bits m) True else i \<in> map_bits m))"
proof -
  let ?k = "unat b" and ?bs = "bitmap m"
  have n: "?k < unat (n_bits m)" using b by (simp add: word_less_nat_alt)
  have len: "?k div 8 < length ?bs" using n words_bounds(1) [OF wf] wf by (simp add: bitmap_wf_def)
  let ?v = "f (?bs ! (?k div 8)) (push_bit (?k mod 8) 1)"
  have "bit_at (?bs[?k div 8 := ?v]) i = (if i = ?k then g (bit_at ?bs i) True else bit_at ?bs i)" for i
  proof (cases "i div 8 = ?k div 8")
    case True
    then have "i = ?k \<longleftrightarrow> i mod 8 = ?k mod 8" using byte_index [of i ?k] by simp
    moreover have "bit ?v (i mod 8) = g (bit_at ?bs i) (i mod 8 = ?k mod 8)" using True by (simp add: f one_bit bit_at_def)
    ultimately show ?thesis unfolding bit_at_update [OF len] using True g by simp
  next
    case False
    then show ?thesis unfolding bit_at_update [OF len] by auto
  qed
  then show ?thesis using wf len n
    by (auto simp: change_byte_def Let_def unat_and_7 unat_div_distrib bitmap_wf_def words_def map_bits_def)
qed

lemma bitmap_set_bit_spec:
  assumes "bitmap_wf m" "b < n_bits m"
  shows "\<exists>m'. bitmap_set_bit m b = Inr m' \<and> bitmap_wf m' \<and> n_bits m' = n_bits m \<and> map_bits m' = insert (unat b) (map_bits m)"
  using change_byte_bits [OF assms, of "\<lambda>x w. x OR w" "\<lambda>x w. x \<or> w"] assms(2)
  by (auto simp: bitmap_set_bit_def set_bit_macro_def bit_simps set_eq_iff)

lemma bitmap_clear_bit_spec:
  assumes "bitmap_wf m" "b < n_bits m"
  shows "\<exists>m'. bitmap_clear_bit m b = Inr m' \<and> bitmap_wf m' \<and> n_bits m' = n_bits m \<and> map_bits m' = map_bits m - {unat b}"
proof -
  have "bit (x AND NOT w) j = (bit x j \<and> \<not> bit w j)" for x w :: "8 word" and j
    using bit_imp_le_length [of x j] by (auto simp: bit_simps)
  then show ?thesis using change_byte_bits [OF assms, of "\<lambda>x w. x AND NOT w" "\<lambda>x w. x \<and> \<not> w"] assms(2)
    by (auto simp: bitmap_clear_bit_def clear_bit_macro_def set_eq_iff)
qed

lemma bitmap_flip_bit_spec:
  assumes "bitmap_wf m" "b < n_bits m"
  shows "\<exists>m'. bitmap_flip_bit m b = Inr m' \<and> bitmap_wf m' \<and> n_bits m' = n_bits m
     \<and> map_bits m' = (if unat b \<in> map_bits m then map_bits m - {unat b} else insert (unat b) (map_bits m))"
  using change_byte_bits [OF assms, of "\<lambda>x w. x XOR w" "\<lambda>x w. x \<noteq> w"] assms(2)
  by (auto simp: bitmap_flip_bit_def flip_bit_macro_def bit_simps set_eq_iff)

lemma bitmap_is_set_spec:
  assumes "bitmap_wf m" "b < n_bits m"
  shows "\<exists>r. bitmap_is_set m b = Inr r \<and> (r \<noteq> 0 \<longleftrightarrow> unat b \<in> map_bits m)"
proof -
  let ?k = "unat b"
  have n: "?k < unat (n_bits m)" using assms(2) by (simp add: word_less_nat_alt)
  have len: "?k div 8 < length (bitmap m)" using n words_bounds(1) [OF assms(1)] assms(1) by (simp add: bitmap_wf_def)
  let ?x = "bitmap m ! (?k div 8) AND push_bit (?k mod 8) 1"
  have "?x \<noteq> 0 \<longleftrightarrow> bit_at (bitmap m) ?k" using test_bit_nonzero [of "?k mod 8"] by (simp add: bit_at_def)
  moreover have "(ucast ?x :: 32 word) = 0 \<longleftrightarrow> ?x = 0" by (rule ucast_zero)
  ultimately show ?thesis using len n assms(2)
    by (simp add: bitmap_is_set_def is_set_macro_def Let_def unat_and_7 unat_div_distrib map_bits_def)
qed

section \<open>All bits, comparison\<close>

lemma memset_map_bits:
  assumes "bitmap_wf m"
  shows "\<exists>m'. memset_map c m = Inr m' \<and> bitmap_wf m' \<and> n_bits m' = n_bits m \<and> map_bits m' = {i. i < unat (n_bits m) \<and> bit c (i mod 8)}"
proof -
  have "length (bitmap m) = 4 * words m" using assms by (simp add: bitmap_wf_def)
  moreover have "i div 8 < 4 * words m" if "i < unat (n_bits m)" for i using words_bounds(1) [OF assms] that by linarith
  ultimately show ?thesis using assms no_words [OF assms]
    by (auto simp: memset_map_def Let_def bitmap_wf_def words_def map_bits_def bit_at_def)
qed

lemma bitmap_clear_all_spec:
  "bitmap_wf m \<Longrightarrow> \<exists>m'. bitmap_clear_all m = Inr m' \<and> bitmap_wf m' \<and> n_bits m' = n_bits m \<and> map_bits m' = {}"
  using memset_map_bits [of m 0] by (simp add: bitmap_clear_all_def)

lemma bitmap_set_all_spec:
  assumes "bitmap_wf m"
  shows "\<exists>m'. bitmap_set_all m = Inr m' \<and> bitmap_wf m' \<and> n_bits m' = n_bits m \<and> map_bits m' = {..<unat (n_bits m)}"
proof -
  have "(0xFF :: 8 word) = - 1" by simp
  then have "bit (0xFF :: 8 word) (i mod 8)" for i :: nat by (simp only:) simp
  then show ?thesis using memset_map_bits [OF assms, where c = "0xFF"] by (auto simp: bitmap_set_all_def lessThan_def)
qed

lemma bit_at_or_word:
  assumes "i < 8 * length bs"
  shows "bit_at (or_word p w bs) i \<longleftrightarrow> bit_at bs i \<or> (i div 32 = p \<and> bit w (i mod 32))"
proof -
  have "i div 8 < length bs" using assms by linarith
  moreover have "i div 8 div 4 = i div 32" "8 * (i div 8 mod 4) + i mod 8 = i mod 32"
    using div_mult2_eq [of i 8 4] mod_mult2_eq [of i 8 4] by simp_all
  moreover have "bit (ucast (drop_bit k w) :: 8 word) (i mod 8) = bit w (k + i mod 8)" for k by (simp add: bit_ucast_iff bit_drop_bit_eq)
  ultimately show ?thesis by (simp add: bit_at_def or_word_def bit_or_iff)
qed

lemma bytes_eq:
  assumes "length xs = length ys"
  shows "xs = ys \<longleftrightarrow> (\<forall>i<8 * length xs. bit_at xs i = bit_at ys i)"
proof
  assume r: "\<forall>i<8 * length xs. bit_at xs i = bit_at ys i"
  have "xs ! k = ys ! k" if "k < length xs" for k
  proof (rule bit_word_eqI)
    fix j
    assume "j < LENGTH(8)"
    then show "bit (xs ! k) j = bit (ys ! k) j" using r [rule_format, of "8 * k + j"] that by (simp add: bit_at_def)
  qed
  then show "xs = ys" using assms by (simp add: list_eq_iff_nth_eq)
qed simp

lemma fill_last_word_spec:
  assumes wf: "bitmap_wf m"
  shows "\<exists>m'. fill_last_word m = Inr m' \<and> bitmap_wf m' \<and> n_bits m' = n_bits m \<and> map_bits m' = map_bits m
     \<and> (\<forall>i<32 * words m. bit_at (bitmap m') i \<longleftrightarrow> i \<in> map_bits m \<or> unat (n_bits m) \<le> i)"
proof -
  note b = words_bounds [OF wf]
  have len: "length (bitmap m) = 4 * words m" and p: "last_word_ptr m = words m - 1"
    and mask: "i < 32 \<Longrightarrow> bit (last_word_mask m) i \<longleftrightarrow> unat (n_bits m) \<le> 32 * (words m - 1) + i" for i
    using wf by (auto simp: bitmap_wf_def)
  let ?bs = "or_word (last_word_ptr m) (last_word_mask m) (bitmap m)"
  have at: "bit_at ?bs i \<longleftrightarrow> bit_at (bitmap m) i \<or> unat (n_bits m) \<le> i" if "i < 32 * words m" for i
  proof (cases "i div 32 = words m - 1")
    case True
    then have "32 * (words m - 1) + i mod 32 = i" by (metis div_mult_mod_eq mult.commute)
    then show ?thesis using bit_at_or_word [of i "bitmap m" "last_word_ptr m" "last_word_mask m"] that len p mask [of "i mod 32"] True by simp
  next
    case False
    then have "i < unat (n_bits m)" using that b(2) by linarith
    then show ?thesis using bit_at_or_word [of i "bitmap m" "last_word_ptr m" "last_word_mask m"] that len p False by simp
  qed
  have "fill_last_word m = Inr (m\<lparr>bitmap := ?bs\<rparr>)" using len p b(3) by (simp add: fill_last_word_def)
  moreover have "bitmap_wf (m\<lparr>bitmap := ?bs\<rparr>)" using wf by (simp add: bitmap_wf_def words_def or_word_def)
  moreover have "map_bits (m\<lparr>bitmap := ?bs\<rparr>) = map_bits m" using at b(1) by (auto simp: map_bits_def)
  ultimately show ?thesis using at by (auto simp: map_bits_def)
qed

text \<open>
  \<open>bitmap_cmp\<close> compares memory, but decides equality of the sets, whatever the unused bits of the last words hold; it writes
  into both buffers and leaves both sets as they are.
\<close>

theorem bitmap_cmp_equal_sets:
  assumes wf: "bitmap_wf a" "bitmap_wf b" and n: "n_bits a = n_bits b"
  shows "\<exists>a' b'. bitmap_cmp a b = Inr (a', b', map_bits a = map_bits b) \<and> bitmap_wf a' \<and> bitmap_wf b'
     \<and> map_bits a' = map_bits a \<and> map_bits b' = map_bits b"
proof -
  obtain a' where a: "fill_last_word a = Inr a'" "bitmap_wf a'" "n_bits a' = n_bits a" "map_bits a' = map_bits a"
    "\<forall>i<32 * words a. bit_at (bitmap a') i \<longleftrightarrow> i \<in> map_bits a \<or> unat (n_bits a) \<le> i" using fill_last_word_spec [OF wf(1)] by blast
  obtain b' where b: "fill_last_word b = Inr b'" "bitmap_wf b'" "n_bits b' = n_bits b" "map_bits b' = map_bits b"
    "\<forall>i<32 * words b. bit_at (bitmap b') i \<longleftrightarrow> i \<in> map_bits b \<or> unat (n_bits b) \<le> i" using fill_last_word_spec [OF wf(2)] by blast
  have w: "words b = words a" "words a' = words a" "words b' = words a" using n a(3) b(3) by (simp_all add: words_def)
  have len: "length (bitmap a') = 4 * words a" "length (bitmap b') = 4 * words a"
    using a(2) b(2) w by (simp_all add: bitmap_wf_def)
  have "bitmap a' = bitmap b' \<longleftrightarrow> (\<forall>i<32 * words a. bit_at (bitmap a') i = bit_at (bitmap b') i)"
    using bytes_eq [of "bitmap a'" "bitmap b'"] len by simp
  also have "\<dots> \<longleftrightarrow> (\<forall>i<32 * words a. i < unat (n_bits a) \<longrightarrow> (i \<in> map_bits a \<longleftrightarrow> i \<in> map_bits b))"
    using a(5) b(5) w(1) n by (auto simp: not_le)
  also have "\<dots> \<longleftrightarrow> map_bits a = map_bits b"
    using words_bounds(1) [OF wf(1)] n by (auto simp: set_eq_iff map_bits_def)
  finally have "bitmap a' = bitmap b' \<longleftrightarrow> map_bits a = map_bits b" .
  then show ?thesis using a b no_words [OF a(2)] len by (simp add: bitmap_cmp_def Let_def)
qed

definition ten_bits :: MY_BITMAP where
  "ten_bits = \<lparr>bitmap = [0, 0, 0, 0], n_bits = 10, last_word_mask = 0xFFFFFC00, last_word_ptr = 0\<rparr>"

lemma ten_bits_wf: "bitmap_wf (ten_bits\<lparr>bitmap := [0, 0, 0, c]\<rparr>)"
proof -
  have "(0xFFFFFC00 :: 32 word) = NOT (mask 10)" by (simp add: mask_eq_decr_exp)
  then have "bit (0xFFFFFC00 :: 32 word) i \<longleftrightarrow> 10 \<le> i" if "i < 32" for i
    using that by (simp only: bit_not_iff bit_mask_iff possible_bit_word) auto
  then show ?thesis by (simp add: bitmap_wf_def words_def ten_bits_def)
qed

lemma ten_bits_empty: "map_bits (ten_bits\<lparr>bitmap := [0, 0, 0, c]\<rparr>) = {}"
proof -
  have "i div 8 = 0 \<or> i div 8 = 1" if "i < 10" for i :: nat using that by linarith
  then show ?thesis by (auto simp: map_bits_def ten_bits_def bit_at_def) fastforce
qed

theorem bitmap_cmp_equal_sets_witness:
  "\<exists>a' b'. bitmap_cmp (ten_bits\<lparr>bitmap := [0, 0, 0, 0]\<rparr>) (ten_bits\<lparr>bitmap := [0, 0, 0, 128]\<rparr>) = Inr (a', b', True)"
  using bitmap_cmp_equal_sets [OF ten_bits_wf [of 0] ten_bits_wf [of 128]] unfolding ten_bits_empty by auto

section \<open>Many bits\<close>

text \<open>What a client of a bit vector relies on, whichever way the bits are stored.\<close>

locale bit_vector =
  fixes ok :: "'m \<Rightarrow> bool"
    and size :: "'m \<Rightarrow> 32 word"
    and bits :: "'m \<Rightarrow> nat set"
    and put :: "'m \<Rightarrow> 32 word \<Rightarrow> 'm res"
    and test :: "'m \<Rightarrow> 32 word \<Rightarrow> 32 word res"
  assumes put: "ok m \<Longrightarrow> b < size m \<Longrightarrow> \<exists>m'. put m b = Inr m' \<and> ok m' \<and> size m' = size m \<and> bits m' = insert (unat b) (bits m)"
    and test: "ok m \<Longrightarrow> b < size m \<Longrightarrow> \<exists>r. test m b = Inr r \<and> (r \<noteq> 0 \<longleftrightarrow> unat b \<in> bits m)"
begin

lemma put_all:
  "ok m \<Longrightarrow> \<forall>b\<in>set bs. b < size m \<Longrightarrow>
     \<exists>m'. run_steps put m bs = Inr m' \<and> ok m' \<and> size m' = size m \<and> bits m' = bits m \<union> unat ` set bs"
proof (induction bs arbitrary: m)
  case (Cons b bs)
  then obtain m1 where m1: "put m b = Inr m1" "ok m1" "size m1 = size m" "bits m1 = insert (unat b) (bits m)"
    using put [of m b] by auto
  then obtain m2 where "run_steps put m1 bs = Inr m2" "ok m2" "size m2 = size m" "bits m2 = bits m1 \<union> unat ` set bs"
    using Cons.IH [of m1] Cons.prems(2) by auto
  then show ?case using m1 by auto
qed simp

lemma put_all_test:
  assumes "ok m" "\<forall>b\<in>set bs. b < size m" "k < size m"
  shows "\<exists>m' r. run_steps put m bs = Inr m' \<and> test m' k = Inr r \<and> (r \<noteq> 0 \<longleftrightarrow> unat k \<in> bits m \<or> k \<in> set bs)"
proof -
  obtain m' where m: "run_steps put m bs = Inr m'" "ok m'" "size m' = size m" "bits m' = bits m \<union> unat ` set bs"
    using put_all [OF assms(1,2)] by blast
  moreover obtain r where "test m' k = Inr r" "r \<noteq> 0 \<longleftrightarrow> unat k \<in> bits m'" using test [of m' k] m assms(3) by auto
  moreover have "unat k \<in> unat ` set bs \<longleftrightarrow> k \<in> set bs"
    using inj_image_mem_iff [of "unat :: 32 word \<Rightarrow> nat" k "set bs"] by (simp add: inj_on_def word_unat_eq_iff)
  ultimately show ?thesis by auto
qed

end

interpretation bm: bit_vector bitmap_wf n_bits map_bits bitmap_set_bit bitmap_is_set
  by unfold_locales (fact bitmap_set_bit_spec, fact bitmap_is_set_spec)

text \<open>
  After \<open>bitmap_clear_all\<close> and any sequence of \<open>bitmap_set_bit\<close> within the size, \<open>bitmap_is_set\<close> is not 0 exactly for the numbers
  that were set.
\<close>

theorem bitmap_remembers:
  assumes "bitmap_wf m" "\<forall>b\<in>set bs. b < n_bits m" "k < n_bits m"
  shows "\<exists>m' r. rbind (bitmap_clear_all m) (\<lambda>m. run_steps bitmap_set_bit m bs) = Inr m' \<and> bitmap_is_set m' k = Inr r
     \<and> (r \<noteq> 0 \<longleftrightarrow> k \<in> set bs)"
proof -
  obtain m0 where "bitmap_clear_all m = Inr m0" "bitmap_wf m0" "n_bits m0 = n_bits m" "map_bits m0 = {}"
    using bitmap_clear_all_spec [OF assms(1)] by blast
  then show ?thesis using bm.put_all_test [of m0 bs k] assms(2,3) by simp
qed

theorem bitmap_remembers_witness:
  "\<exists>m' r. rbind (bitmap_clear_all ten_bits) (\<lambda>m. run_steps bitmap_set_bit m [3, 9, 3]) = Inr m' \<and> bitmap_is_set m' 9 = Inr r \<and> r \<noteq> 0"
proof -
  have n: "n_bits ten_bits = 10" by (simp add: ten_bits_def)
  have wf: "bitmap_wf ten_bits" using ten_bits_wf [of 0] by (simp add: ten_bits_def)
  have "\<exists>m' r. rbind (bitmap_clear_all ten_bits) (\<lambda>m. run_steps bitmap_set_bit m [3, 9, 3]) = Inr m' \<and> bitmap_is_set m' 9 = Inr r
     \<and> (r \<noteq> 0 \<longleftrightarrow> (9 :: 32 word) \<in> set [3, 9, 3])"
    by (rule bitmap_remembers [OF wf]) (auto simp: n)
  then show ?thesis by simp
qed

section \<open>Bits of an integer\<close>

definition bit_is_set :: "32 word \<Rightarrow> nat \<Rightarrow> int" where
  "bit_is_set I B = (if B < 32 then (if (ucast I :: 64 word) AND push_bit B 1 = 0 then 0 else 1) else -1)"

definition bit_do_set :: "32 word \<Rightarrow> nat \<Rightarrow> 32 word \<times> int" where
  "bit_do_set I B = (if B < 32 then (ucast (ucast I OR push_bit B (1 :: 64 word)), 1) else (I, -1))"

definition bit_do_clear :: "32 word \<Rightarrow> nat \<Rightarrow> 32 word \<times> int" where
  "bit_do_clear I B = (if B < 32 then (ucast (ucast I AND NOT (push_bit B (1 :: 64 word))), 0) else (I, -1))"

text \<open>Each macro returns the state of the bit after it, and changes no other bit; out of range all return -1 and change nothing.\<close>

theorem integer_bit_macros:
  "bit_is_set (fst (bit_do_set I B)) B = snd (bit_do_set I B) \<and> bit_is_set (fst (bit_do_clear I B)) B = snd (bit_do_clear I B)
   \<and> (j \<noteq> B \<longrightarrow> bit (fst (bit_do_set I B)) j = bit I j \<and> bit (fst (bit_do_clear I B)) j = bit I j)"
proof -
  have t: "bit_is_set w B = (if bit w B then 1 else 0)" if "B < 32" for w
  proof -
    have "(ucast w :: 64 word) AND 2 ^ B = 0 \<longleftrightarrow> \<not> bit (ucast w :: 64 word) B" by (rule and_exp_eq_0_iff_not_bit)
    then show ?thesis using that by (simp add: bit_is_set_def bit_ucast_iff)
  qed
  have s: "bit (fst (bit_do_set I B)) k = (k = B \<or> bit I k)" if "B < 32" for k
    using that bit_imp_le_length [of I k] by (auto simp: bit_do_set_def bit_simps)
  have c: "bit (fst (bit_do_clear I B)) k = (k \<noteq> B \<and> bit I k)" if "B < 32" for k
    using that bit_imp_le_length [of I k] by (auto simp: bit_do_clear_def bit_simps)
  show ?thesis
  proof (cases "B < 32")
    case True
    then show ?thesis using t s c by (simp add: bit_do_set_def [of I B] bit_do_clear_def [of I B])
  next
    case False
    then show ?thesis by (simp add: bit_do_set_def bit_do_clear_def bit_is_set_def)
  qed
qed

end
