(* ===== verification/Connector.thy ===== *)
theory Connector
  imports GPS_Prelude
begin

text \<open>
  The inline functions of the connector's other headers: \<open>skip_trailing_space\<close> of \<open>m_string.h\<close>, \<open>validate_timestamp_range\<close> of
  \<open>my_time.h\<close>, and the trie of \<open>my_trie.h\<close> with its Aho-Corasick search. Nodes live in a heap; how the library builds a trie
  is not in the headers, so what it builds is a hypothesis.
\<close>

section \<open>Trailing space\<close>

definition read_byte :: "(nat \<Rightarrow> 8 word) \<Rightarrow> nat \<Rightarrow> nat \<Rightarrow> nat \<Rightarrow> 8 word res" where
  "read_byte mem lo hi a = rbind (guard (lo \<le> a \<and> a < hi) OutOfBounds) (\<lambda>_. Inr (mem a))"

definition SPACE :: "8 word" where
  "SPACE = 0x20"

definition SPACE_INT :: "8 word list" where
  "SPACE_INT = [0x20, 0x20, 0x20, 0x20]"

definition SIZEOF_INT :: nat where
  "SIZEOF_INT = 4"

text \<open>\<open>((unsigned *)end)[-1]\<close>: the four bytes before \<open>end\<close>.\<close>

definition read_int :: "(nat \<Rightarrow> 8 word) \<Rightarrow> nat \<Rightarrow> nat \<Rightarrow> nat \<Rightarrow> 8 word list res" where
  "read_int mem lo hi e = rbind (guard (lo + SIZEOF_INT \<le> e \<and> e \<le> hi) OutOfBounds) (\<lambda>_. Inr (map mem [e - SIZEOF_INT..<e]))"

fun skip_bytes :: "(nat \<Rightarrow> 8 word res) \<Rightarrow> nat \<Rightarrow> nat \<Rightarrow> nat res" where
  "skip_bytes rd stop 0 = Inr 0"
| "skip_bytes rd stop (Suc e) = (if stop < Suc e then rbind (rd e) (\<lambda>b. if b = SPACE then skip_bytes rd stop e else Inr (Suc e))
     else Inr (Suc e))"

function skip_words :: "(nat \<Rightarrow> 8 word list res) \<Rightarrow> nat \<Rightarrow> nat \<Rightarrow> nat res" where
  "skip_words rd stop e = (if stop < e then rbind (rd e) (\<lambda>w. if w = SPACE_INT then skip_words rd stop (e - SIZEOF_INT) else Inr e)
     else Inr e)"
  by auto
termination
  by (relation "measure (\<lambda>(rd, stop, e). e)") (auto simp: SIZEOF_INT_def)

declare skip_words.simps [simp del]

definition skip_trailing_space :: "(nat \<Rightarrow> 8 word) \<Rightarrow> nat \<Rightarrow> nat \<Rightarrow> nat res" where
  "skip_trailing_space mem ptr len = (let hi = ptr + len; rd = read_byte mem ptr hi in
     rbind (if 20 < len then
         (let end_words = hi div SIZEOF_INT * SIZEOF_INT; start_words = (ptr + SIZEOF_INT - 1) div SIZEOF_INT * SIZEOF_INT in
          rbind (guard (SIZEOF_INT \<le> ptr) AssertFail) (\<lambda>_.
          if ptr < end_words then
            rbind (skip_bytes rd end_words hi) (\<lambda>e.
            rbind (rd (e - 1)) (\<lambda>b.
            if b = SPACE \<and> start_words < end_words then skip_words (read_int mem ptr hi) start_words e else Inr e))
          else Inr hi))
       else Inr hi)
     (\<lambda>e. skip_bytes rd ptr e))"

definition spaces :: "(nat \<Rightarrow> 8 word) \<Rightarrow> nat \<Rightarrow> nat \<Rightarrow> bool" where
  "spaces mem a b \<longleftrightarrow> (\<forall>i. a \<le> i \<longrightarrow> i < b \<longrightarrow> mem i = SPACE)"

lemma spaces_refl [simp]: "spaces mem a a"
  by (simp add: spaces_def)

lemma spaces_trans: "spaces mem a b \<Longrightarrow> spaces mem b c \<Longrightarrow> spaces mem a c"
  by (meson not_le spaces_def)

lemma spaces_Suc: "spaces mem a b \<Longrightarrow> mem b = SPACE \<Longrightarrow> spaces mem a (Suc b)"
  by (auto simp: spaces_def less_Suc_eq)

lemma skip_bytes_spec:
  "lo \<le> stop \<Longrightarrow> stop \<le> e \<Longrightarrow> e \<le> hi \<Longrightarrow>
   \<exists>e'. skip_bytes (read_byte mem lo hi) stop e = Inr e' \<and> stop \<le> e' \<and> e' \<le> e \<and> spaces mem e' e \<and> (e' = stop \<or> mem (e' - 1) \<noteq> SPACE)"
proof (induction e)
  case (Suc e)
  show ?case
  proof (cases "stop < Suc e \<and> mem e = SPACE")
    case True
    then obtain e' where e': "skip_bytes (read_byte mem lo hi) stop e = Inr e'" "stop \<le> e'" "e' \<le> e" "spaces mem e' e"
      "e' = stop \<or> mem (e' - 1) \<noteq> SPACE" using Suc by (metis less_Suc_eq_le Suc_leD)
    have "skip_bytes (read_byte mem lo hi) stop (Suc e) = Inr e'" using True Suc.prems e'(1) by (simp add: read_byte_def)
    then show ?thesis using e' spaces_Suc [OF e'(4)] True by (intro exI [of _ e']) simp
  next
    case False
    have "skip_bytes (read_byte mem lo hi) stop (Suc e) = Inr (Suc e)" using False Suc.prems by (auto simp: read_byte_def)
    then show ?thesis using False Suc.prems by (intro exI [of _ "Suc e"]) auto
  qed
qed simp

lemma skip_words_spec:
  "lo \<le> stop \<Longrightarrow> stop \<le> e \<Longrightarrow> e \<le> hi \<Longrightarrow> 4 dvd stop \<Longrightarrow> 4 dvd e \<Longrightarrow>
   \<exists>e'. skip_words (read_int mem lo hi) stop e = Inr e' \<and> stop \<le> e' \<and> e' \<le> e \<and> spaces mem e' e"
proof (induction e rule: less_induct)
  case (less e)
  have le: "stop + 4 \<le> e" if "stop < e" using that less.prems(4,5) by (auto elim!: dvdE)
  show ?case
  proof (cases "stop < e \<and> map mem [e - 4..<e] = SPACE_INT")
    case True
    then obtain k where k: "e = k + 4" "stop \<le> k" using le by (metis add_le_cancel_right le_add_diff_inverse2 add_leD2)
    have "4 dvd k" using less.prems(5) k(1) by simp
    then obtain e' where e': "skip_words (read_int mem lo hi) stop k = Inr e'" "stop \<le> e'" "e' \<le> k" "spaces mem e' k"
      using less.IH [of k] less.prems k by (metis add_leD1 less_add_same_cancel1 zero_less_numeral)
    have "[k..<k + 4] = [k, k + 1, k + 2, k + 3]" by (simp add: upt_rec)
    then have "mem k = SPACE" "mem (k + 1) = SPACE" "mem (k + 2) = SPACE" "mem (k + 3) = SPACE"
      using True by (simp_all add: k(1) SPACE_INT_def SPACE_def)
    then have "spaces mem k e"
      using spaces_Suc [OF spaces_Suc [OF spaces_Suc [OF spaces_Suc [OF spaces_refl [of mem k]]]]] k(1) by (simp add: numeral_eq_Suc)
    moreover have "skip_words (read_int mem lo hi) stop e = Inr e'"
      using True k e'(1) less.prems by (subst skip_words.simps) (simp add: read_int_def SIZEOF_INT_def)
    ultimately show ?thesis using e' k spaces_trans by (intro exI [of _ e']) auto
  next
    case False
    have "skip_words (read_int mem lo hi) stop e = Inr e"
      using False less.prems le by (subst skip_words.simps) (auto simp: read_int_def SIZEOF_INT_def)
    then show ?thesis using less.prems by auto
  qed
qed

text \<open>The reference: the text without the spaces at its end.\<close>

definition strip_spaces :: "8 word list \<Rightarrow> 8 word list" where
  "strip_spaces xs = rev (dropWhile (\<lambda>b. b = SPACE) (rev xs))"

lemma strip_spaces_unique:
  assumes "lo \<le> e" "e \<le> hi" "spaces mem e hi" "e = lo \<or> mem (e - 1) \<noteq> SPACE"
  shows "length (strip_spaces (map mem [lo..<hi])) = e - lo"
proof -
  obtain n where "hi = e + n" using assms(2) by (metis le_add_diff_inverse)
  then have "[lo..<hi] = [lo..<e] @ [e..<hi]" using upt_add_eq_append [OF assms(1)] by simp
  then have "strip_spaces (map mem [lo..<hi]) = strip_spaces (map mem [lo..<e])"
    unfolding strip_spaces_def by simp (subst dropWhile_append2, use assms(3) in \<open>auto simp: spaces_def\<close>)
  moreover have "strip_spaces (map mem [lo..<e]) = map mem [lo..<e]"
  proof (cases "e = lo")
    case False
    then obtain k where "e = Suc k" "lo \<le> k" using assms(1) by (metis Suc_le_D Suc_leI le_antisym not_less_eq_eq)
    then show ?thesis using assms(4) False by (simp add: strip_spaces_def)
  qed (simp add: strip_spaces_def)
  ultimately show ?thesis by simp
qed

text \<open>
  \<open>skip_trailing_space\<close>, which compares four bytes at a time in the aligned part of a long string, returns the same end as the
  removal of spaces one by one, for every length and alignment, and reads nothing outside the string.
\<close>

theorem skip_trailing_space_reference:
  assumes "SIZEOF_INT \<le> ptr"
  shows "skip_trailing_space mem ptr len = Inr (ptr + length (strip_spaces (map mem [ptr..<ptr + len])))"
proof -
  let ?hi = "ptr + len" and ?rd = "read_byte mem ptr (ptr + len)"
  have fin: "rbind (Inr e) (skip_bytes ?rd ptr) = Inr (ptr + length (strip_spaces (map mem [ptr..<?hi])))"
    if h: "ptr \<le> e" "e \<le> ?hi" "spaces mem e ?hi" for e
  proof -
    obtain e' where e': "skip_bytes ?rd ptr e = Inr e'" "ptr \<le> e'" "e' \<le> e" "spaces mem e' e" "e' = ptr \<or> mem (e' - 1) \<noteq> SPACE"
      using skip_bytes_spec [OF order_refl h(1,2), of mem] by blast
    from strip_spaces_unique [OF e'(2) _ spaces_trans [OF e'(4) h(3)] e'(5)] show ?thesis using e' h by simp
  qed
  let ?ew = "?hi div 4 * 4" and ?sw = "(ptr + 4 - 1) div 4 * 4"
  have ew: "?ew \<le> ?hi" by simp
  have sw: "ptr \<le> ?sw" by linarith
  show ?thesis
  proof (cases "20 < len \<and> ptr < ?ew")
    case False
    then show ?thesis using fin [of ?hi] assms by (auto simp: skip_trailing_space_def Let_def SIZEOF_INT_def)
  next
    case True
    then obtain e where e: "skip_bytes ?rd ?ew ?hi = Inr e" "?ew \<le> e" "e \<le> ?hi" "spaces mem e ?hi" "e = ?ew \<or> mem (e - 1) \<noteq> SPACE"
      using skip_bytes_spec [of ptr ?ew ?hi ?hi mem] ew by (meson less_imp_le order_refl)
    have "ptr < e" using True e(2) by linarith
    then have rd: "?rd (e - 1) = Inr (mem (e - 1))" using e(3) by (auto simp: read_byte_def)
    have "\<exists>e1. (if mem (e - 1) = SPACE \<and> ?sw < ?ew then skip_words (read_int mem ptr ?hi) ?sw e else Inr e) = Inr e1
       \<and> ptr \<le> e1 \<and> e1 \<le> ?hi \<and> spaces mem e1 ?hi"
    proof (cases "mem (e - 1) = SPACE \<and> ?sw < ?ew")
      case c: True
      then have ee: "e = ?ew" using e(5) by simp
      obtain e1 where e1: "skip_words (read_int mem ptr ?hi) ?sw ?ew = Inr e1" "?sw \<le> e1" "e1 \<le> ?ew" "spaces mem e1 ?ew"
        using skip_words_spec [OF sw less_imp_le [OF conjunct2 [OF c]] ew, of mem] by auto
      then show ?thesis using spaces_trans [OF e1(4), of ?hi] e(4) c sw ew unfolding if_P [OF c] ee
        by (intro exI [of _ e1]) (auto intro: order_trans)
    next
      case c: False
      then show ?thesis unfolding if_not_P [OF c] using e(3,4) \<open>ptr < e\<close> by (intro exI [of _ e]) auto
    qed
    then obtain e1 where e1: "(if mem (e - 1) = SPACE \<and> ?sw < ?ew then skip_words (read_int mem ptr ?hi) ?sw e else Inr e) = Inr e1"
       "ptr \<le> e1" "e1 \<le> ?hi" "spaces mem e1 ?hi" by blast
    have "skip_trailing_space mem ptr len = rbind (Inr e1) (skip_bytes ?rd ptr)"
    proof -
      have c: "(20 < len) = True" "(ptr < ?ew) = True" "(4 \<le> ptr) = True" using True assms by (simp_all add: SIZEOF_INT_def)
      show ?thesis unfolding skip_trailing_space_def Let_def SIZEOF_INT_def
        by (simp only: c if_True guard_True rbind.simps e(1) rd e1(1))
    qed
    then show ?thesis using fin [OF e1(2-4)] by simp
  qed
qed

theorem skip_trailing_space_reference_witness:
  "skip_trailing_space (\<lambda>a. if a < 12 then 0x41 else SPACE) 10 30 = Inr 12"
proof -
  have "strip_spaces (map (\<lambda>a. if a < 12 then 0x41 else SPACE) [10..<40]) = [0x41, 0x41]"
    by (simp add: upt_rec strip_spaces_def SPACE_def)
  then show ?thesis
    using skip_trailing_space_reference [of 10 "\<lambda>a. if a < 12 then 0x41 else SPACE" 30] by (simp add: SIZEOF_INT_def)
qed

section \<open>Timestamps\<close>

datatype enum_mysql_timestamp_type =
    MYSQL_TIMESTAMP_NONE | MYSQL_TIMESTAMP_ERROR | MYSQL_TIMESTAMP_DATE | MYSQL_TIMESTAMP_DATETIME | MYSQL_TIMESTAMP_TIME

record MYSQL_TIME =
  year :: nat
  month :: nat
  day :: nat
  hour :: nat
  minute :: nat
  second :: nat
  second_part :: nat
  neg :: bool
  time_type :: enum_mysql_timestamp_type

definition TIMESTAMP_MAX_YEAR :: nat where
  "TIMESTAMP_MAX_YEAR = 2038"

definition YY_PART_YEAR :: nat where
  "YY_PART_YEAR = 70"

definition TIMESTAMP_MIN_YEAR :: nat where
  "TIMESTAMP_MIN_YEAR = 1900 + YY_PART_YEAR - 1"

definition validate_timestamp_range :: "MYSQL_TIME \<Rightarrow> bool" where
  "validate_timestamp_range t =
     (if (TIMESTAMP_MAX_YEAR < year t \<or> year t < TIMESTAMP_MIN_YEAR)
        \<or> (year t = TIMESTAMP_MAX_YEAR \<and> (1 < month t \<or> 19 < day t))
        \<or> (year t = TIMESTAMP_MIN_YEAR \<and> (month t < 12 \<or> day t < 31))
      then False else True)"

text \<open>The order of dates.\<close>

definition date_le :: "nat \<times> nat \<times> nat \<Rightarrow> nat \<times> nat \<times> nat \<Rightarrow> bool" where
  "date_le = (\<lambda>(y, m, d) (y', m', d'). y < y' \<or> (y = y' \<and> (m < m' \<or> (m = m' \<and> d \<le> d'))))"

text \<open>
  On dates of the calendar \<open>validate_timestamp_range\<close> is true exactly from the last day of 1969 to the 19th of January 2038,
  the days that some time zone shares with the range of a signed 32-bit count of seconds. The comment above it documents the
  opposite result: false for a sane value and true for one out of range.
\<close>

theorem validate_timestamp_range_dates:
  assumes "1 \<le> month t" "month t \<le> 12" "1 \<le> day t" "day t \<le> 31"
  shows "validate_timestamp_range t \<longleftrightarrow>
     date_le (1969, 12, 31) (year t, month t, day t) \<and> date_le (year t, month t, day t) (2038, 1, 19)"
  using assms
  by (auto simp: validate_timestamp_range_def date_le_def TIMESTAMP_MAX_YEAR_def TIMESTAMP_MIN_YEAR_def YY_PART_YEAR_def)

definition midnight :: "nat \<Rightarrow> nat \<Rightarrow> nat \<Rightarrow> MYSQL_TIME" where
  "midnight y m d = \<lparr>year = y, month = m, day = d, hour = 0, minute = 0, second = 0, second_part = 0, neg = False,
     time_type = MYSQL_TIMESTAMP_DATETIME\<rparr>"

theorem validate_timestamp_range_dates_witness:
  "validate_timestamp_range (midnight 2038 1 19) \<and> \<not> validate_timestamp_range (midnight 2038 1 20)"
  using validate_timestamp_range_dates [of "midnight 2038 1 19"] validate_timestamp_range_dates [of "midnight 2038 1 20"]
  by (simp add: date_le_def midnight_def)

section \<open>Tries\<close>

record TRIE_NODE =
  leaf :: nat
  label :: "8 word"
  nxt :: "nat option"
  links :: "nat option"
  fail :: "nat option"

type_synonym nodes = "nat \<Rightarrow> TRIE_NODE option"

text \<open>The loop over the edges of a node, in \<open>trie_goto\<close> and in \<open>trie_search\<close>: it may not end, and it may follow a bad pointer.\<close>

partial_function (option) scan :: "nodes \<Rightarrow> 8 word \<Rightarrow> nat option \<Rightarrow> nat option res option" where
  "scan h ch p = (case p of None \<Rightarrow> Some (Inr None)
     | Some a \<Rightarrow> (case h a of None \<Rightarrow> Some (Inl UseAfterFree)
         | Some n \<Rightarrow> if label n = ch then Some (Inr (Some a)) else scan h ch (nxt n)))"

definition trie_goto :: "nodes \<Rightarrow> nat \<Rightarrow> nat \<Rightarrow> 8 word \<Rightarrow> nat option res option" where
  "trie_goto h root node ch = (case h node of None \<Rightarrow> Some (Inl UseAfterFree)
     | Some n \<Rightarrow> (case scan h ch (links n) of
         Some (Inr None) \<Rightarrow> if root = node then Some (Inr (Some root)) else Some (Inr None)
       | r \<Rightarrow> r))"

text \<open>The new state and its \<open>leaf\<close>.\<close>

partial_function (option) ac_trie_next :: "nodes \<Rightarrow> nat \<Rightarrow> nat \<Rightarrow> 8 word \<Rightarrow> (nat \<times> nat) res option" where
  "ac_trie_next h root node ch = (case trie_goto h root node ch of
       None \<Rightarrow> None
     | Some (Inl e) \<Rightarrow> Some (Inl e)
     | Some (Inr (Some a)) \<Rightarrow> (case h a of None \<Rightarrow> Some (Inl UseAfterFree) | Some n \<Rightarrow> Some (Inr (a, leaf n)))
     | Some (Inr None) \<Rightarrow> (case h node of None \<Rightarrow> Some (Inl UseAfterFree)
         | Some n \<Rightarrow> (case fail n of None \<Rightarrow> Some (Inl NullDeref) | Some f \<Rightarrow> ac_trie_next h root f ch)))"

primrec search_loop :: "nodes \<Rightarrow> nat \<Rightarrow> 8 word list \<Rightarrow> bool res option" where
  "search_loop h node [] = (case h node of None \<Rightarrow> Some (Inl UseAfterFree) | Some n \<Rightarrow> Some (Inr (0 < leaf n)))"
| "search_loop h node (p # key) = (case h node of None \<Rightarrow> Some (Inl UseAfterFree)
     | Some n \<Rightarrow> (case scan h p (links n) of
         None \<Rightarrow> None
       | Some (Inl e) \<Rightarrow> Some (Inl e)
       | Some (Inr None) \<Rightarrow> Some (Inr False)
       | Some (Inr (Some a)) \<Rightarrow> search_loop h a key))"

definition trie_search :: "nodes \<Rightarrow> nat \<Rightarrow> 8 word list \<Rightarrow> bool res option" where
  "trie_search h root key = (if key = [] then Some (Inl AssertFail) else search_loop h root key)"

text \<open>What a trie is: the paths \<open>P\<close> from the root, each at its address, its edges in a finite list.\<close>

primrec edges :: "nodes \<Rightarrow> nat option \<Rightarrow> (8 word \<times> nat) list \<Rightarrow> bool" where
  "edges h p [] \<longleftrightarrow> p = None"
| "edges h p (e # es) \<longleftrightarrow> p = Some (snd e) \<and> (\<exists>n. h (snd e) = Some n \<and> label n = fst e \<and> edges h (nxt n) es)"

definition is_trie :: "nodes \<Rightarrow> (8 word list \<Rightarrow> nat) \<Rightarrow> 8 word list set \<Rightarrow> bool" where
  "is_trie h at P \<longleftrightarrow> [] \<in> P \<and> (\<forall>s b. s @ [b] \<in> P \<longrightarrow> s \<in> P)
     \<and> (\<forall>s\<in>P. \<exists>n es. h (at s) = Some n \<and> edges h (links n) es
          \<and> (\<forall>b. map_of es b = (if s @ [b] \<in> P then Some (at (s @ [b])) else None)))"

definition words_of :: "nodes \<Rightarrow> (8 word list \<Rightarrow> nat) \<Rightarrow> 8 word list set \<Rightarrow> 8 word list set" where
  "words_of h at P = {s \<in> P. \<exists>n. h (at s) = Some n \<and> 0 < leaf n}"

lemma scan_edges: "edges h p es \<Longrightarrow> scan h ch p = Some (Inr (map_of es ch))"
proof (induction es arbitrary: p)
  case Nil
  then show ?case by (subst scan.simps) simp
next
  case (Cons e es)
  then obtain n where "p = Some (snd e)" "h (snd e) = Some n" "label n = fst e" "edges h (nxt n) es" by auto
  then show ?case using Cons.IH [of "nxt n"] by (subst scan.simps) (cases e, simp)
qed

lemma scan_path:
  assumes "is_trie h at P" "s \<in> P"
  shows "\<exists>n. h (at s) = Some n \<and> scan h b (links n) = Some (Inr (if s @ [b] \<in> P then Some (at (s @ [b])) else None))"
proof -
  have "\<forall>s\<in>P. \<exists>n es. h (at s) = Some n \<and> edges h (links n) es
      \<and> (\<forall>b. map_of es b = (if s @ [b] \<in> P then Some (at (s @ [b])) else None))" using assms(1) unfolding is_trie_def by (elim conjE)
  from bspec [OF this assms(2)] obtain n es where n: "h (at s) = Some n" "edges h (links n) es"
    "map_of es b = (if s @ [b] \<in> P then Some (at (s @ [b])) else None)" by blast
  show ?thesis using scan_edges [OF n(2), of b] n(1,3) by (simp only: option.inject ex_simps simp_thms)
qed

lemma prefix_closed: "is_trie h at P \<Longrightarrow> s @ t \<in> P \<Longrightarrow> s \<in> P"
proof (induction t rule: rev_induct)
  case (snoc b t)
  then have "(s @ t) @ [b] \<in> P" by simp
  then show ?case using snoc unfolding is_trie_def by blast
qed simp

lemma search_loop_path:
  assumes "is_trie h at P" "s \<in> P"
  shows "search_loop h (at s) key = Some (Inr (s @ key \<in> words_of h at P))"
  using assms(2)
proof (induction key arbitrary: s)
  case Nil
  then obtain n where "h (at s) = Some n" using scan_path [OF assms(1)] by blast
  then show ?case using Nil by (simp add: words_of_def)
next
  case (Cons b key)
  obtain n where n: "h (at s) = Some n" "scan h b (links n) = Some (Inr (if s @ [b] \<in> P then Some (at (s @ [b])) else None))"
    using scan_path [OF assms(1) Cons.prems] by blast
  show ?case
  proof (cases "s @ [b] \<in> P")
    case True
    then show ?thesis using n Cons.IH [OF True] by simp
  next
    case False
    then have "s @ b # key \<notin> P" using prefix_closed [OF assms(1), of "s @ [b]" key] by auto
    then show ?thesis using n False by (simp add: words_of_def)
  qed
qed

text \<open>\<open>trie_search\<close> ends on every trie and finds exactly its words; the empty key fails the assertion.\<close>

theorem trie_search_words:
  assumes "is_trie h at P" "key \<noteq> []"
  shows "trie_search h (at []) key = Some (Inr (key \<in> words_of h at P))"
  using search_loop_path [OF assms(1), of "[]" key] assms by (simp add: trie_search_def is_trie_def)

text \<open>The longest suffix of a text that is a path.\<close>

fun longest_suffix :: "8 word list set \<Rightarrow> 8 word list \<Rightarrow> 8 word list" where
  "longest_suffix P [] = []"
| "longest_suffix P (b # t) = (if b # t \<in> P then b # t else longest_suffix P t)"

definition longest :: "8 word list set \<Rightarrow> 8 word list \<Rightarrow> 8 word list \<Rightarrow> bool" where
  "longest P w s \<longleftrightarrow> s \<in> P \<and> (\<exists>u. w = u @ s) \<and> (\<forall>v\<in>P. (\<exists>u. w = u @ v) \<longrightarrow> length v \<le> length s)"

lemma longest_suffix_in: "[] \<in> P \<Longrightarrow> longest_suffix P w \<in> P"
  by (induction w) auto

lemma longest_suffix_length: "length (longest_suffix P w) \<le> length w"
  by (induction w) auto

lemma longest_suffix_path: "w \<in> P \<Longrightarrow> longest_suffix P w = w"
  by (cases w) auto

lemma longest_suffix_longest: "[] \<in> P \<Longrightarrow> longest P w (longest_suffix P w)"
proof (induction w)
  case (Cons b t)
  show ?case
  proof (cases "b # t \<in> P")
    case True
    moreover have "b # t = u @ v \<Longrightarrow> length v \<le> length (b # t)" for u v by simp
    ultimately show ?thesis unfolding longest_def by (metis append_Nil longest_suffix.simps(2))
  next
    case False
    let ?L = "longest_suffix P t"
    have l: "?L \<in> P" "\<exists>u. t = u @ ?L" "v \<in> P \<Longrightarrow> t = u @ v \<Longrightarrow> length v \<le> length ?L" for u v
      using Cons by (auto simp: longest_def)
    have "length v \<le> length ?L" if v: "v \<in> P" "b # t = u @ v" for u v
    proof (cases u)
      case Nil
      then show ?thesis using v False by simp
    next
      case (Cons x u')
      then show ?thesis using v(2) l(3) [OF v(1), of u'] by simp
    qed
    moreover have "\<exists>u. b # t = u @ ?L" using l(2) by (metis append_Cons)
    ultimately show ?thesis using False l(1) by (auto simp: longest_def)
  qed
qed (simp add: longest_def)

lemma longest_unique: "longest P w s \<Longrightarrow> longest P w t \<Longrightarrow> s = t"
  unfolding longest_def by (metis append_eq_append_conv le_antisym)

lemma longest_suffix_snoc:
  assumes "[] \<in> P" "\<And>s b. s @ [b] \<in> P \<Longrightarrow> s \<in> P"
  shows "longest_suffix P (w @ [b]) = longest_suffix P (longest_suffix P w @ [b])"
proof (induction w)
  case (Cons x t)
  show ?case
  proof (cases "x # t \<in> P")
    case False
    then have "x # t @ [b] \<notin> P" using assms(2) [of "x # t" b] by auto
    then show ?thesis using False Cons by simp
  qed simp
qed simp

text \<open>The failure pointers, as the library prepares them: to the longest proper suffix that is a path.\<close>

definition is_automaton :: "nodes \<Rightarrow> (8 word list \<Rightarrow> nat) \<Rightarrow> 8 word list set \<Rightarrow> bool" where
  "is_automaton h at P \<longleftrightarrow> is_trie h at P
     \<and> (\<forall>s\<in>P. s \<noteq> [] \<longrightarrow> at s \<noteq> at [] \<and> (\<forall>n. h (at s) = Some n \<longrightarrow> fail n = Some (at (longest_suffix P (tl s)))))"

lemma ac_trie_next_path:
  assumes aut: "is_automaton h at P"
  shows "s \<in> P \<Longrightarrow> \<exists>n. h (at (longest_suffix P (s @ [b]))) = Some n
     \<and> ac_trie_next h (at []) (at s) b = Some (Inr (at (longest_suffix P (s @ [b])), leaf n))"
proof (induction s rule: measure_induct_rule [of length])
  case (less s)
  have tr: "is_trie h at P" using aut by (simp add: is_automaton_def)
  have nil: "[] \<in> P" and pre: "\<And>s b. s @ [b] \<in> P \<Longrightarrow> s \<in> P" using tr unfolding is_trie_def by blast+
  obtain n where n: "h (at s) = Some n" "scan h b (links n) = Some (Inr (if s @ [b] \<in> P then Some (at (s @ [b])) else None))"
    using scan_path [OF tr less.prems] by blast
  show ?case
  proof (cases "s @ [b] \<in> P")
    case True
    obtain m where "h (at (s @ [b])) = Some m" using scan_path [OF tr True] by blast
    then show ?thesis using n True longest_suffix_path [OF True] by (subst ac_trie_next.simps) (simp add: trie_goto_def)
  next
    case out: False
    show ?thesis
    proof (cases s)
      case Nil
      then have "longest_suffix P (s @ [b]) = []" using out by simp
      then show ?thesis using n out Nil by (subst ac_trie_next.simps) (simp add: trie_goto_def)
    next
      case (Cons x t)
      let ?f = "longest_suffix P t"
      have f: "fail n = Some (at ?f)" "at s \<noteq> at []" using aut less.prems n(1) Cons by (auto simp: is_automaton_def)
      have "length ?f < length s" using longest_suffix_length [of P t] Cons by simp
      from less.IH [OF this longest_suffix_in [OF nil]] obtain m where m: "h (at (longest_suffix P (?f @ [b]))) = Some m"
        "ac_trie_next h (at []) (at ?f) b = Some (Inr (at (longest_suffix P (?f @ [b])), leaf m))" by blast
      have "longest_suffix P (s @ [b]) = longest_suffix P (t @ [b])" using out Cons by simp
      also have "\<dots> = longest_suffix P (?f @ [b])" by (rule longest_suffix_snoc [OF nil pre])
      finally have e: "longest_suffix P (s @ [b]) = longest_suffix P (?f @ [b])" .
      have "ac_trie_next h (at []) (at s) b = ac_trie_next h (at []) (at ?f) b"
        using n f out by (subst ac_trie_next.simps) (simp add: trie_goto_def)
      then show ?thesis using m e by simp
    qed
  qed
qed

text \<open>
  C37. \<open>ac_trie_next\<close> keeps its invariant: if the state is the longest path that the text read so far ends with, then it ends, and
  the next state is the longest path that the text with one more character ends with; the result is the \<open>leaf\<close> of that state.
\<close>

theorem ac_trie_next_longest:
  assumes "is_automaton h at P" "longest P w s"
  shows "\<exists>s' n. ac_trie_next h (at []) (at s) b = Some (Inr (at s', leaf n)) \<and> h (at s') = Some n \<and> longest P (w @ [b]) s'"
proof -
  have nil: "[] \<in> P" and pre: "\<And>s b. s @ [b] \<in> P \<Longrightarrow> s \<in> P" using assms(1) unfolding is_automaton_def is_trie_def by blast+
  have "s = longest_suffix P w" using longest_unique [OF assms(2) longest_suffix_longest [OF nil]] .
  then have "longest P (w @ [b]) (longest_suffix P (s @ [b]))"
    using longest_suffix_longest [OF nil, of "w @ [b]"] longest_suffix_snoc [OF nil pre, where w = w and b = b] by simp
  then show ?thesis using ac_trie_next_path [OF assms(1), of s b] assms(2) by (auto simp: longest_def)
qed

text \<open>A trie with the words \<open>a\<close> and \<open>ab\<close>, and the text \<open>aab\<close>.\<close>

definition sample_nodes :: nodes where
  "sample_nodes = [0 \<mapsto> \<lparr>leaf = 0, label = 0, nxt = None, links = Some 1, fail = None\<rparr>,
     1 \<mapsto> \<lparr>leaf = 1, label = 0x61, nxt = None, links = Some 2, fail = Some 0\<rparr>,
     2 \<mapsto> \<lparr>leaf = 2, label = 0x62, nxt = None, links = None, fail = Some 0\<rparr>]"

lemma sample_automaton: "is_automaton sample_nodes length {[], [0x61], [0x61, 0x62]}"
proof -
  have "is_trie sample_nodes length {[], [0x61], [0x61, 0x62]}"
    unfolding is_trie_def
    by (auto simp: sample_nodes_def append_eq_Cons_conv intro: exI [of _ "[(0x61, 1)]"] exI [of _ "[(0x62, 2)]"] exI [of _ "[]"])
  then show ?thesis by (auto simp: is_automaton_def sample_nodes_def)
qed

theorem trie_search_words_witness:
  "trie_search sample_nodes 0 [0x61, 0x62] = Some (Inr True) \<and> trie_search sample_nodes 0 [0x62] = Some (Inr False)"
proof -
  have t: "is_trie sample_nodes length {[], [0x61], [0x61, 0x62]}" using sample_automaton by (simp add: is_automaton_def)
  show ?thesis using trie_search_words [OF t, of "[0x61, 0x62]"] trie_search_words [OF t, of "[0x62]"]
    by (simp add: words_of_def) (simp add: sample_nodes_def)
qed

theorem ac_trie_next_longest_witness:
  "\<exists>n. ac_trie_next sample_nodes 0 1 0x62 = Some (Inr (2, leaf n)) \<and> sample_nodes 2 = Some n \<and> leaf n = 2"
proof -
  let ?P = "{[], [0x61], [0x61, 0x62]} :: 8 word list set"
  have l: "longest ?P [0x61, 0x61] [0x61]" by (auto simp: longest_def)
  obtain s' n where a: "ac_trie_next sample_nodes (length ([] :: 8 word list)) (length [0x61 :: 8 word]) 0x62 = Some (Inr (length s', leaf n))"
    "sample_nodes (length s') = Some n" "longest ?P ([0x61, 0x61] @ [0x62]) s'"
    using ac_trie_next_longest [OF sample_automaton l, of "0x62"] by blast
  have "longest ?P [0x61, 0x61, 0x62] [0x61, 0x62]" by (auto simp: longest_def)
  then have "s' = [0x61, 0x62]" using longest_unique a(3) by simp
  then have l2: "length s' = 2" by simp
  then have "sample_nodes 2 = Some n" using a(2) by simp
  moreover from this have "leaf n = 2" by (auto simp: sample_nodes_def)
  ultimately show ?thesis using a(1) l2 by (intro exI [of _ n]) simp
qed

end
