(* ===== verification/Atomics.thy ===== *)
theory Atomics
  imports GPS_Prelude
begin

text \<open>
  The atomic operations of \<open>my_atomic.h\<close>: the bodies under a lock (\<open>atomic/rwlock.h\<close>), compare-and-swap over the compiler's
  intrinsic in the variants \<open>atomic/gcc_builtins.h\<close> and \<open>atomic/generic-msvc.h\<close>, and the bodies that \<open>my_atomic.h\<close> itself
  makes from compare-and-swap where a variant has none: the loops of \<open>my_atomic_add\<close> and \<open>my_atomic_fas\<close>,
  \<open>my_atomic_load\<close> and \<open>my_atomic_store\<close>. Any number of threads run one operation each on one variable; a step of a thread is
  one access to the variable, and a schedule is any list of threads. The lemmas show that the operations made from
  compare-and-swap take effect at one point each, in the order in which they end, exactly as the bodies under the lock, and
  that no thread spins for more steps than there are threads.
\<close>

section \<open>Bodies under the lock\<close>

text \<open>The value of the variable afterwards, and the value returned; \<open>rw_cas\<close> also gives the new content of \<open>*cmp\<close>.\<close>

definition rw_add :: "'w::len word \<Rightarrow> 'w word \<Rightarrow> 'w word \<times> 'w word" where
  "rw_add a v = (a + v, a)"

definition rw_fas :: "'w::len word \<Rightarrow> 'w word \<Rightarrow> 'w word \<times> 'w word" where
  "rw_fas a v = (v, a)"

definition rw_cas :: "'w::len word \<Rightarrow> 'w word \<Rightarrow> 'w word \<Rightarrow> 'w word \<times> 'w word \<times> bool" where
  "rw_cas a cmp new = (if a = cmp then (new, cmp, True) else (a, a, False))"

definition rw_load :: "'w::len word \<Rightarrow> 'w word \<times> 'w word" where
  "rw_load a = (a, a)"

definition rw_store :: "'w::len word \<Rightarrow> 'w word \<Rightarrow> 'w word" where
  "rw_store a v = v"

section \<open>Compare-and-swap over an intrinsic\<close>

text \<open>
  \<open>vcas a old new\<close> stands for \<open>__sync_val_compare_and_swap\<close>: the variable afterwards and the value that was found. The
  intrinsic of the other compiler takes its last two arguments in the opposite order.
\<close>

definition gcc_cas ::
    "('w::len word \<Rightarrow> 'w word \<Rightarrow> 'w word \<Rightarrow> 'w word \<times> 'w word) \<Rightarrow> 'w word \<Rightarrow> 'w word \<Rightarrow> 'w word \<Rightarrow> 'w word \<times> 'w word \<times> bool" where
  "gcc_cas vcas a cmp new =
     (let (a', sav) = vcas a cmp new; ret = sav = cmp in (a', if \<not> ret then sav else cmp, ret))"

definition msvc_cas ::
    "('w::len word \<Rightarrow> 'w word \<Rightarrow> 'w word \<Rightarrow> 'w word \<times> 'w word) \<Rightarrow> 'w word \<Rightarrow> 'w word \<Rightarrow> 'w word \<Rightarrow> 'w word \<times> 'w word \<times> bool" where
  "msvc_cas exchange a cmp new =
     (let initial_cmp = cmp; (a', initial_a) = exchange a new initial_cmp; ret = initial_a = initial_cmp
      in (a', if \<not> ret then initial_a else cmp, ret))"

section \<open>Bodies made from compare-and-swap\<close>

text \<open>
  Where a thread is in its operation: before its first access, in the loop with the local \<open>tmp\<close>, or returned.
\<close>

datatype 'v outcome = Old 'v | Cased bool 'v | Stored

datatype 'v apc = Begin | Spin 'v | Returned "'v outcome"

definition add_body ::
    "('w::len word \<Rightarrow> 'w word \<Rightarrow> 'w word \<Rightarrow> 'w word \<times> 'w word \<times> bool) \<Rightarrow> 'w word \<Rightarrow> 'w word apc \<Rightarrow> 'w word \<Rightarrow> 'w word \<times> 'w word apc" where
  "add_body cas v pc a = (case pc of
       Begin \<Rightarrow> (a, Spin a)
     | Spin tmp \<Rightarrow> (let (a', tmp', ok) = cas a tmp (tmp + v) in (a', if ok then Returned (Old tmp') else Spin tmp'))
     | Returned r \<Rightarrow> (a, pc))"

definition fas_body ::
    "('w::len word \<Rightarrow> 'w word \<Rightarrow> 'w word \<Rightarrow> 'w word \<times> 'w word \<times> bool) \<Rightarrow> 'w word \<Rightarrow> 'w word apc \<Rightarrow> 'w word \<Rightarrow> 'w word \<times> 'w word apc" where
  "fas_body cas v pc a = (case pc of
       Begin \<Rightarrow> (a, Spin a)
     | Spin tmp \<Rightarrow> (let (a', tmp', ok) = cas a tmp v in (a', if ok then Returned (Old tmp') else Spin tmp'))
     | Returned r \<Rightarrow> (a, pc))"

definition load_body ::
    "('w::len word \<Rightarrow> 'w word \<Rightarrow> 'w word \<Rightarrow> 'w word \<times> 'w word \<times> bool) \<Rightarrow> 'w word apc \<Rightarrow> 'w word \<Rightarrow> 'w word \<times> 'w word apc" where
  "load_body cas pc a = (case pc of
       Returned r \<Rightarrow> (a, pc)
     | _ \<Rightarrow> (let ret = 0; (a', ret', ok) = cas a ret ret in (a', Returned (Old ret'))))"

definition store_body ::
    "('w::len word \<Rightarrow> 'w word \<Rightarrow> 'w word \<Rightarrow> 'w word \<times> 'w word \<times> bool) \<Rightarrow> 'w word \<Rightarrow> 'w word apc \<Rightarrow> 'w word \<Rightarrow> 'w word \<times> 'w word apc" where
  "store_body cas v pc a = (case pc of
       Returned r \<Rightarrow> (a, pc)
     | _ \<Rightarrow> (let (a', pc') = fas_body cas v pc a in (a', case pc' of Returned r \<Rightarrow> Returned Stored | _ \<Rightarrow> pc')))"

definition cas_call ::
    "('w::len word \<Rightarrow> 'w word \<Rightarrow> 'w word \<Rightarrow> 'w word \<times> 'w word \<times> bool) \<Rightarrow> 'w word \<Rightarrow> 'w word \<Rightarrow> 'w word apc \<Rightarrow> 'w word \<Rightarrow> 'w word \<times> 'w word apc" where
  "cas_call cas cmp new pc a = (case pc of
       Returned r \<Rightarrow> (a, pc)
     | _ \<Rightarrow> (let (a', cmp', ret) = cas a cmp new in (a', Returned (Cased ret cmp'))))"

section \<open>Threads on one variable\<close>

datatype 'v aop = Add 'v | Fas 'v | Load | Store 'v | Cas 'v 'v

fun body ::
    "('w::len word \<Rightarrow> 'w word \<Rightarrow> 'w word \<Rightarrow> 'w word \<times> 'w word \<times> bool) \<Rightarrow> 'w word aop \<Rightarrow> 'w word apc \<Rightarrow> 'w word \<Rightarrow> 'w word \<times> 'w word apc" where
  "body cas (Add v) = add_body cas v"
| "body cas (Fas v) = fas_body cas v"
| "body cas Load = load_body cas"
| "body cas (Store v) = store_body cas v"
| "body cas (Cas cmp new) = cas_call cas cmp new"

text \<open>The same operation as one body under the lock.\<close>

fun locked :: "'w::len word aop \<Rightarrow> 'w word \<Rightarrow> 'w word \<times> 'w word outcome" where
  "locked (Add v) a = (let (a', r) = rw_add a v in (a', Old r))"
| "locked (Fas v) a = (let (a', r) = rw_fas a v in (a', Old r))"
| "locked Load a = (let (a', r) = rw_load a in (a', Old r))"
| "locked (Store v) a = (rw_store a v, Stored)"
| "locked (Cas cmp new) a = (let (a', cmp', ret) = rw_cas a cmp new in (a', Cased ret cmp'))"

fun run_locked :: "(nat \<Rightarrow> 'w::len word aop) \<Rightarrow> 'w word \<Rightarrow> nat list \<Rightarrow> 'w word \<times> (nat \<times> 'w word outcome) list" where
  "run_locked ops a [] = (a, [])"
| "run_locked ops a (t # ts) = (let (a', r) = locked (ops t) a; (a'', rs) = run_locked ops a' ts in (a'', (t, r) # rs))"

text \<open>The variable, the place of every thread, and the threads that have returned, in the order in which they did.\<close>

record 'v atomics =
  cell :: 'v
  place :: "nat \<Rightarrow> 'v apc"
  ended :: "nat list"

definition start_atomics :: "'w::len word \<Rightarrow> 'w word atomics" where
  "start_atomics a = \<lparr>cell = a, place = \<lambda>t. Begin, ended = []\<rparr>"

fun returned :: "'w::len word apc \<Rightarrow> bool" where
  "returned (Returned r) = True"
| "returned pc = False"

definition thread_step ::
    "('w::len word \<Rightarrow> 'w word \<Rightarrow> 'w word \<Rightarrow> 'w word \<times> 'w word \<times> bool) \<Rightarrow> (nat \<Rightarrow> 'w word aop) \<Rightarrow> 'w word atomics \<Rightarrow> nat \<Rightarrow> 'w word atomics" where
  "thread_step cas ops s t = (let (a', pc') = body cas (ops t) (place s t) (cell s) in
     \<lparr>cell = a', place = (place s)(t := pc'), ended = ended s @ (if returned pc' \<and> \<not> returned (place s t) then [t] else [])\<rparr>)"

definition run_threads ::
    "('w::len word \<Rightarrow> 'w word \<Rightarrow> 'w word \<Rightarrow> 'w word \<times> 'w word \<times> bool) \<Rightarrow> (nat \<Rightarrow> 'w word aop) \<Rightarrow> 'w word \<Rightarrow> nat list \<Rightarrow> 'w word atomics" where
  "run_threads cas ops a sched = foldl (thread_step cas ops) (start_atomics a) sched"

lemma run_threads_Nil [simp]: "run_threads cas ops a [] = start_atomics a"
  by (simp add: run_threads_def)

lemma run_threads_snoc [simp]: "run_threads cas ops a (sched @ [t]) = thread_step cas ops (run_threads cas ops a sched) t"
  by (simp add: run_threads_def)

lemma run_locked_snoc:
  "run_locked ops a ts = (b, rs) \<Longrightarrow> locked (ops t) b = (b', r) \<Longrightarrow> run_locked ops a (ts @ [t]) = (b', rs @ [(t, r)])"
  by (induction ts arbitrary: a rs) (auto split: prod.splits)

section \<open>The contract of compare-and-swap\<close>

text \<open>
  What the comment of \<open>my_atomic.h\<close> promises of \<open>my_atomic_cas\<close>: if the variable equals \<open>*old\<close>, the new value is stored and
  the result is true; otherwise the variable is stored in \<open>*old\<close> and the result is false.
\<close>

locale compare_and_swap =
  fixes cas :: "'w::len word \<Rightarrow> 'w word \<Rightarrow> 'w word \<Rightarrow> 'w word \<times> 'w word \<times> bool"
  assumes cas_equal: "cas a a new = (new, a, True)"
    and cas_differs: "a \<noteq> cmp \<Longrightarrow> cas a cmp new = (a, a, False)"
begin

text \<open>A step of a thread that has not returned reads the variable without changing it, or does all of its operation.\<close>

lemma body_cases:
  assumes "body cas op pc a = (a', pc')" "\<not> returned pc"
  obtains (reads) "a' = a" "pc' = Spin a" "\<forall>tmp. pc = Spin tmp \<longrightarrow> tmp \<noteq> a"
    | (acts) r where "pc' = Returned r" "locked op a = (a', r)"
proof (cases op)
  case (Add v)
  show ?thesis
  proof (cases pc)
    case (Spin tmp)
    then show ?thesis using Add assms that
      by (cases "a = tmp") (auto simp: add_body_def rw_add_def cas_equal cas_differs)
  qed (use Add assms that in \<open>auto simp: add_body_def\<close>)
next
  case (Fas v)
  show ?thesis
  proof (cases pc)
    case (Spin tmp)
    then show ?thesis using Fas assms that
      by (cases "a = tmp") (auto simp: fas_body_def rw_fas_def cas_equal cas_differs)
  qed (use Fas assms that in \<open>auto simp: fas_body_def\<close>)
next
  case Load
  then show ?thesis using assms that
    by (cases pc; cases "a = 0") (auto simp: load_body_def rw_load_def cas_equal cas_differs)
next
  case (Store v)
  show ?thesis
  proof (cases pc)
    case (Spin tmp)
    then show ?thesis using Store assms that
      by (cases "a = tmp") (auto simp: store_body_def fas_body_def rw_store_def cas_equal cas_differs)
  qed (use Store assms that in \<open>auto simp: store_body_def fas_body_def\<close>)
next
  case (Cas cmp new)
  then show ?thesis using assms that
    by (cases pc; cases "a = cmp") (auto simp: cas_call_def rw_cas_def cas_equal cas_differs)
qed

lemma body_returned: "returned pc \<Longrightarrow> body cas op pc a = (a, pc)"
  by (cases pc; cases op) (auto simp: add_body_def fas_body_def load_body_def store_body_def cas_call_def)

lemma thread_step_cases:
  obtains (idle) "returned (place s t)" "thread_step cas ops s t = s"
    | (reads) "\<not> returned (place s t)" "thread_step cas ops s t = s\<lparr>place := (place s)(t := Spin (cell s))\<rparr>"
        "\<forall>tmp. place s t = Spin tmp \<longrightarrow> tmp \<noteq> cell s"
    | (acts) a' r where "\<not> returned (place s t)" "locked (ops t) (cell s) = (a', r)"
        "thread_step cas ops s t = \<lparr>cell = a', place = (place s)(t := Returned r), ended = ended s @ [t]\<rparr>"
proof (cases "returned (place s t)")
  case True
  then show ?thesis using idle by (simp add: thread_step_def body_returned)
next
  case False
  obtain a' pc' where b: "body cas (ops t) (place s t) (cell s) = (a', pc')" by fastforce
  then show ?thesis using reads acts False by (cases rule: body_cases [OF b False]) (auto simp: thread_step_def)
qed

text \<open>
  The threads that have returned did what the bodies under the lock do one after the other.
\<close>

lemma linearized:
  "(\<forall>t. t \<in> set (ended s) \<longleftrightarrow> returned (place s t)) \<and> distinct (ended s) \<and>
   (\<exists>rs. run_locked ops a (ended s) = (cell s, rs) \<and> map fst rs = ended s \<and> (\<forall>(t, r) \<in> set rs. place s t = Returned r))"
  if "s = run_threads cas ops a sched"
  using that
proof (induction sched arbitrary: s rule: rev_induct)
  case Nil
  then show ?case by (simp add: start_atomics_def)
next
  case (snoc t sched)
  let ?s = "run_threads cas ops a sched"
  note IH = snoc.IH [OF refl]
  from IH obtain rs where rs: "run_locked ops a (ended ?s) = (cell ?s, rs)" "map fst rs = ended ?s"
    "\<forall>(t, r) \<in> set rs. place ?s t = Returned r" by blast
  have other: "t \<notin> fst ` set rs" if "\<not> returned (place ?s t)"
    using that IH rs(2) by (metis set_map)
  show ?case
  proof (cases rule: thread_step_cases [of ?s t ops])
    case idle
    then show ?thesis using IH snoc.prems by simp
  next
    case reads
    moreover have "\<forall>(t', r) \<in> set rs. t' \<noteq> t" using other [OF reads(1)] by force
    ultimately show ?thesis using IH rs snoc.prems by (auto intro!: exI [of _ rs])
  next
    case (acts a' r)
    moreover have "\<forall>(t', r) \<in> set rs. t' \<noteq> t" using other [OF acts(1)] by force
    moreover have "run_locked ops a (ended ?s @ [t]) = (a', rs @ [(t, r)])" using rs(1) acts(2) by (rule run_locked_snoc)
    ultimately show ?thesis using IH rs snoc.prems by (auto intro!: exI [of _ "rs @ [(t, r)]"])
  qed
qed

text \<open>
  A thread in the loop has made at most one step more than operations have ended, and no more than those if its compare-and-swap
  is going to fail: each failure is another thread's success.
\<close>

lemma spins:
  assumes "s = run_threads cas ops a sched"
  shows "(place s t = Begin \<longrightarrow> count_list sched t = 0) \<and>
     (\<forall>tmp. place s t = Spin tmp \<longrightarrow>
        count_list sched t \<le> length (ended s) + 1 \<and> (tmp \<noteq> cell s \<longrightarrow> count_list sched t \<le> length (ended s)))"
  using assms
proof (induction sched arbitrary: s rule: rev_induct)
  case Nil
  then show ?case by (simp add: start_atomics_def)
next
  case (snoc u sched)
  let ?s = "run_threads cas ops a sched"
  note IH = snoc.IH [OF refl]
  show ?case
  proof (cases rule: thread_step_cases [of ?s u ops])
    case idle
    then show ?thesis using IH snoc.prems by auto
  next
    case reads
    then show ?thesis using IH snoc.prems by (cases "place ?s u") auto
  next
    case (acts a' r)
    then show ?thesis using IH snoc.prems by auto
  qed
qed

lemma ended_scheduled: "set (ended (run_threads cas ops a sched)) \<subseteq> set sched"
proof (induction sched rule: rev_induct)
  case Nil
  then show ?case by (simp add: start_atomics_def)
next
  case (snoc u sched)
  then show ?case by (cases rule: thread_step_cases [of "run_threads cas ops a sched" u ops]) auto
qed

lemma thread_returns:
  assumes "set sched \<subseteq> {..<n}" "t < n" "n < count_list sched t"
  shows "returned (place (run_threads cas ops a sched) t)"
proof (rule ccontr)
  let ?s = "run_threads cas ops a sched"
  assume running: "\<not> returned (place ?s t)"
  then have "set (ended ?s) \<subseteq> {..<n} - {t}" using linearized [OF refl, of ops a sched] ended_scheduled [of ops a sched] assms(1) by auto
  then have "card (set (ended ?s)) \<le> card ({..<n} - {t})" by (intro card_mono) auto
  then have "length (ended ?s) + 1 \<le> n" using linearized [OF refl, of ops a sched] assms(2) by (simp add: distinct_card)
  moreover have "count_list sched t \<le> length (ended ?s) + 1"
    using spins [OF refl, of ops a sched t] running by (cases "place ?s t") auto
  ultimately show False using assms(3) by simp
qed

end

section \<open>The variants\<close>

lemma compare_and_swapI: "(\<And>a cmp new. cas a cmp new = rw_cas a cmp new) \<Longrightarrow> compare_and_swap cas"
  by unfold_locales (auto simp: rw_cas_def)

interpretation rwlock: compare_and_swap rw_cas
  by (rule compare_and_swapI) simp

lemma gcc_cas_contract:
  "(\<And>a old new. vcas a old new = (if a = old then new else a, a)) \<Longrightarrow> gcc_cas vcas a cmp new = rw_cas a cmp new"
  by (simp add: gcc_cas_def rw_cas_def)

lemma msvc_cas_contract:
  "(\<And>a new old. exchange a new old = (if a = old then new else a, a)) \<Longrightarrow> msvc_cas exchange a cmp new = rw_cas a cmp new"
  by (simp add: msvc_cas_def rw_cas_def)

lemma run_locked_adds:
  "run_locked (\<lambda>t. Add (v t)) a ts = (b, rs) \<Longrightarrow> b = a + sum_list (map v ts)"
proof (induction ts arbitrary: a b rs)
  case (Cons t ts)
  obtain rs' where "run_locked (\<lambda>t. Add (v t)) (a + v t) ts = (b, rs')"
    using Cons.prems by (auto simp: rw_add_def split: prod.splits)
  then have "b = (a + v t) + sum_list (map v ts)" by (rule Cons.IH)
  then show ?case by (simp add: add.assoc)
qed simp

section \<open>Linearizability\<close>

text \<open>
  C38. Operations made from compare-and-swap are linearizable: whatever the schedule and whatever the operations of the threads, the
  variable and every result are those of the bodies under the lock, run one after the other in the order in which the
  operations ended. In particular the loop is not deceived by a variable that changes and changes back.
\<close>

theorem atomics_linearizable:
  fixes cas :: "'w::len word \<Rightarrow> 'w word \<Rightarrow> 'w word \<Rightarrow> 'w word \<times> 'w word \<times> bool"
  assumes "\<And>a cmp new. cas a cmp new = rw_cas a cmp new"
    and "s = run_threads cas ops a sched"
  shows "\<exists>rs. run_locked ops a (ended s) = (cell s, rs) \<and> map fst rs = ended s \<and> distinct (ended s)
     \<and> (\<forall>t r. (t, r) \<in> set rs \<longleftrightarrow> place s t = Returned r)"
proof -
  note lin = compare_and_swap.linearized [OF compare_and_swapI [OF assms(1)] assms(2)]
  then obtain rs where rs: "run_locked ops a (ended s) = (cell s, rs)" "map fst rs = ended s"
    "\<forall>(t, r) \<in> set rs. place s t = Returned r" by blast
  have "(t, r) \<in> set rs" if "place s t = Returned r" for t r
  proof -
    have "t \<in> set (map fst rs)" using lin that rs(2) by simp
    then show ?thesis using rs(3) that by fastforce
  qed
  then show ?thesis using lin rs by (intro exI [of _ rs]) auto
qed

definition sample_intrinsic :: "32 word \<Rightarrow> 32 word \<Rightarrow> 32 word \<Rightarrow> 32 word \<times> 32 word" where
  "sample_intrinsic a old new = (if a = old then new else a, a)"

theorem atomics_linearizable_witness:
  "let s = run_threads (gcc_cas sample_intrinsic) (\<lambda>t. if t = 0 then Add 5 else Fas 7) 1 [0, 1, 1, 0, 0] in
   (\<exists>rs. run_locked (\<lambda>t. if t = 0 then Add 5 else Fas 7) 1 (ended s) = (cell s, rs) \<and> map fst rs = ended s) \<and>
   cell s = 12 \<and> ended s = [1, 0] \<and> place s 0 = Returned (Old 7)"
proof -
  have cas: "gcc_cas sample_intrinsic a cmp new = rw_cas a cmp new" for a cmp new
    by (rule gcc_cas_contract) (simp add: sample_intrinsic_def)
  from atomics_linearizable [OF cas refl, of "\<lambda>t. if t = 0 then Add 5 else Fas 7" 1 "[0, 1, 1, 0, 0]"]
  show ?thesis
    by (auto simp: Let_def run_threads_def start_atomics_def thread_step_def add_body_def fas_body_def cas rw_cas_def)
qed

text \<open>
  No addition is lost and no thread waits for ever: if each of \<open>n\<close> threads that add is scheduled more than \<open>n\<close> times, in any
  order, all have returned and the variable has grown by the sum of their numbers.
\<close>

theorem additions_all_counted:
  fixes cas :: "'w::len word \<Rightarrow> 'w word \<Rightarrow> 'w word \<Rightarrow> 'w word \<times> 'w word \<times> bool"
  assumes "\<And>a cmp new. cas a cmp new = rw_cas a cmp new"
    and "set sched \<subseteq> {..<n}" and "\<And>t. t < n \<Longrightarrow> n < count_list sched t"
    and "s = run_threads cas (\<lambda>t. Add (v t)) a sched"
  shows "(\<forall>t<n. returned (place s t)) \<and> cell s = a + (\<Sum>t<n. v t)"
proof -
  note cas = compare_and_swapI [OF assms(1)]
  note lin = compare_and_swap.linearized [OF cas assms(4)]
  have all: "\<forall>t<n. returned (place s t)"
    using compare_and_swap.thread_returns [OF cas assms(2) _ assms(3)] assms(4) by blast
  have "set (ended s) = {..<n}"
    using compare_and_swap.ended_scheduled [OF cas, of "\<lambda>t. Add (v t)" a sched] assms(2,4) all lin by auto
  moreover have "cell s = a + sum_list (map v (ended s))" using lin run_locked_adds by blast
  ultimately show ?thesis using all lin by (simp add: sum_list_distinct_conv_sum_set)
qed

theorem additions_all_counted_witness:
  "cell (run_threads (msvc_cas (\<lambda>a new old. sample_intrinsic a old new)) (\<lambda>t. Add (of_nat t + 1)) 10 [0, 1, 1, 0, 0, 1]) = 13"
proof -
  have cas: "msvc_cas (\<lambda>a new old. sample_intrinsic a old new) a cmp new = rw_cas a cmp new" for a cmp new
    by (rule msvc_cas_contract) (simp add: sample_intrinsic_def)
  have "t < 2 \<Longrightarrow> 2 < count_list [0, 1, 1, 0, 0, 1 :: nat] t" for t by (auto simp: less_2_cases_iff)
  from additions_all_counted [OF cas _ this refl, of "\<lambda>t. of_nat t + 1" 10] show ?thesis
    by (simp add: numeral_2_eq_2)
qed

end
