(* ===== verification/Spec2Isabelle.thy ===== *)
theory Spec2Isabelle
  imports StalePointers ClientTypes RemoteFaults Mainloop CastUtils Codec FloatStore BitUtils Bitmaps Connector Atomics
begin

text \<open>
  A verification of the CorrectGPS server (\<open>src/src\<close>): a daemon that accepts terminals on a TCP port, reads one HTTP
  request from each (serial number, digest, Baidu coordinates), corrects the coordinates with offset tables loaded from a
  MySQL database, passes the request on to a car server and returns its reply.

  \<^bold>\<open>Parts and how they interact.\<close> \<open>gps.cpp\<close> becomes a daemon (\<open>become_daemon.cpp\<close>), reads the settings (\<open>Ccfg.cpp\<close> over
  \<open>tools.cpp\<close>), lets the loader (\<open>dbdo.cpp\<close>) fill one table per latitude (\<open>CXArray.cpp\<close>), starts the client manager with its
  worker threads (\<open>CclientManager.cpp\<close>, \<open>Thread.cpp\<close>), opens the listener (\<open>Cserver.cpp\<close>) and runs the event loop over
  the poller (\<open>SelEpolKqEvPrt.cpp\<close>). A read event reaches the client object (\<open>CClient.cpp\<close>), which collects the request and
  queues its descriptor when it is complete; a worker takes it, corrects the coordinates (\<open>Ccorrectit.cpp\<close>), talks to the
  car server (\<open>Csender.cpp\<close>) and removes the client.

  \<^bold>\<open>Theories.\<close>
  \<^item> \<open>GPS_Prelude\<close>: faults, results, sequencing; the locales \<open>invariant_machine\<close> and \<open>total_machine\<close>, which lift a step
    invariant to runs and are interpreted on the manager (\<open>mgr\<close>, \<open>conns\<close>), the poller (\<open>poll\<close>), the event loop (\<open>loop\<close>),
    the client buffer and the thread object; ordered maps.
  \<^item> \<open>CLib\<close>: what the sources use of C: checked array access, \<open>memcpy\<close> in three variants, strings, number conversions,
    and the operations on \<open>double\<close> as a record.
  \<^item> \<open>OffsetArray\<close> (\<open>CXArray\<close>, \<open>append\<close>, \<open>getGpsxy\<close>): a table refines a sorted list of keyed offsets; lookup equals
    lookup in that list (locale \<open>offset_store\<close>, interpreted as \<open>xarray\<close>); what head insertion and a full table do.
  \<^item> \<open>Tools\<close>, \<open>Config\<close>, \<open>Codec\<close>, \<open>Syslog\<close>, \<open>CastUtils\<close>: helpers of \<open>tools.cpp\<close>, \<open>g_api.h\<close>, \<open>Ccfg.cpp\<close>, \<open>log.cpp\<close> and
    \<open>CastUtil.h\<close> with their round trips and error behaviour.
  \<^item> \<open>Client\<close>: \<open>receive\<close> and \<open>parse\<close> on the 4097 byte buffer with every read checked; requests in one and in two pieces,
    the buffer invariant, the aborts.
  \<^item> \<open>Correctit\<close>, \<open>Loader\<close>, \<open>Sender\<close>: the worker against the tables, the tables from the rows, the exchange with the car
    server over the results of its socket calls.
  \<^item> \<open>Threads\<close>, \<open>Manager\<close>, \<open>Interleaving\<close>: thread objects; the client map over an explicit heap of clients; the main
    thread and all workers as a step relation on the same manager. The search of the map, the receive, the parse and the calls that
    \<open>DoRead\<close> makes are separate steps without a lock; a worker wakes, takes a message, locks, serves, and kills in separate
    steps, and keeps the lock while the car server makes it wait, for ever if the server never answers
    (\<open>hung_worker_stops_server\<close>). Steps are sequentially consistent; what else is one step is said there.
  \<^item> \<open>StalePointers\<close>: freed memory is used exactly by the unlocked search of a map that has changed meanwhile and through a
    pointer that a thread has kept past the deletion of its client; which other faults a step can have is known (\<open>step_faults\<close>).
  \<^item> \<open>RemoteFaults\<close>: how the first bytes of a peer leave the logger's buffer or read an argument that is not there.
  \<^item> \<open>ClientTypes\<close>: the arrays and the status of every client of every reachable state are as \<open>CClient.h\<close> declares them.
  \<^item> \<open>Poller\<close>, \<open>Listener\<close>, \<open>Daemon\<close>, \<open>Mainloop\<close>: the epoll wrapper over the kernel's open and watched descriptors, the
    listening socket, the daemon, and \<open>main\<close> with signals, start-up, event dispatch and the loop.
  \<^item> \<open>ByteOrder\<close>, \<open>FloatStore\<close>: the storage macros of the bundled MySQL headers (\<open>my_global.h\<close>, \<open>myisampack.h\<close>) for integers,
    floating point numbers, rows and positions, in each variant of the preprocessor, and that the variants agree.
  \<^item> \<open>BitUtils\<close>, \<open>Bitmaps\<close>, \<open>Connector\<close>: the inline functions of these headers: \<open>my_bit.h\<close> on words, \<open>my_bitmap.h\<close> as a set of
    numbers (locale \<open>bit_vector\<close>, interpreted as \<open>bm\<close>), \<open>skip_trailing_space\<close> against the removal of single spaces, the range
    check of time stamps, and the trie of \<open>my_trie.h\<close> on a heap of nodes with its Aho-Corasick search.
  \<^item> \<open>Atomics\<close>: the atomic operations of \<open>my_atomic.h\<close> by any number of threads: those made from compare-and-swap (locale
    \<open>compare_and_swap\<close>) are linearizable, and no thread spins for more steps than there are threads.
  \<^item> this theory: the path of one request through all of them, from the socket to the reply (\<open>request_served\<close>), and the request
    that overruns the buffer of a worker (\<open>remote_overrun\<close>).

  \<^bold>\<open>How code becomes definitions.\<close> A class is a record with the members the code reads, a method a function that returns the
  updated record; definitions keep the names of the source. An operation that can leave the defined behaviour of C++
  returns a sum: \<open>Inl\<close> a fault (array bounds, null pointer, use after \<open>delete\<close>, erased iterator, failed \<open>assert\<close>,
  unwritten value, missing format argument, exception), \<open>Inr\<close> the result. What an operation does outside its object (log
  lines, \<open>close\<close>, \<open>send\<close>, calls back into the manager) is returned as a list of effects, in order. Answers of the system, of
  the network, of the clock and of the MySQL library are arguments. Integers have their 32-bit widths where the code relies
  on them: the server is built for ILP32. \<open>memcpy\<close> on overlapping regions is undefined in C; an argument selects strict
  (a fault), upward or downward copying, and theorems say which of them they need; no platform documents the last two. The
  one overlapping \<open>strcpy\<close>, in \<open>strtriml\<close>, is taken to copy upwards.

  \<^bold>\<open>Loops.\<close> Every loop is a total function. Loops over buffers recurse on the remaining length; loops that wait for the
  outside recurse on the list of answers they get and return \<open>None\<close> when the list ends while they still wait, so that a
  theorem that such a loop returns names the answer that ends it (\<open>getEvents\<close>, \<open>connect_loop\<close>, \<open>recv_loop\<close>). The loops over
  the nodes of a trie are partial functions, \<open>None\<close> when they do not end, and are proved to end on tries. No fuel is used.

  \<^bold>\<open>What the theorems show.\<close> The intended behaviour first: tables refine their rows, corrections are exact, a request is
  recognised in one or two pieces, configuration files are read back, the client map and the set of watched descriptors
  stay consistent through any events, start-up establishes the invariant of the loop, and a request is served end to end.
  Then the places where the code does something else, each as a theorem on the same definitions: the entry lost by head
  insertion, the unchecked probe, the aborts on incomplete requests, the overruns of the log, request and reply buffers, the leaked sockets
  and event slots, the double close, the erased iterator, the lost wake-up, the use of deleted clients by the main thread
  and by a second worker, the map lock kept by a worker that waits for ever, the use of a deleted thread functor, and \<open>SIGHUP\<close>.

  \<^bold>\<open>Not modelled.\<close> The bodies of \<open>StringUtil\<close> (only declared in the repository), the MySQL library behind the bundled headers,
  \<open>Clistener\<close> (an empty class), the table \<open>ename.c.inc\<close>, which no file includes, and of the bundled headers their declarations,
  constants, tables, inline assembly, and the macros that only call the library through pointers (\<open>m_ctype.h\<close>, the file
  caches of \<open>my_sys.h\<close>). The tables and the prepared tries that these headers' functions use come from the library and are
  hypotheses. IEEE 754 arithmetic is an argument: results hold for
  every choice of its operations.
\<close>

section \<open>A request from the socket to the reply\<close>

text \<open>A request as a whole: it can be logged, names its four values after the first command word, and is long enough.\<close>

definition good_request :: "tm \<Rightarrow> string \<Rightarrow> string \<Rightarrow> string \<Rightarrow> string \<Rightarrow> string \<Rightarrow> bool" where
  "good_request ltm r ser m x y \<longleftrightarrow> (\<exists>d. getnowdate ltm = Inr d) \<and> fields_ok ser m x y \<and> pct \<notin> set r \<and> length r \<le> 4065
     \<and> (\<exists>pre rest. r = pre @ ''navto?'' @ request_body ser m x y @ rest \<and> first_navto r (length pre)
          \<and> IN_DATA_LEN \<le> length (request_body ser m x y @ rest))"

text \<open>A car server that takes the connection at once and answers in one piece, in time, with a complete reply.\<close>

definition good_answer :: "Ccfg \<Rightarrow> network \<Rightarrow> string \<Rightarrow> bool" where
  "good_answer g net reply \<longleftrightarrow> net_sock net \<noteq> INVALID_SOCKET \<and> net_conn net = ConnDone
     \<and> (\<exists>t rs. net_recvs net = (RecvBytes reply, t) # rs \<and> t \<le> outtime_s g)
     \<and> length reply < FEEDBACK_MSG_LEN \<and> NUL \<notin> set reply \<and> strstr reply SUCC \<and> strstr reply [CHR 0x7D]"

text \<open>The main thread's part: the request is parsed into the client and its descriptor queued for the workers.\<close>

lemma read_queues_request:
  assumes conn: "map_of (clientqueue s) fd = Some a" "heap s a = Some (new_CClient now fd)" and "good_request ltm r ser m x y"
  shows "\<exists>p es. DoRead mode ltm fd (Some r) s = Inr (s\<lparr>heap := (heap s)(a \<mapsto> (new_CClient now fd)\<lparr>iobuf := p, serial := ser,
       md5 := Some m, xbaidu := Some x, ybaidu := Some y, status := 1\<rparr>), msglist := msglist s @ [fd], test_cond := True\<rparr>, es)"
proof -
  obtain d pre rest where r: "getnowdate ltm = Inr d" "fields_ok ser m x y" "pct \<notin> set r" "length r \<le> 4065"
    "r = pre @ ''navto?'' @ request_body ser m x y @ rest" "first_navto r (length pre)"
    "IN_DATA_LEN \<le> length (request_body ser m x y @ rest)"
    using assms(3) by (auto simp: good_request_def)
  let ?c = "new_CClient now fd :: 'a CClient"
  have "r \<noteq> []" using r(5) by simp
  then have "\<exists>l p. receive mode ltm ?c (Some r) = Inr (?c\<lparr>iobuf := p, serial := ser, md5 := Some m, xbaidu := Some x,
      ybaidu := Some y, status := 1\<rparr>, [say ''CClient::receive'', ELog l, ENotify (cfd ?c)])"
    using r by (intro receive_complete [where d = d and pre = pre and rest = rest]) simp_all
  then obtain l p where "receive mode ltm ?c (Some r) = Inr (?c\<lparr>iobuf := p, serial := ser, md5 := Some m, xbaidu := Some x,
      ybaidu := Some y, status := 1\<rparr>, [say ''CClient::receive'', ELog l, ENotify fd])" by auto
  then show ?thesis using conn
    by (intro exI [of _ p]) (simp add: DoRead_def receive_at_def deref_def say_def notificationthreads_def)
qed

lemma fields_text:
  assumes "fields_ok ser m x y"
  shows "cstr ser = ser" "cstr m = m" "cstr x = x" "cstr y = y" "pct \<notin> set ser" "ser \<noteq> []" "length ser = SERIAL_LEN" "length m = MD5_LEN"
proof -
  have "field_char c \<Longrightarrow> c \<noteq> NUL \<and> c \<noteq> pct" for c by (auto simp: field_char_def pct_def is_digit_def)
  then have "\<forall>c\<in>set (ser @ m @ x @ y). c \<noteq> NUL \<and> c \<noteq> pct" using assms by (meson fields_ok_def)
  then show "cstr ser = ser" "cstr m = m" "cstr x = x" "cstr y = y" "pct \<notin> set ser" by (auto intro!: cstr_no_nul)
qed (use assms in \<open>auto simp: fields_ok_def\<close>)

text \<open>
  C1. End to end. A connection that has just been accepted sends a request whose keys have offsets in the tables, and the car
  server answers. Then the read event queues the request, and the next worker sends the car server one request with the
  serial number, the digest and the coordinates less the offsets, closes that connection, returns the reply to the
  terminal, closes the terminal's connection and removes the client; the manager is consistent again.
\<close>

theorem request_served:
  assumes inv: "mgr_inv g s" "msglist s = []" "\<not> allExitFlag s" "infomap s = Some info" "info_wf fp info"
    and conn: "map_of (clientqueue s) fd = Some a" "heap s a = Some (new_CClient now fd)" "fd \<noteq> INVALID_SOCKET"
    and req: "good_request ltm r ser m x y" "chang2uint y = Inr ky" "chang2uint x = Inr kx"
    and table: "table_of info ky kx = Some (dx, dy)" "in_reach info ky kx"
    and net: "good_answer g net reply" "length (carserv_domainname g) \<le> 150"
    and sizes: "length (fp_fmt8 fp (fp_sub fp (fp_atof fp x) dx)) \<le> 50" "length (fp_fmt8 fp (fp_sub fp (fp_atof fp y) dy)) \<le> 50"
  shows "\<exists>s1 e1 s2 l e2. DoRead mode ltm fd (Some r) s = Inr (s1, e1)
     \<and> run_once fp g net wfd s1 = Inr (Some (fd, s2,
         [ESend (net_sock net) (navigate_text g ser m (fp_fmt8 fp (fp_sub fp (fp_atof fp x) dx)) (fp_fmt8 fp (fp_sub fp (fp_atof fp y) dy))),
          EClose (net_sock net), ESend fd reply, ELog l] @ e2))
     \<and> EClose fd \<in> set e2 \<and> clientqueue s2 = map_erase fd (clientqueue s) \<and> heap s2 a = None \<and> msglist s2 = [] \<and> mgr_inv g s2"
proof -
  note t = fields_text [of ser m x y]
  have ok: "fields_ok ser m x y" using req(1) by (simp add: good_request_def)
  obtain p e1 where rd: "DoRead mode ltm fd (Some r) s = Inr (s\<lparr>heap := (heap s)(a \<mapsto> (new_CClient now fd)\<lparr>iobuf := p, serial := ser,
       md5 := Some m, xbaidu := Some x, ybaidu := Some y, status := 1\<rparr>), msglist := msglist s @ [fd], test_cond := True\<rparr>, e1)"
    using read_queues_request [OF conn(1,2) req(1), of mode] by blast
  let ?c = "(new_CClient now fd)\<lparr>iobuf := p, serial := ser, md5 := Some m, xbaidu := Some x, ybaidu := Some y, status := 1\<rparr> :: 'a CClient"
  let ?s = "s\<lparr>heap := (heap s)(a \<mapsto> ?c), msglist := msglist s @ [fd], test_cond := True\<rparr>"
  let ?x = "fp_sub fp (fp_atof fp x) dx" and ?y = "fp_sub fp (fp_atof fp y) dy"
  have i1: "mgr_inv g ?s" using DoRead_inv [OF inv(1) rd] by simp
  have "ky \<in> fst ` set info" using table(1) by (force simp: table_of_def bind_eq_Some_conv dest: map_of_SomeD)
  then have cor: "corrected fp info ky kx (sent_point fp ?c) = Some (?x, ?y)"
    using table(1) t(3,4) [OF ok] by (simp add: corrected_def sent_point_def)
  have "request_keys ?c = Inr (ky, kx)" using req(2,3) t(3,4) [OF ok] by (simp add: request_keys_def read_array_def)
  from worker_spec [OF inv(5) this table(2)] cor
  have w: "correctgps_worker fp ?c info = Inr (?c\<lparr>status := 2, xgps := Some ?x, ygps := Some ?y\<rparr>)" by simp
  let ?d = "?c\<lparr>status := 2, xgps := Some ?x, ygps := Some ?y\<rparr>"
  obtain tm rs where n: "net_sock net \<noteq> INVALID_SOCKET" "net_conn net = ConnDone" "net_recvs net = (RecvBytes reply, tm) # rs" "tm \<le> outtime_s g"
    "length reply < FEEDBACK_MSG_LEN" "NUL \<notin> set reply" "strstr reply SUCC" "strstr reply [CHR 0x7D]"
    using net(1) by (auto simp: good_answer_def)
  have "\<exists>sn l. Send2CarServer fp g net ?d = Inr (Some (sn, [ESend (net_sock net) (navigate_text g (cstr (serial ?d)) (cstr m) (fp_fmt8 fp ?x) (fp_fmt8 fp ?y)),
      EClose (net_sock net), ESend (cfd ?d) reply, ELog l]))"
    by (rule Send2CarServer_reply [OF n(1,2) _ _ _ _ _ _ net(2) sizes n(3-8)]) (use t [OF ok] in simp_all)
  then obtain sn l where sent: "Send2CarServer fp g net ?d = Inr (Some (sn, [ESend (net_sock net) (navigate_text g ser m (fp_fmt8 fp ?x) (fp_fmt8 fp ?y)),
      EClose (net_sock net), ESend fd reply, ELog l]))" using t(1,2) [OF ok] by auto
  have "\<exists>s2 e2. run_once fp g net wfd ?s = Inr (Some (fd, s2, [ESend (net_sock net) (navigate_text g ser m (fp_fmt8 fp ?x) (fp_fmt8 fp ?y)),
        EClose (net_sock net), ESend fd reply, ELog l] @ e2))
     \<and> mgr_inv g s2 \<and> msglist s2 = [] \<and> clientqueue s2 = map_erase fd (clientqueue ?s) \<and> heap s2 a = None \<and> EClose fd \<in> set e2"
    by (rule serve_request [OF i1 _ _ conn(3) _ _ _ w _ sent]) (use inv conn t [OF ok] in simp_all)
  then show ?thesis using rd by fastforce
qed

text \<open>The sample request against a table with its keys.\<close>

definition sample_table :: "int CXArray" where
  "sample_table = \<lparr>arraylng = (\<lambda>i. if i = 0 then \<lparr>off_x = 11473, off_dx = 3, off_dy = 4\<rparr> else zero_entry int_fp), index = 1\<rparr>"

definition sample_reply :: string where
  "sample_reply = SUCC @ [CHR 0x22, CHR 0x7D]"

definition sample_net :: network where
  "sample_net = \<lparr>net_sock = 9, net_conn = ConnDone, net_sels = [], net_recvs = [(RecvBytes sample_reply, 1)],
     net_heap = \<lparr>m_sockfd = 0, fb = (\<lambda>_. NUL)\<rparr>\<rparr>"

definition sample_manager :: "int manager" where
  "sample_manager = one_client\<lparr>infomap := Some [(1064, sample_table)]\<rparr>"

lemma sample_table_facts:
  "info_wf int_fp [(1064, sample_table)]" "table_of [(1064, sample_table)] 1064 11473 = Some (3, 4)"
  "in_reach [(1064, sample_table)] 1064 11473"
proof -
  have t: "arr_keys sample_table = [11473]" "entries sample_table = [(11473, 3, 4)]"
    by (simp_all add: arr_keys_def entries_def ent_def sample_table_def)
  have "arr_wf int_fp sample_table" by (simp add: arr_wf_def t) (simp add: sample_table_def)
  then show "info_wf int_fp [(1064, sample_table)]" by (simp add: info_wf_def)
  show "table_of [(1064, sample_table)] 1064 11473 = Some (3, 4)" "in_reach [(1064, sample_table)] 1064 11473"
    by (simp_all add: table_of_def in_reach_def t)
qed

lemma sample_good_request:
  "good_request sample_tm sample_request ''356823032255122'' ''2eb399b9588b1ac2ccc35dce6f266033'' ''114.73427'' ''10.640487''"
  unfolding good_request_def
proof (intro conjI)
  show "\<exists>pre rest. sample_request = pre @ ''navto?'' @ request_body ''356823032255122'' ''2eb399b9588b1ac2ccc35dce6f266033'' ''114.73427'' ''10.640487'' @ rest
      \<and> first_navto sample_request (length pre)
      \<and> IN_DATA_LEN \<le> length (request_body ''356823032255122'' ''2eb399b9588b1ac2ccc35dce6f266033'' ''114.73427'' ''10.640487'' @ rest)"
    by (rule exI [of _ "''GET /api/car/''"], rule exI [of _ "''HTTP/1.1''"], intro conjI sample_request_def sample_first_navto sample_body_length)
qed (use sample_tm_date sample_fields_ok sample_request_facts in auto)

lemma sample_good_answer: "good_answer sample_cfg sample_net sample_reply"
proof -
  have "strstr sample_reply SUCC" unfolding sample_reply_def strstr_iff by (rule exI [of _ "[]"]) simp
  moreover have "strstr sample_reply [CHR 0x7D]" unfolding sample_reply_def strstr_iff
    by (rule exI [of _ "SUCC @ [CHR 0x22]"]) simp
  moreover have "NUL \<notin> set sample_reply" "length sample_reply < FEEDBACK_MSG_LEN" by (simp_all add: sample_reply_def SUCC_def)
  ultimately show ?thesis by (simp add: good_answer_def sample_net_def)
qed

lemma sample_values:
  "fst (strtol 32 ''114.73427'') - 3 = 111" "fst (strtol 32 ''10.640487'') - 4 = 6" "print_int 111 = ''111''" "print_int 6 = ''6''"
  by code_simp+

theorem request_served_witness:
  "\<exists>s1 e1 s2 l e2. DoRead CopyStrict sample_tm 7 (Some sample_request) sample_manager = Inr (s1, e1)
     \<and> run_once int_fp sample_cfg sample_net INVALID_SOCKET s1 = Inr (Some (7, s2,
         [ESend 9 (navigate_text sample_cfg ''356823032255122'' ''2eb399b9588b1ac2ccc35dce6f266033'' ''111'' ''6''),
          EClose 9, ESend 7 sample_reply, ELog l] @ e2))
     \<and> EClose 7 \<in> set e2 \<and> heap s2 0 = None"
proof -
  have inv: "mgr_inv sample_cfg sample_manager" using one_client_inv by (simp add: sample_manager_def)
  have s: "msglist sample_manager = []" "\<not> allExitFlag sample_manager" "infomap sample_manager = Some [(1064, sample_table)]"
    "map_of (clientqueue sample_manager) 7 = Some 0" "heap sample_manager 0 = Some (new_CClient 0 7)"
    by (simp_all add: sample_manager_def one_client_def new_manager_def)
  have n: "net_sock sample_net = 9" by (simp add: sample_net_def)
  have "length (fp_fmt8 int_fp (fp_sub int_fp (fp_atof int_fp ''114.73427'') 3)) \<le> 50"
    "length (fp_fmt8 int_fp (fp_sub int_fp (fp_atof int_fp ''10.640487'') 4)) \<le> 50"
    "length (carserv_domainname sample_cfg) \<le> 150"
    by (simp_all add: sample_values)
  from request_served [OF inv s(1-3) sample_table_facts(1) s(4,5) _ sample_good_request sample_keys sample_table_facts(2,3)
      sample_good_answer this(3) this(1,2), of CopyStrict INVALID_SOCKET]
  show ?thesis by (simp add: n sample_values) blast
qed

section \<open>A request that overruns the worker's stack\<close>

text \<open>
  C2. A remote peer can make a worker write outside \<open>char data[1024]\<close> on its stack. A well-formed request whose latitude has no table
  is forwarded with its coordinates as sent; \<open>atof\<close> reads an exponent, \<open>%.8f\<close> prints all its digits, and ten characters are
  enough for three hundred of them. The read event queues such a request like any other, and the next worker leaves its buffer
  as soon as the car server accepts the connection.
\<close>

theorem remote_overrun:
  assumes inv: "mgr_inv g s" "msglist s = []" "\<not> allExitFlag s" "infomap s = Some info"
    and conn: "map_of (clientqueue s) fd = Some a" "heap s a = Some (new_CClient now fd)"
    and req: "good_request ltm r ser m x y" "chang2uint y = Inr ky" "ky \<notin> fst ` set info"
    and long: "610 \<le> length (fp_fmt8 fp (fp_atof fp x)) + length (fp_fmt8 fp (fp_atof fp y))"
    and net: "net_sock net \<noteq> INVALID_SOCKET" "net_conn net = ConnDone"
  shows "\<exists>s1 e1. DoRead mode ltm fd (Some r) s = Inr (s1, e1) \<and> run_once fp g net wfd s1 = Inl OutOfBounds"
proof -
  have ok: "fields_ok ser m x y" using req(1) by (simp add: good_request_def)
  note t = fields_text [OF ok]
  obtain p e1 where rd: "DoRead mode ltm fd (Some r) s = Inr (s\<lparr>heap := (heap s)(a \<mapsto> (new_CClient now fd)\<lparr>iobuf := p, serial := ser,
       md5 := Some m, xbaidu := Some x, ybaidu := Some y, status := 1\<rparr>), msglist := msglist s @ [fd], test_cond := True\<rparr>, e1)"
    using read_queues_request [OF conn req(1), of mode] by blast
  let ?c = "(new_CClient now fd)\<lparr>iobuf := p, serial := ser, md5 := Some m, xbaidu := Some x, ybaidu := Some y, status := 1\<rparr> :: 'a CClient"
  let ?d = "?c\<lparr>status := 2, xgps := Some (fp_atof fp x), ygps := Some (fp_atof fp y)\<rparr>"
  have "map_of info ky = None" using req(3) by (simp add: map_of_eq_None_iff)
  then have w: "correctgps_worker fp ?c info = Inr ?d"
    using t(3,4) req(2) by (simp add: correctgps_worker_def read_array_def SetSend2CarServer_def Let_def)
  have "Send2CarServer fp g net ?d = Inl OutOfBounds"
    using Send2CarServer_overrun [OF net(2,1) Send_overrun [of ?d m "fp_atof fp x" "fp_atof fp y"]] t long by simp
  then have "run_once fp g net wfd (s\<lparr>heap := (heap s)(a \<mapsto> ?c), msglist := msglist s @ [fd], test_cond := True\<rparr>) = Inl OutOfBounds"
    using inv conn w t
    by (simp add: run_once_def take_message_def take_front_def work_def getClientMap_def deref_def GetSend2CarServer_def Let_def)
  then show ?thesis using rd by blast
qed

text \<open>Numbers with an exponent, printed with eight decimals.\<close>

definition exponent_fp :: "int fpops" where
  "exponent_fp = int_fp\<lparr>fp_atof := (\<lambda>s. fst (strtol 32 s) * 10 ^ nat (fst (strtol 32 (tl (dropWhile (\<lambda>c. c \<noteq> CHR ''e'') s))))),
     fp_fmt8 := (\<lambda>n. print_int n @ ''.00000000'')\<rparr>"

definition exponent_request :: string where
  "exponent_request = ''GET /api/car/'' @ ''navto?'' @
     request_body ''356823032255122'' ''2eb399b9588b1ac2ccc35dce6f266033'' ''1e308'' ''1e308'' @ ''HTTP/1.1''"

lemma exponent_request_good:
  "good_request sample_tm exponent_request ''356823032255122'' ''2eb399b9588b1ac2ccc35dce6f266033'' ''1e308'' ''1e308''"
  unfolding good_request_def
proof (intro conjI)
  show "\<exists>d. getnowdate sample_tm = Inr d" using sample_tm_date by blast
  show "fields_ok ''356823032255122'' ''2eb399b9588b1ac2ccc35dce6f266033'' ''1e308'' ''1e308''"
    by (simp add: fields_ok_def field_char_def is_digit_def)
  show "pct \<notin> set exponent_request" "length exponent_request \<le> 4065"
    by (simp_all add: exponent_request_def request_body_def pct_def)
  show "\<exists>pre rest. exponent_request = pre @ ''navto?'' @ request_body ''356823032255122'' ''2eb399b9588b1ac2ccc35dce6f266033'' ''1e308'' ''1e308'' @ rest
      \<and> first_navto exponent_request (length pre)
      \<and> IN_DATA_LEN \<le> length (request_body ''356823032255122'' ''2eb399b9588b1ac2ccc35dce6f266033'' ''1e308'' ''1e308'' @ rest)"
  proof (rule exI [of _ "''GET /api/car/''"], rule exI [of _ "''HTTP/1.1''"], intro conjI)
    show "first_navto exponent_request (length ''GET /api/car/'')"
      unfolding exponent_request_def by (rule first_navto_start) (simp add: kw_start_def kw_navto_def)
  qed (simp_all add: exponent_request_def request_body_def)
qed

lemma exponent_value: "fp_atof exponent_fp ''1e308'' = 10 ^ 308" "chang2uint ''1e308'' = Inr 1"
proof -
  have "fst (strtol 32 ''1e308'') = 1" "fst (strtol 32 (tl (dropWhile (\<lambda>c. c \<noteq> CHR ''e'') ''1e308''))) = 308" by code_simp+
  then show "fp_atof exponent_fp ''1e308'' = 10 ^ 308" by (simp only: exponent_fp_def CLib.fpops.simps) simp
  show "chang2uint ''1e308'' = Inr 1" by code_simp
qed

theorem remote_overrun_witness:
  "\<exists>s1 e1. DoRead CopyStrict sample_tm 7 (Some exponent_request) sample_manager = Inr (s1, e1)
     \<and> run_once exponent_fp sample_cfg sample_net INVALID_SOCKET s1 = Inl OutOfBounds"
proof -
  have inv: "mgr_inv sample_cfg sample_manager" using one_client_inv by (simp add: sample_manager_def)
  have s: "msglist sample_manager = []" "\<not> allExitFlag sample_manager" "infomap sample_manager = Some [(1064, sample_table)]"
    "map_of (clientqueue sample_manager) 7 = Some 0" "heap sample_manager 0 = Some (new_CClient 0 7)"
    by (simp_all add: sample_manager_def one_client_def new_manager_def)
  have "(10 :: int) ^ 308 = int (10 ^ 308)" by simp
  then have "print_int (10 ^ 308) = dec (10 ^ 308)" unfolding print_int_def by (simp only: nat_int) simp
  moreover have "308 < length (dec (10 ^ 308))" by (rule length_dec_gt) simp
  ultimately have "317 \<le> length (fp_fmt8 exponent_fp (fp_atof exponent_fp ''1e308''))"
    by (simp only: exponent_value) (simp add: exponent_fp_def)
  then have l: "610 \<le> length (fp_fmt8 exponent_fp (fp_atof exponent_fp ''1e308'')) + length (fp_fmt8 exponent_fp (fp_atof exponent_fp ''1e308''))"
    by simp
  have n: "net_sock sample_net \<noteq> INVALID_SOCKET" "net_conn sample_net = ConnDone" by (simp_all add: sample_net_def)
  have k: "(1 :: 32 word) \<notin> fst ` set [(1064, sample_table)]" by simp
  from remote_overrun [OF inv s exponent_request_good exponent_value(2) k l n] show ?thesis by blast
qed

end
